(* ===== verification/Prelude.thy ===== *)
theory Prelude
  imports Main "HOL-Library.Word" "HOL-Library.AList" "HOL-Library.List_Lexorder"
    "HOL-Library.Char_ord" "HOL-Library.Product_Lexorder" "HOL-Library.Multiset"
begin

text \<open>
  Shared vocabulary of the development: the collections of rewrite rules, the effect type
  of the Python code (a state that survives a raised exception), the string operations the
  sources use, and the keyed tables that stand for Python dictionaries, SQLite tables with
  a primary key and directories.

  Text (\<open>str\<close> in Python, \<open>TEXT\<close> in SQLite) is \<open>string\<close>, a list of characters; a
  character stands for a code point below 256.  Byte strings are lists of \<open>8 word\<close>.
\<close>

named_theorems eff_simps \<open>rewrite rules that run effectful code\<close>
named_theorems table_simps \<open>lookups after an update of a keyed table\<close>

section \<open>Effects: state that survives exceptions\<close>

text \<open>
  A Python statement either returns or raises; what it did to files and databases before it
  raised stays done.  A computation over a state \<open>'s\<close> therefore returns the outcome
  together with the state.
\<close>

type_synonym byte = "8 word"
type_synonym ('s, 'e, 'a) eff = "'s \<Rightarrow> ('e + 'a) \<times> 's"

definition ret :: "'a \<Rightarrow> ('s, 'e, 'a) eff" where
  "ret a = (\<lambda>s. (Inr a, s))"

definition throw :: "'e \<Rightarrow> ('s, 'e, 'a) eff" where
  "throw e = (\<lambda>s. (Inl e, s))"

definition bindE :: "('s, 'e, 'a) eff \<Rightarrow> ('a \<Rightarrow> ('s, 'e, 'b) eff) \<Rightarrow> ('s, 'e, 'b) eff" where
  "bindE m f = (\<lambda>s. case m s of (Inl e, s') \<Rightarrow> (Inl e, s') | (Inr a, s') \<Rightarrow> f a s')"

definition updE :: "('s \<Rightarrow> 's) \<Rightarrow> ('s, 'e, unit) eff" where
  "updE f = (\<lambda>s. (Inr (), f s))"

definition getE :: "('s \<Rightarrow> 'a) \<Rightarrow> ('s, 'e, 'a) eff" where
  "getE f = (\<lambda>s. (Inr (f s), s))"

lemma bindE_ret [eff_simps]: "bindE (ret a) f = f a"
  by (simp add: bindE_def ret_def)

lemma bindE_throw [eff_simps]: "bindE (throw e) f = throw e"
  by (simp add: bindE_def throw_def)

lemma bindE_upd [eff_simps]: "bindE (updE g) f s = f () (g s)"
  by (simp add: bindE_def updE_def)

lemma bindE_get [eff_simps]: "bindE (getE g) f s = f (g s) s"
  by (simp add: bindE_def getE_def)

lemma bindE_assoc: "bindE (bindE m f) g = bindE m (\<lambda>x. bindE (f x) g)"
  by (auto simp: bindE_def fun_eq_iff split: prod.splits sum.splits)

lemma bindE_Inr:
  "bindE m f s = (Inr b, s') \<longleftrightarrow> (\<exists>a s1. m s = (Inr a, s1) \<and> f a s1 = (Inr b, s'))"
  by (auto simp: bindE_def split: prod.splits sum.splits)

lemma bindE_Inl:
  "bindE m f s = (Inl e, s') \<longleftrightarrow>
     m s = (Inl e, s') \<or> (\<exists>a s1. m s = (Inr a, s1) \<and> f a s1 = (Inl e, s'))"
  by (auto simp: bindE_def split: prod.splits sum.splits)

lemma ret_eq [eff_simps]: "ret a s = (Inr a, s)"
  by (simp add: ret_def)

lemma throw_eq [eff_simps]: "throw e s = (Inl e, s)"
  by (simp add: throw_def)

lemma updE_eq [eff_simps]: "updE g s = (Inr (), g s)"
  by (simp add: updE_def)

section \<open>Text\<close>

text \<open>The white space that \<open>str.strip\<close> removes, among the code points below 256.\<close>

definition is_space :: "char \<Rightarrow> bool" where
  "is_space c = (let n = of_char c :: nat
     in 9 \<le> n \<and> n \<le> 13 \<or> 28 \<le> n \<and> n \<le> 32 \<or> n = 133 \<or> n = 160)"

definition py_strip :: "string \<Rightarrow> string" where
  "py_strip s = rev (dropWhile is_space (rev (dropWhile is_space s)))"

definition starts_with :: "string \<Rightarrow> string \<Rightarrow> bool" where
  "starts_with p s = (take (length p) s = p)"

definition ends_with :: "string \<Rightarrow> string \<Rightarrow> bool" where
  "ends_with p s = (length p \<le> length s \<and> drop (length s - length p) s = p)"

text \<open>\<open>str.lower\<close> on code points below 256: A to Z, and the capital letters from 192 to 222.\<close>

definition lower_char :: "char \<Rightarrow> char" where
  "lower_char c = (let n = of_char c :: nat
     in if 65 \<le> n \<and> n \<le> 90 \<or> 192 \<le> n \<and> n \<le> 222 \<and> n \<noteq> 215 then char_of (n + 32) else c)"

definition py_lower :: "string \<Rightarrow> string" where
  "py_lower s = map lower_char s"

definition is_digit :: "char \<Rightarrow> bool" where
  "is_digit c = (let n = of_char c :: nat in 48 \<le> n \<and> n \<le> 57)"

definition digit_char :: "nat \<Rightarrow> char" where
  "digit_char d = char_of (48 + d)"

definition digit_val :: "char \<Rightarrow> nat" where
  "digit_val c = of_char c - 48"

fun show_nat :: "nat \<Rightarrow> string" where
  "show_nat n = (if n < 10 then [digit_char n] else show_nat (n div 10) @ [digit_char (n mod 10)])"

declare show_nat.simps [simp del]

definition show_int :: "int \<Rightarrow> string" where
  "show_int i = (if i < 0 then CHR ''-'' # show_nat (nat (- i)) else show_nat (nat i))"

text \<open>\<open>int(s)\<close> on a string of decimal digits.\<close>

definition read_nat :: "string \<Rightarrow> nat" where
  "read_nat s = foldl (\<lambda>a c. 10 * a + digit_val c) 0 s"

definition hex_digit :: "nat \<Rightarrow> char" where
  "hex_digit d = (if d < 10 then char_of (48 + d) else char_of (87 + d))"

definition hex_byte :: "byte \<Rightarrow> string" where
  "hex_byte b = [hex_digit (unat b div 16), hex_digit (unat b mod 16)]"

text \<open>\<open>bytes.hex\<close> and \<open>format(n, '08x')\<close>.\<close>

definition bytes_hex :: "byte list \<Rightarrow> string" where
  "bytes_hex bs = concat (map hex_byte bs)"

definition hex8 :: "int \<Rightarrow> string" where
  "hex8 n = map (\<lambda>i. hex_digit (nat (n div 16 ^ i mod 16))) [7, 6, 5, 4, 3, 2, 1, 0]"

lemma is_digit_digit_char: "d < 10 \<Longrightarrow> is_digit (digit_char d)"
  by (simp add: is_digit_def digit_char_def)

lemma digit_val_digit_char: "d < 10 \<Longrightarrow> digit_val (digit_char d) = d"
  by (simp add: digit_val_def digit_char_def)

lemma show_nat_digits: "list_all is_digit (show_nat n)"
  by (induction n rule: show_nat.induct)
    (subst show_nat.simps, auto simp: is_digit_digit_char)

lemma show_nat_nonempty: "show_nat n \<noteq> []"
  by (subst show_nat.simps) simp

lemma read_show_nat [simp]: "read_nat (show_nat n) = n"
proof (induction n rule: show_nat.induct)
  case (1 n)
  then show ?case
    by (cases "n < 10") (subst show_nat.simps, simp add: read_nat_def digit_val_digit_char)+
qed

lemma starts_with_append [simp]: "starts_with p (p @ s)"
  by (simp add: starts_with_def)

lemma ends_with_append [simp]: "ends_with p (s @ p)"
  by (simp add: ends_with_def)

lemma ends_with_iff: "ends_with p s \<longleftrightarrow> (\<exists>r. s = r @ p)"
  by (metis append_take_drop_id ends_with_append ends_with_def)

lemma py_strip_strip [simp]: "py_strip (py_strip s) = py_strip s"
proof -
  have hd: "u = [] \<or> \<not> P (hd u) \<Longrightarrow> dropWhile P u = u" for P and u :: string by (cases u) auto
  have front: "rev (dropWhile P (rev u)) = [] \<or> \<not> P (hd (rev (dropWhile P (rev u))))"
    if "u = [] \<or> \<not> P (hd u)" for P and u :: string
  proof (cases "rev (dropWhile P (rev u)) = []")
    case False
    obtain v where "u = rev (dropWhile P (rev u)) @ v"
      by (metis rev_append rev_rev_ident takeWhile_dropWhile_id)
    with False that show ?thesis by (metis append_is_Nil_conv hd_append2)
  qed simp
  let ?a = "dropWhile is_space s" and ?b = "rev (dropWhile is_space (rev (dropWhile is_space s)))"
  have "?a = [] \<or> \<not> is_space (hd ?a)" using hd_dropWhile by blast
  then have b: "dropWhile is_space ?b = ?b" by (intro hd front)
  have "dropWhile is_space (rev ?b) = rev ?b" unfolding rev_rev_ident using hd hd_dropWhile by blast
  with b show ?thesis by (simp add: py_strip_def)
qed

section \<open>Keyed tables\<close>

text \<open>
  A table with a primary key, a dictionary or a directory is an association list in row
  order.  \<open>tbl_put\<close> is a dictionary assignment or the writing of a file (an existing entry
  keeps its place), \<open>tbl_replace\<close> is \<open>INSERT OR REPLACE\<close> (the old row goes, the new one
  is the last), \<open>tbl_insert\<close> is \<open>INSERT\<close> (\<open>None\<close> for the integrity error),
  \<open>tbl_ignore\<close> is \<open>INSERT OR IGNORE\<close>, \<open>tbl_upsert\<close> is
  \<open>INSERT \<dots> ON CONFLICT DO UPDATE\<close>, \<open>tbl_update\<close> is \<open>UPDATE \<dots> WHERE key = ?\<close> and
  \<open>tbl_remove\<close> is \<open>unlink\<close>.
\<close>

type_synonym ('k, 'v) table = "('k \<times> 'v) list"

definition tbl_has :: "('k, 'v) table \<Rightarrow> 'k \<Rightarrow> bool" where
  "tbl_has t k = list_ex (\<lambda>kv. fst kv = k) t"

definition tbl_put :: "'k \<Rightarrow> 'v \<Rightarrow> ('k, 'v) table \<Rightarrow> ('k, 'v) table" where
  "tbl_put k v t = AList.update k v t"

definition tbl_remove :: "'k \<Rightarrow> ('k, 'v) table \<Rightarrow> ('k, 'v) table" where
  "tbl_remove k t = filter (\<lambda>kv. fst kv \<noteq> k) t"

definition tbl_replace :: "'k \<Rightarrow> 'v \<Rightarrow> ('k, 'v) table \<Rightarrow> ('k, 'v) table" where
  "tbl_replace k v t = tbl_remove k t @ [(k, v)]"

definition tbl_insert :: "'k \<Rightarrow> 'v \<Rightarrow> ('k, 'v) table \<Rightarrow> ('k, 'v) table option" where
  "tbl_insert k v t = (if tbl_has t k then None else Some (t @ [(k, v)]))"

definition tbl_ignore :: "'k \<Rightarrow> 'v \<Rightarrow> ('k, 'v) table \<Rightarrow> ('k, 'v) table" where
  "tbl_ignore k v t = (if tbl_has t k then t else t @ [(k, v)])"

definition tbl_update :: "'k \<Rightarrow> ('v \<Rightarrow> 'v) \<Rightarrow> ('k, 'v) table \<Rightarrow> ('k, 'v) table" where
  "tbl_update k f t = map (\<lambda>kv. if fst kv = k then (k, f (snd kv)) else kv) t"

definition tbl_upsert :: "'k \<Rightarrow> 'v \<Rightarrow> ('v \<Rightarrow> 'v) \<Rightarrow> ('k, 'v) table \<Rightarrow> ('k, 'v) table" where
  "tbl_upsert k v f t = (if tbl_has t k then tbl_update k f t else t @ [(k, v)])"

abbreviation keys :: "('k, 'v) table \<Rightarrow> 'k list" where
  "keys t \<equiv> map fst t"

lemma tbl_has_iff: "tbl_has t k \<longleftrightarrow> k \<in> set (keys t)"
  by (auto simp: tbl_has_def list_ex_iff)

lemma tbl_has_map_of: "tbl_has t k \<longleftrightarrow> map_of t k \<noteq> None"
  by (simp add: tbl_has_iff map_of_eq_None_iff)

lemma map_of_put [table_simps]: "map_of (tbl_put k v t) = (map_of t)(k \<mapsto> v)"
  by (simp add: tbl_put_def update_conv')

lemma map_of_remove [table_simps]: "map_of (tbl_remove k t) = (map_of t)(k := None)"
  by (induction t) (auto simp: tbl_remove_def fun_eq_iff)

lemma map_of_replace [table_simps]: "map_of (tbl_replace k v t) = (map_of t)(k \<mapsto> v)"
  by (auto simp: tbl_replace_def map_of_remove map_add_def fun_eq_iff split: option.splits)

lemma map_of_snoc: "map_of (t @ [(k, v)]) x =
    (case map_of t x of None \<Rightarrow> if x = k then Some v else None | Some y \<Rightarrow> Some y)"
  by (auto simp: map_add_def split: option.splits)

lemma map_of_snoc_new:
  "map_of t k = None \<Longrightarrow> map_of (t @ [(k, v)]) = (map_of t)(k \<mapsto> v)"
  by (rule ext) (simp del: map_of_append add: map_of_snoc split: option.splits)

lemma map_of_ignore [table_simps]:
  "map_of (tbl_ignore k v t) = (if map_of t k = None then (map_of t)(k \<mapsto> v) else map_of t)"
  by (cases "map_of t k")
    (simp_all del: map_of_append add: tbl_ignore_def tbl_has_map_of map_of_snoc_new)

lemma map_of_insert:
  "tbl_insert k v t = Some t' \<Longrightarrow> map_of t k = None \<and> map_of t' = (map_of t)(k \<mapsto> v)"
  by (cases "map_of t k")
    (simp_all del: map_of_append add: tbl_insert_def tbl_has_map_of map_of_snoc_new, metis map_of_snoc_new)

lemma map_of_tbl_update [table_simps]:
  "map_of (tbl_update k f t) = (map_of t)(k := map_option f (map_of t k))"
  by (induction t) (auto simp: tbl_update_def fun_eq_iff)

lemma map_of_upsert [table_simps]:
  "map_of (tbl_upsert k v f t) =
     (map_of t)(k \<mapsto> (case map_of t k of None \<Rightarrow> v | Some old \<Rightarrow> f old))"
  by (cases "map_of t k")
    (simp_all del: map_of_append add: tbl_upsert_def tbl_has_map_of map_of_snoc_new map_of_tbl_update)

lemma keys_update [simp]: "keys (tbl_update k f t) = keys t"
  by (induction t) (auto simp: tbl_update_def)

lemma keys_remove: "keys (tbl_remove k t) = filter (\<lambda>x. x \<noteq> k) (keys t)"
  by (simp add: tbl_remove_def filter_map comp_def)

lemma distinct_remove [simp]: "distinct (keys t) \<Longrightarrow> distinct (keys (tbl_remove k t))"
  by (simp add: keys_remove)

lemma distinct_put [simp]: "distinct (keys t) \<Longrightarrow> distinct (keys (tbl_put k v t))"
  by (simp add: tbl_put_def distinct_update)

lemma distinct_replace [simp]: "distinct (keys t) \<Longrightarrow> distinct (keys (tbl_replace k v t))"
  by (simp add: tbl_replace_def keys_remove)

lemma distinct_upsert [simp]: "distinct (keys t) \<Longrightarrow> distinct (keys (tbl_upsert k v f t))"
  by (auto simp: tbl_upsert_def tbl_has_iff)

lemma distinct_ignore [simp]: "distinct (keys t) \<Longrightarrow> distinct (keys (tbl_ignore k v t))"
  by (auto simp: tbl_ignore_def tbl_has_iff)

lemma distinct_insert: "tbl_insert k v t = Some t' \<Longrightarrow> distinct (keys t) \<Longrightarrow> distinct (keys t')"
  by (auto simp: tbl_insert_def tbl_has_iff split: if_splits)

lemma set_keys_put [simp]: "set (keys (tbl_put k v t)) = insert k (set (keys t))"
  by (simp add: tbl_put_def update_conv' dom_map_of_conv_image_fst [symmetric])

lemma remove_absent [simp]: "k \<notin> set (keys t) \<Longrightarrow> tbl_remove k t = t"
  by (induction t) (auto simp: tbl_remove_def)

text \<open>The interface the clients of a table rely on: what a lookup returns after a store.\<close>

locale keyed_store =
  fixes look :: "'t \<Rightarrow> 'k \<Rightarrow> 'v option"
    and put :: "'k \<Rightarrow> 'v \<Rightarrow> 't \<Rightarrow> 't"
    and wf :: "'t \<Rightarrow> bool"
  assumes look_put: "look (put k v t) = (look t)(k \<mapsto> v)"
    and wf_put: "wf t \<Longrightarrow> wf (put k v t)"
begin

lemma look_put_all: "look (fold (\<lambda>(k, v). put k v) kvs t) = look t ++ map_of (rev kvs)"
  by (induction kvs arbitrary: t) (auto simp: look_put map_add_def fun_eq_iff split: option.splits)

lemma wf_put_all: "wf t \<Longrightarrow> wf (fold (\<lambda>(k, v). put k v) kvs t)"
  by (induction kvs arbitrary: t) (auto simp: wf_put)

lemma look_other: "k' \<noteq> k \<Longrightarrow> look (put k v t) k' = look t k'"
  by (simp add: look_put)

end

text \<open>Python dictionaries and directories, and \<open>INSERT OR REPLACE\<close>, provide it.\<close>

interpretation py_dict: keyed_store map_of tbl_put "\<lambda>t. distinct (keys t)"
  by unfold_locales (simp_all add: map_of_put)

interpretation sql_replace: keyed_store map_of tbl_replace "\<lambda>t. distinct (keys t)"
  by unfold_locales (simp_all add: map_of_replace)

text \<open>A dictionary comprehension: a later binding of a key overwrites an earlier one.\<close>

definition dict_of :: "('k \<times> 'v) list \<Rightarrow> ('k, 'v) table" where
  "dict_of kvs = fold (\<lambda>(k, v). tbl_put k v) kvs []"

lemma map_of_dict_of [table_simps]: "map_of (dict_of kvs) = map_of (rev kvs)"
  by (simp add: dict_of_def py_dict.look_put_all)

lemma distinct_dict_of [simp]: "distinct (keys (dict_of kvs))"
  unfolding dict_of_def by (rule py_dict.wf_put_all) simp

section \<open>Lists and multisets\<close>

lemma mset_concat_map_filter_partition:
  "mset (concat (map f (filter P xs))) + mset (concat (map f (filter (\<lambda>x. \<not> P x) xs))) =
     mset (concat (map f xs))"
  by (induction xs) auto

lemma map_of_filter_keys:
  "map_of (filter (\<lambda>kv. P (fst kv)) t) k = (if P k then map_of t k else None)"
  by (induction t) auto

lemma length_filter_keys:
  "length (filter P (map fst t)) + length (filter (\<lambda>kv. \<not> P (fst kv)) t) = length t"
  by (induction t) auto

lemma takeWhile_append_stop:
  "\<forall>x \<in> set xs. P x \<Longrightarrow> (ys \<noteq> [] \<Longrightarrow> \<not> P (hd ys)) \<Longrightarrow> takeWhile P (xs @ ys) = xs"
  by (cases ys) (auto simp: takeWhile_append)

end
