(* ===== verification/Crc32.thy ===== *)
theory Crc32
  imports Prelude
begin

unbundle bit_operations_syntax

text \<open>
  The CRC-32 of a WAL payload.  The gateway computes it bit by bit
  (\<open>crc32\<close> in cpp/gateway/src/wal_writer.cpp), the materializer with \<open>binascii.crc32\<close>, which
  is documented to be the same function; both sides are modelled by \<open>crc32\<close>.  The theorems
  say what the checksum is worth: a damaged run of up to four bytes always changes it.
\<close>

section \<open>Definitions\<close>

definition crc_poly :: "32 word" where
  "crc_poly = 0xEDB88320"

text \<open>One turn of the inner loop: \<open>crc = (crc >> 1U) ^ (0xEDB88320U & (-(crc & 1U)))\<close>.\<close>

definition crc_bit :: "32 word \<Rightarrow> 32 word" where
  "crc_bit crc = drop_bit 1 crc XOR (crc_poly AND (- (crc AND 1)))"

definition crc_byte :: "byte \<Rightarrow> 32 word \<Rightarrow> 32 word" where
  "crc_byte b crc = (crc_bit ^^ 8) (crc XOR ucast b)"

definition crc32 :: "byte list \<Rightarrow> 32 word" where
  "crc32 payload = NOT (fold crc_byte payload 0xFFFFFFFF)"

section \<open>The bit step is linear and injective\<close>

lemma and_one_cases: "(c :: 32 word) AND 1 = (if bit c 0 then 1 else 0)"
  by (simp add: and_one_eq bit_0 mod_2_eq_odd)

lemma crc_bit_if: "crc_bit c = drop_bit 1 c XOR (if bit c 0 then crc_poly else 0)"
  by (simp add: crc_bit_def and_one_cases del: bit_0)

lemma crc_bit_xor: "crc_bit (a XOR b) = crc_bit a XOR crc_bit b"
proof (rule bit_word_eqI)
  fix n
  assume "n < LENGTH(32)"
  show "bit (crc_bit (a XOR b)) n = bit (crc_bit a XOR crc_bit b) n"
    by (cases "bit a 0"; cases "bit b 0") (simp_all add: crc_bit_if bit_simps del: bit_0, blast+)
qed

lemma crc_bits_xor: "(crc_bit ^^ n) (a XOR b) = (crc_bit ^^ n) a XOR (crc_bit ^^ n) b"
  by (induction n) (simp_all add: crc_bit_xor)

lemma bit_crc_poly_31: "bit crc_poly 31"
  by (simp add: crc_poly_def)

lemma bit_beyond: "32 \<le> n \<Longrightarrow> \<not> bit (c :: 32 word) n"
  using bit_imp_le_length [of c n] by auto

lemma crc_bit_top: "bit (crc_bit c) 31 = bit c 0"
  by (cases "bit c 0")
    (simp_all add: crc_bit_if bit_simps bit_crc_poly_31 bit_beyond del: bit_0)

lemma xor_right_inj: "(a :: 32 word) XOR p = b XOR p \<Longrightarrow> a = b"
  by (drule arg_cong [where f = "\<lambda>w. w XOR p"]) (simp add: xor.assoc)

lemma crc_bit_inj:
  assumes eq: "crc_bit c = crc_bit d"
  shows "c = d"
proof -
  have low: "bit c 0 = bit d 0"
    using arg_cong [OF eq, of "\<lambda>w. bit w 31"] by (simp only: crc_bit_top)
  have dropped: "drop_bit 1 c = drop_bit 1 d"
    by (rule xor_right_inj [of _ "if bit d 0 then crc_poly else 0"])
      (use eq low in \<open>simp only: crc_bit_if\<close>)
  have high: "bit c (Suc n) = bit d (Suc n)" for n
    using arg_cong [OF dropped, of "\<lambda>w. bit w n"] by (simp add: bit_simps)
  show "c = d"
  proof (rule bit_eqI)
    fix n
    show "bit c n = bit d n" using low high by (cases n) (simp_all del: bit_0)
  qed
qed

lemma crc_bits_inj: "(crc_bit ^^ n) c = (crc_bit ^^ n) d \<Longrightarrow> c = d"
  by (induction n) (auto dest: crc_bit_inj)

lemma crc_bit_push:
  assumes "\<not> bit c 31"
  shows "crc_bit (push_bit 1 c) = c"
proof (rule bit_word_eqI)
  fix n
  assume "n < LENGTH(32)"
  define p where "p = push_bit 1 c"
  have p: "bit p m \<longleftrightarrow> 1 \<le> m \<and> m < 32 \<and> bit c (m - 1)" for m
    unfolding p_def by (simp only: bit_push_bit_iff possible_bit_word) auto
  show "bit (crc_bit (push_bit 1 c)) n = bit c n"
    unfolding p_def [symmetric] using assms \<open>n < LENGTH(32)\<close>
    by (cases "n = 31") (simp_all add: crc_bit_if bit_simps p del: bit_0)
qed

lemma crc_bits_push: "(\<And>m. 32 \<le> m + n \<Longrightarrow> \<not> bit c m) \<Longrightarrow> (crc_bit ^^ n) (push_bit n c) = c"
proof (induction n)
  case 0
  then show ?case by simp
next
  case (Suc n)
  have step: "crc_bit (push_bit 1 (push_bit n c)) = push_bit n c"
  proof (rule crc_bit_push)
    show "\<not> bit (push_bit n c) 31"
      using Suc.prems [of "31 - n"] by (auto simp: bit_push_bit_iff)
  qed
  have "push_bit (Suc n) c = push_bit 1 (push_bit n c)"
    by (simp only: push_bit_push_bit) simp
  then have "(crc_bit ^^ Suc n) (push_bit (Suc n) c) = (crc_bit ^^ n) (push_bit n c)"
    by (simp only: funpow_Suc_right comp_apply step)
  also have "\<dots> = c" using Suc.prems by (intro Suc.IH) simp
  finally show ?case .
qed

section \<open>Checksum registers\<close>

text \<open>
  A register that every input unit moves injectively: two runs that differ before a common
  tail still differ after it.
\<close>

locale checksum_register =
  fixes step :: "'b \<Rightarrow> 's \<Rightarrow> 's"
    and out :: "'s \<Rightarrow> 'c"
  assumes step_inj: "step b s = step b s' \<Longrightarrow> s = s'"
    and out_inj: "out s = out s' \<Longrightarrow> s = s'"
begin

lemma fold_inj: "fold step xs s = fold step xs s' \<Longrightarrow> s = s'"
  by (induction xs arbitrary: s s') (auto dest: step_inj)

lemma common_tail:
  "out (fold step (xs @ zs) s) = out (fold step (ys @ zs) s) \<Longrightarrow> fold step xs s = fold step ys s"
  by (auto dest!: out_inj fold_inj)

end

lemma crc_byte_inj: "crc_byte b c = crc_byte b d \<Longrightarrow> c = d"
  unfolding crc_byte_def by (drule crc_bits_inj) (rule xor_right_inj)

lemma not_word_inj: "NOT (a :: 32 word) = NOT b \<Longrightarrow> a = b"
  by simp

interpretation crc: checksum_register crc_byte "NOT :: 32 word \<Rightarrow> 32 word"
  by unfold_locales (auto dest: crc_byte_inj)

section \<open>Bursts of up to four bytes\<close>

text \<open>Up to four bytes enter the register as one little-endian word.\<close>

fun burst_word :: "byte list \<Rightarrow> 32 word" where
  "burst_word [] = 0"
| "burst_word (b # bs) = ucast b XOR push_bit 8 (burst_word bs)"

lemma bit_burst_word:
  "bit (burst_word bs) m \<longleftrightarrow> m < 32 \<and> m div 8 < length bs \<and> bit (bs ! (m div 8)) (m mod 8)"
proof (induction bs arbitrary: m)
  case Nil
  then show ?case by simp
next
  case (Cons b bs)
  have "bit (ucast b :: 32 word) m \<longleftrightarrow> m < 8 \<and> bit b m"
    using bit_imp_le_length [of b m] by (auto simp: bit_ucast_iff)
  moreover have "bit (push_bit 8 (burst_word bs)) m \<longleftrightarrow>
      8 \<le> m \<and> m < 32 \<and> bit (burst_word bs) (m - 8)"
    by (auto simp: bit_push_bit_iff)
  moreover have "m div 8 = Suc ((m - 8) div 8)" "m mod 8 = (m - 8) mod 8" if "8 \<le> m"
    using that by (simp_all add: le_div_geq le_mod_geq)
  ultimately show ?case
    by (cases "m < 8") (auto simp: bit_xor_iff Cons.IH)
qed

lemma burst_word_inj:
  assumes "burst_word bs = burst_word bs'" "length bs = length bs'" "length bs \<le> 4"
  shows "bs = bs'"
proof (rule nth_equalityI)
  show "length bs = length bs'" by (rule assms)
next
  fix i
  assume i: "i < length bs"
  show "bs ! i = bs' ! i"
  proof (rule bit_word_eqI)
    fix n
    assume "n < LENGTH(8)"
    with i assms have "8 * i + n < 32" "(8 * i + n) div 8 = i" "(8 * i + n) mod 8 = n"
      by simp_all
    with i assms show "bit (bs ! i) n = bit (bs' ! i) n"
      using bit_burst_word [of bs "8 * i + n"] bit_burst_word [of bs' "8 * i + n"] by simp
  qed
qed

lemma fold_burst:
  "length bs \<le> 4 \<Longrightarrow> fold crc_byte bs c = (crc_bit ^^ (8 * length bs)) (c XOR burst_word bs)"
proof (induction bs arbitrary: c)
  case Nil
  then show ?case by simp
next
  case (Cons b bs)
  let ?w = "burst_word bs"
  have shift: "(crc_bit ^^ 8) (push_bit 8 ?w) = ?w"
    using Cons.prems by (intro crc_bits_push) (auto simp: bit_burst_word)
  have "fold crc_byte (b # bs) c = (crc_bit ^^ (8 * length bs)) (crc_byte b c XOR ?w)"
    using Cons.prems by (simp add: Cons.IH)
  also have "crc_byte b c XOR ?w = (crc_bit ^^ 8) ((c XOR ucast b) XOR push_bit 8 ?w)"
    by (simp only: crc_byte_def crc_bits_xor [of 8 "c XOR ucast b"] shift)
  finally have "fold crc_byte (b # bs) c =
      (crc_bit ^^ (8 * length bs + 8)) ((c XOR ucast b) XOR push_bit 8 ?w)"
    by (simp only: funpow_add comp_apply)
  moreover have "8 * length (b # bs) = 8 * length bs + 8" by simp
  ultimately show ?case by (simp only: burst_word.simps xor.assoc)
qed

lemma crc32_burst_detected:
  assumes "length damaged = length original" "length original \<le> 4" "damaged \<noteq> original"
  shows "crc32 (before @ damaged @ after) \<noteq> crc32 (before @ original @ after)"
proof
  assume "crc32 (before @ damaged @ after) = crc32 (before @ original @ after)"
  then have "fold crc_byte (before @ damaged) 0xFFFFFFFF = fold crc_byte (before @ original) 0xFFFFFFFF"
    using crc.common_tail [of "before @ damaged" after _ "before @ original"]
    by (simp add: crc32_def)
  then have "burst_word damaged = burst_word original"
    using assms by (auto simp: fold_burst dest!: crc_bits_inj
        intro: xor_right_inj simp flip: xor.commute)
  with assms show False by (auto dest: burst_word_inj)
qed

end
