(* ===== verification/Wal_Format.thy ===== *)
theory Wal_Format
  imports Crc32
begin

text \<open>
  The WAL record format: the bytes \<open>WalWriter::append\<close> of the gateway writes
  (cpp/gateway/src/wal_writer.cpp) and the generator \<open>_wal_records_from\<close> of
  backend/app/materializer.py that reads them back.  A record is the payload length and the
  CRC-32 of the payload, both little-endian 32-bit, followed by the payload.
\<close>

section \<open>The writer's record\<close>

text \<open>\<open>write_little_endian\<close>, for one of the two words of the header.\<close>

definition le32 :: "32 word \<Rightarrow> byte list" where
  "le32 w = map (\<lambda>i. ucast (drop_bit (8 * i) w)) [0, 1, 2, 3]"

definition encode_record :: "byte list \<Rightarrow> byte list" where
  "encode_record payload =
     le32 (word_of_nat (length payload)) @ le32 (crc32 payload) @ payload"

section \<open>The reader\<close>

text \<open>\<open>class WalCorruptionError(ValueError)\<close>: source file, byte offset, reason.\<close>

datatype wal_corruption =
  WalCorruptionError (wc_source_file: string) (wc_offset: nat) (wc_reason: string)

definition wal_corruption_message :: "wal_corruption \<Rightarrow> string" where
  "wal_corruption_message e = ''WAL corruption in '' @ wc_source_file e @ '' at byte offset ''
     @ show_nat (wc_offset e) @ '': '' @ wc_reason e"

text \<open>One field of \<open>struct.Struct("<II")\<close>.\<close>

fun unpack_u32 :: "byte list \<Rightarrow> int" where
  "unpack_u32 [] = 0"
| "unpack_u32 (b # bs) = uint b + 256 * unpack_u32 bs"

definition record_header_size :: nat where
  "record_header_size = 8"

definition reason_header :: "nat \<Rightarrow> string" where
  "reason_header got = ''truncated WAL header: expected '' @ show_nat record_header_size
     @ '' bytes, got '' @ show_nat got"

definition reason_zero :: string where
  "reason_zero = ''invalid zero-length record''"

definition reason_oversized :: "int \<Rightarrow> int \<Rightarrow> string" where
  "reason_oversized len limit = ''oversized WAL record: length '' @ show_int len
     @ '' exceeds safety limit '' @ show_int limit"

definition reason_payload :: "int \<Rightarrow> nat \<Rightarrow> string" where
  "reason_payload len got = ''truncated WAL payload: expected '' @ show_int len
     @ '' bytes, got '' @ show_nat got"

definition reason_crc :: "int \<Rightarrow> int \<Rightarrow> string" where
  "reason_crc expected actual = ''WAL checksum mismatch: expected 0x'' @ hex8 expected
     @ '', got 0x'' @ hex8 actual"

text \<open>
  One turn of the \<open>while True\<close> loop on the bytes from the current position on: the clean end
  of the file, a reason to raise, or a payload.
\<close>

datatype frame = Frame_Eof | Frame_Bad string | Frame_Ok "byte list"

definition read_record :: "int \<Rightarrow> byte list \<Rightarrow> frame" where
  "read_record max_record_bytes bytes =
    (let header = take record_header_size bytes in
     if header = [] then Frame_Eof
     else if length header \<noteq> record_header_size then Frame_Bad (reason_header (length header))
     else let len = unpack_u32 (take 4 header); expected_crc = unpack_u32 (drop 4 header) in
     if len = 0 then Frame_Bad reason_zero
     else if len > max_record_bytes then Frame_Bad (reason_oversized len max_record_bytes)
     else let payload = take (nat len) (drop record_header_size bytes) in
     if int (length payload) \<noteq> len then Frame_Bad (reason_payload len (length payload))
     else let actual_crc = uint (crc32 payload) in
     if actual_crc \<noteq> expected_crc then Frame_Bad (reason_crc expected_crc actual_crc)
     else Frame_Ok payload)"

type_synonym wal_record = "nat \<times> nat \<times> byte list"

text \<open>
  The loop.  The generator yields (record start, record end, payload) and then returns or
  raises; the model returns the list of what it yields and the exception, if one ends it.
\<close>

function wal_loop ::
  "string \<Rightarrow> int \<Rightarrow> nat \<Rightarrow> byte list \<Rightarrow> wal_record list \<times> wal_corruption option" where
  "wal_loop path_name max_record_bytes record_start bytes =
    (case read_record max_record_bytes bytes of
       Frame_Eof \<Rightarrow> ([], None)
     | Frame_Bad reason \<Rightarrow> ([], Some (WalCorruptionError path_name record_start reason))
     | Frame_Ok payload \<Rightarrow>
         (let record_end = record_start + record_header_size + length payload;
              (records, stop) = wal_loop path_name max_record_bytes record_end
                (drop (record_header_size + length payload) bytes)
          in ((record_start, record_end, payload) # records, stop)))"
  by pat_completeness auto
termination
  by (relation "measure (\<lambda>(p, m, k, bs). length bs)")
    (auto simp: read_record_def Let_def record_header_size_def split: if_splits)

declare wal_loop.simps [simp del]

definition wal_records_from ::
  "string \<Rightarrow> byte list \<Rightarrow> nat \<Rightarrow> int \<Rightarrow> wal_record list \<times> wal_corruption option" where
  "wal_records_from path_name content start_offset max_record_bytes =
     wal_loop path_name max_record_bytes start_offset (drop start_offset content)"

section \<open>The header round trip\<close>

lemma unat_byte_of_word:
  "unat (ucast (drop_bit (8 * i) (w :: 32 word)) :: byte) = unat w div 256 ^ i mod 256"
proof -
  have "unat (ucast (drop_bit (8 * i) w) :: byte) = unat (drop_bit (8 * i) w) mod 256"
    by (simp add: unsigned_ucast_eq take_bit_eq_mod)
  also have "unat (drop_bit (8 * i) w) = unat w div 2 ^ (8 * i)"
    by (simp only: unat_drop_bit_eq) (simp only: drop_bit_eq_div)
  also have "(2 :: nat) ^ (8 * i) = 256 ^ i"
    by (simp add: power_mult)
  finally show ?thesis .
qed

lemma base256: "n < 2 ^ 32 \<Longrightarrow> n mod 256 + 256 * (n div 256 mod 256
    + 256 * (n div 65536 mod 256 + 256 * (n div 16777216 mod 256))) = (n :: nat)"
proof -
  assume n: "n < 2 ^ 32"
  have "n div 65536 = n div 256 div 256" "n div 16777216 = n div 256 div 256 div 256"
    by (simp_all add: div_mult2_eq [symmetric])
  moreover have "n div 256 div 256 div 256 mod 256 = n div 256 div 256 div 256"
    using n by (simp add: div_mult2_eq [symmetric])
  ultimately show ?thesis by (metis mod_mult_div_eq)
qed

lemma word_of_nat_unat: "word_of_nat (unat (w :: 32 word)) = w"
  by simp

lemma length_le32 [simp]: "length (le32 w) = 4"
  by (simp add: le32_def)

text \<open>The same number as a natural number, for the arithmetic.\<close>

fun unpack_nat :: "byte list \<Rightarrow> nat" where
  "unpack_nat [] = 0"
| "unpack_nat (b # bs) = unat b + 256 * unpack_nat bs"

lemma unpack_u32_nat: "unpack_u32 bs = int (unpack_nat bs)"
  by (induction bs) simp_all

lemma unpack_nat_le32: "unpack_nat (le32 w) = unat w"
proof -
  have "unpack_nat (le32 w) = unat w mod 256 + 256 * (unat w div 256 mod 256
      + 256 * (unat w div 65536 mod 256 + 256 * (unat w div 16777216 mod 256)))"
    using unat_byte_of_word [of 0 w] unat_byte_of_word [of 1 w] unat_byte_of_word [of 2 w]
      unat_byte_of_word [of 3 w]
    by (simp add: le32_def)
  also have "\<dots> = unat w" by (rule base256) (use unsigned_less [of w, where ?'a = nat] in simp)
  finally show ?thesis .
qed

lemma unpack_le32 [simp]: "unpack_u32 (le32 w) = uint w"
  by (simp add: unpack_u32_nat unpack_nat_le32)

lemma unpack_nat_inj:
  "length bs = length bs' \<Longrightarrow> unpack_nat bs = unpack_nat bs' \<Longrightarrow> bs = bs'"
proof (induction bs bs' rule: list_induct2)
  case Nil
  then show ?case by simp
next
  case (Cons b bs b' bs')
  have "unat b = unat b'"
    using arg_cong [OF Cons.prems, of "\<lambda>n. n mod 256"]
      unsigned_less [of b, where ?'a = nat] unsigned_less [of b', where ?'a = nat] by simp
  with Cons show ?case by (simp add: word_unat_eq_iff)
qed

lemma unpack_nat_bound: "unpack_nat bs < 256 ^ length bs"
proof (induction bs)
  case (Cons b bs)
  then show ?case using unsigned_less [of b, where ?'a = nat] by simp
qed simp

lemma le32_unpack: "length bs = 4 \<Longrightarrow> le32 (word_of_int (unpack_u32 bs)) = bs"
  using unpack_nat_bound [of bs]
  by (intro unpack_nat_inj) (simp_all add: unpack_u32_nat unpack_nat_le32 unat_of_nat)

section \<open>Framing: a prefix-free code and its stream\<close>

text \<open>
  What the reader relies on: a decoder of one frame that inverts the writer's encoder in
  front of any continuation, and accepts nothing else.
\<close>

locale framing =
  fixes enc :: "'p \<Rightarrow> 'b list"
    and dec :: "'b list \<Rightarrow> 'p option"
    and good :: "'p \<Rightarrow> bool"
  assumes dec_enc: "good p \<Longrightarrow> dec (enc p @ rest) = Some p"
    and dec_sound: "dec bs = Some p \<Longrightarrow> good p \<and> (\<exists>rest. bs = enc p @ rest)"
    and enc_nonempty: "good p \<Longrightarrow> enc p \<noteq> []"
begin

lemma dec_Some_iff: "dec bs = Some p \<longleftrightarrow> good p \<and> (\<exists>rest. bs = enc p @ rest)"
  using dec_enc dec_sound by blast

lemma prefix_free: "good p \<Longrightarrow> good q \<Longrightarrow> enc p @ xs = enc q @ ys \<Longrightarrow> p = q \<and> xs = ys"
  by (metis append_same_eq dec_enc option.inject same_append_eq)

lemma stream_unique:
  "list_all good ps \<Longrightarrow> list_all good qs \<Longrightarrow>
     concat (map enc ps) = concat (map enc qs) \<Longrightarrow> ps = qs"
proof (induction ps arbitrary: qs)
  case Nil
  then show ?case by (cases qs) (auto dest: enc_nonempty)
next
  case (Cons p ps)
  then obtain q qs' where qs: "qs = q # qs'"
    by (cases qs) (auto dest: enc_nonempty)
  with Cons.prems have "p = q \<and> concat (map enc ps) = concat (map enc qs')"
    by (intro prefix_free) auto
  with Cons qs show ?case by auto
qed

end

text \<open>The payloads the reader accepts under a record limit.\<close>

definition good_payload :: "int \<Rightarrow> byte list \<Rightarrow> bool" where
  "good_payload limit payload \<longleftrightarrow>
     payload \<noteq> [] \<and> length payload < 2 ^ 32 \<and> int (length payload) \<le> limit"

definition decode_record :: "int \<Rightarrow> byte list \<Rightarrow> byte list option" where
  "decode_record limit bytes =
     (case read_record limit bytes of Frame_Ok payload \<Rightarrow> Some payload | _ \<Rightarrow> None)"

lemma length_encode_record [simp]:
  "length (encode_record payload) = record_header_size + length payload"
  by (simp add: encode_record_def record_header_size_def)

lemma read_record_parts:
  assumes "length sz = 4" "length crc = 4" "unpack_u32 sz = int (length payload)"
    and "unpack_u32 crc = uint (crc32 payload)" "payload \<noteq> []" "int (length payload) \<le> limit"
  shows "read_record limit (sz @ crc @ payload @ rest) = Frame_Ok payload"
  using assms by (auto simp: read_record_def record_header_size_def Let_def)

lemma unpack_length:
  "good_payload limit p \<Longrightarrow> uint (word_of_nat (length p) :: 32 word) = int (length p)"
  by (simp add: good_payload_def unsigned_of_nat take_bit_eq_mod)

lemma read_encode_record:
  "good_payload limit payload \<Longrightarrow> read_record limit (encode_record payload @ rest) = Frame_Ok payload"
  using read_record_parts [of "le32 (word_of_nat (length payload))" "le32 (crc32 payload)"]
  by (simp add: encode_record_def unpack_length) (simp add: good_payload_def)

lemma read_record_sound:
  assumes "read_record limit bytes = Frame_Ok payload"
  shows "good_payload limit payload \<and>
    bytes = encode_record payload @ drop (record_header_size + length payload) bytes"
proof -
  let ?h = "take record_header_size bytes"
  let ?len = "unpack_u32 (take 4 ?h)"
  let ?body = "take (nat ?len) (drop record_header_size bytes)"
  have *: "length ?h = record_header_size \<and> 0 < ?len \<and> ?len \<le> limit \<and> int (length ?body) = ?len \<and>
      uint (crc32 ?body) = unpack_u32 (drop 4 ?h) \<and> payload = ?body"
    using assms unpack_u32_nat [of "take 4 ?h"]
    unfolding read_record_def Let_def by (simp split: if_splits)
  then have len: "length ?h = record_header_size"
    and l: "?len = int (length payload)"
    and c: "unpack_u32 (drop 4 ?h) = uint (crc32 payload)"
    and pos: "payload \<noteq> []" and lim: "int (length payload) \<le> limit"
    by auto
  have pl: "payload = take (length payload) (drop record_header_size bytes)"
    using * l by (metis nat_int)
  from len have parts: "length (take 4 ?h) = 4" "length (drop 4 ?h) = 4"
    by (simp_all add: record_header_size_def)
  have "length payload < 2 ^ 32"
    using unpack_nat_bound [of "take 4 ?h"] l parts by (simp add: unpack_u32_nat)
  moreover have "take 4 ?h = le32 (word_of_nat (length payload))"
    using le32_unpack [OF parts(1)] l by simp
  moreover have "drop 4 ?h = le32 (crc32 payload)"
    using le32_unpack [OF parts(2)] c by simp
  moreover have "?h = take 4 ?h @ drop 4 ?h" by (rule append_take_drop_id [symmetric])
  moreover have "bytes = ?h @ payload @ drop (record_header_size + length payload) bytes"
    by (metis append_take_drop_id drop_drop add.commute pl)
  ultimately have "bytes = encode_record payload @ drop (record_header_size + length payload) bytes"
    "length payload < 2 ^ 32"
    unfolding encode_record_def by (metis append.assoc)+
  with pos lim show ?thesis by (simp add: good_payload_def)
qed

interpretation wal: framing encode_record "decode_record limit" "good_payload limit" for limit
proof unfold_locales
  fix p rest
  assume "good_payload limit p"
  then show "decode_record limit (encode_record p @ rest) = Some p"
    by (simp add: decode_record_def read_encode_record)
next
  fix bs p
  assume "decode_record limit bs = Some p"
  then show "good_payload limit p \<and> (\<exists>rest. bs = encode_record p @ rest)"
    by (auto simp: decode_record_def split: frame.splits dest: read_record_sound)
next
  fix p
  assume "good_payload limit p"
  then show "encode_record p \<noteq> []"
    by (simp add: encode_record_def le32_def)
qed

section \<open>What the reader yields\<close>

text \<open>The bytes of a run of records, and where the reader sees each record when it starts at \<open>k\<close>.\<close>

definition encode_records :: "byte list list \<Rightarrow> byte list" where
  "encode_records payloads = concat (map encode_record payloads)"

fun layout :: "nat \<Rightarrow> byte list list \<Rightarrow> wal_record list" where
  "layout k [] = []"
| "layout k (p # ps) =
     (k, k + record_header_size + length p, p) # layout (k + record_header_size + length p) ps"

abbreviation rec_start :: "wal_record \<Rightarrow> nat" where "rec_start r \<equiv> fst r"
abbreviation rec_end :: "wal_record \<Rightarrow> nat" where "rec_end r \<equiv> fst (snd r)"
abbreviation rec_payload :: "wal_record \<Rightarrow> byte list" where "rec_payload r \<equiv> snd (snd r)"

lemma encode_records_simps [simp]:
  "encode_records [] = []"
  "encode_records (p # ps) = encode_record p @ encode_records ps"
  "encode_records (ps @ qs) = encode_records ps @ encode_records qs"
  by (simp_all add: encode_records_def)

lemma layout_append:
  "layout k (ps @ qs) = layout k ps @ layout (k + length (encode_records ps)) qs"
  by (induction ps arbitrary: k) (simp_all add: add.assoc)

lemma map_payload_layout [simp]: "map rec_payload (layout k ps) = ps"
  by (induction ps arbitrary: k) simp_all

lemma length_layout [simp]: "length (layout k ps) = length ps"
  by (induction ps arbitrary: k) simp_all

lemma read_record_Nil [simp]: "read_record limit [] = Frame_Eof"
  by (simp add: read_record_def)

lemma read_record_Eof_iff: "read_record limit bytes = Frame_Eof \<longleftrightarrow> bytes = []"
  by (auto simp: read_record_def record_header_size_def Let_def split: if_splits)

lemma read_record_framed:
  assumes "length sz = 4" "length crc = 4"
  shows "read_record limit (sz @ crc @ body) =
    (let len = unpack_u32 sz; expected = unpack_u32 crc; payload = take (nat len) body;
         actual = uint (crc32 payload) in
     if len = 0 then Frame_Bad reason_zero
     else if len > limit then Frame_Bad (reason_oversized len limit)
     else if int (length payload) \<noteq> len then Frame_Bad (reason_payload len (length payload))
     else if actual \<noteq> expected then Frame_Bad (reason_crc expected actual)
     else Frame_Ok payload)"
  using assms by (cases sz) (simp_all add: read_record_def record_header_size_def Let_def)

lemma read_record_short:
  "bytes \<noteq> [] \<Longrightarrow> length bytes < record_header_size \<Longrightarrow>
     read_record limit bytes = Frame_Bad (reason_header (length bytes))"
  by (simp add: read_record_def)

lemma read_record_damaged:
  assumes "good_payload limit q" "length w = length q" "crc32 w \<noteq> crc32 q"
  shows "read_record limit (le32 (word_of_nat (length q)) @ le32 (crc32 q) @ w @ rest) =
    Frame_Bad (reason_crc (uint (crc32 q)) (uint (crc32 w)))"
proof -
  have "uint (crc32 w) \<noteq> uint (crc32 q)" using assms(3) by (metis word_uint_eq_iff)
  with assms(1,2) show ?thesis
    by (subst read_record_framed)
      (simp_all add: unpack_length [OF assms(1)] Let_def, simp_all add: good_payload_def)
qed

text \<open>The outcome of the loop at the first frame that is not a record.\<close>

definition stop_at :: "string \<Rightarrow> int \<Rightarrow> nat \<Rightarrow> byte list \<Rightarrow> wal_corruption option" where
  "stop_at path_name limit k rest =
     (case read_record limit rest of
        Frame_Bad reason \<Rightarrow> Some (WalCorruptionError path_name k reason) | _ \<Rightarrow> None)"

lemma wal_loop_records:
  "list_all (good_payload limit) ps \<Longrightarrow>
   wal_loop nm limit k (encode_records ps @ rest) =
     (let (rs, stop) = wal_loop nm limit (k + length (encode_records ps)) rest
      in (layout k ps @ rs, stop))"
proof (induction ps arbitrary: k)
  case Nil
  then show ?case by simp
next
  case (Cons p ps)
  then have good: "good_payload limit p" by simp
  show ?case
    by (subst wal_loop.simps) (use Cons in \<open>simp add: read_encode_record [OF good] Let_def
      case_prod_unfold add.assoc\<close>)
qed

lemma wal_loop_stop:
  "\<not> (\<exists>p. read_record limit rest = Frame_Ok p) \<Longrightarrow>
     wal_loop nm limit k rest = ([], stop_at nm limit k rest)"
  by (subst wal_loop.simps) (simp add: stop_at_def split: frame.splits)

lemma wal_loop_encoded:
  assumes "list_all (good_payload limit) ps" "\<not> (\<exists>p. read_record limit rest = Frame_Ok p)"
  shows "wal_loop nm limit k (encode_records ps @ rest) =
    (layout k ps, stop_at nm limit (k + length (encode_records ps)) rest)"
  using assms by (simp add: wal_loop_records wal_loop_stop)

lemma wal_loop_decompose:
  "\<exists>ps rest. bytes = encode_records ps @ rest \<and> list_all (good_payload limit) ps \<and>
     \<not> (\<exists>p. read_record limit rest = Frame_Ok p) \<and>
     wal_loop nm limit k bytes = (layout k ps, stop_at nm limit (k + length (encode_records ps)) rest)"
proof (induction bytes arbitrary: k rule: length_induct)
  case (1 bytes)
  show ?case
  proof (cases "\<exists>p. read_record limit bytes = Frame_Ok p")
    case False
    then show ?thesis
      by (intro exI [of _ "[]"] exI [of _ bytes]) (auto simp: wal_loop_stop)
  next
    case True
    then obtain p where ok: "read_record limit bytes = Frame_Ok p" by blast
    define rest' where "rest' = drop (record_header_size + length p) bytes"
    from read_record_sound [OF ok] have bytes: "bytes = encode_record p @ rest'"
      and good: "good_payload limit p" by (auto simp: rest'_def)
    then have "length rest' < length bytes" by (simp add: record_header_size_def)
    with 1 obtain ps rest where IH: "rest' = encode_records ps @ rest"
      "list_all (good_payload limit) ps" "\<not> (\<exists>p. read_record limit rest = Frame_Ok p)"
      by blast
    then have "bytes = encode_records (p # ps) @ rest" "list_all (good_payload limit) (p # ps)"
      using bytes good by simp_all
    with IH(3) wal_loop_encoded show ?thesis by blast
  qed
qed

lemma wal_loop_elim:
  assumes "wal_loop nm limit k bytes = (rs, stop)"
  obtains ps rest where "bytes = encode_records ps @ rest" "list_all (good_payload limit) ps"
    "\<not> (\<exists>p. read_record limit rest = Frame_Ok p)" "rs = layout k ps"
    "stop = stop_at nm limit (k + length (encode_records ps)) rest"
  using wal_loop_decompose [of bytes limit nm k] assms by auto

lemma stop_at_None_iff:
  "\<not> (\<exists>p. read_record limit rest = Frame_Ok p) \<Longrightarrow> stop_at nm limit k rest = None \<longleftrightarrow> rest = []"
  by (auto simp: stop_at_def read_record_Eof_iff split: frame.splits)

lemma stop_at_Some:
  "stop_at nm limit k rest = Some e \<Longrightarrow> wc_source_file e = nm \<and> wc_offset e = k \<and>
     read_record limit rest = Frame_Bad (wc_reason e)"
  by (auto simp: stop_at_def split: frame.splits)

section \<open>Properties\<close>

text \<open>
  C17: Reading what the writer wrote.  From any record boundary the reader yields exactly the
  payloads appended after it, in order and at their offsets, and then ends cleanly; what lies
  before the boundary does not matter.
\<close>

theorem wal_roundtrip:
  assumes "list_all (good_payload limit) new"
  shows "wal_records_from nm (old @ encode_records new) (length old) limit = (layout (length old) new, None)"
  using wal_loop_encoded [OF assms, of "[]"] by (simp add: wal_records_from_def stop_at_def)

theorem wal_roundtrip_witness:
  "wal_records_from ''a.wal'' (encode_record [4] @ encode_records [[1], [2, 3]]) 9 100 =
     ([(9, 18, [1]), (18, 28, [2, 3])], None)"
  using wal_roundtrip [of 100 "[[1], [2, 3]]" "''a.wal''" "encode_record [4]"]
  by (simp add: good_payload_def record_header_size_def)

text \<open>
  C18: The reader accepts nothing but writer's records.  The records it yields tile the file
  from the start offset without gaps, re-encode to the very bytes read, and each payload is
  non-empty and within the record limit.
\<close>

theorem wal_reader_sound:
  assumes "wal_records_from nm content start limit = (rs, stop)"
  shows "rs = layout start (map rec_payload rs) \<and>
    list_all (good_payload limit) (map rec_payload rs) \<and>
    (\<exists>rest. drop start content = encode_records (map rec_payload rs) @ rest \<and> (stop = None \<longrightarrow> rest = []))"
proof -
  from assms obtain ps rest where "drop start content = encode_records ps @ rest"
    "list_all (good_payload limit) ps" "\<not> (\<exists>p. read_record limit rest = Frame_Ok p)"
    "rs = layout start ps" "stop = stop_at nm limit (start + length (encode_records ps)) rest"
    unfolding wal_records_from_def by (rule wal_loop_elim)
  then show ?thesis by (auto simp: stop_at_None_iff)
qed

theorem wal_reader_sound_witness:
  "\<exists>rest. drop 0 (encode_record [1] @ [9]) = encode_records [[1]] @ rest"
proof -
  have "wal_records_from ''a.wal'' (encode_record [1] @ [9]) 0 100 =
      ([(0, 9, [1])], Some (WalCorruptionError ''a.wal'' 9 (reason_header 1)))"
    by code_simp
  from wal_reader_sound [OF this] show ?thesis by auto
qed

text \<open>
  C24: A record that is cut short.  If the file ends inside a record (a crash of the gateway,
  or a read of the active segment while a record is being written), all records before it are
  yielded and the corruption is reported at the first byte of the cut record, as a truncated
  header or a truncated payload.
\<close>

theorem wal_torn_record:
  assumes "list_all (good_payload limit) ps" "good_payload limit q"
    and "0 < j" "j < length (encode_record q)"
  shows "wal_records_from nm (encode_records ps @ take j (encode_record q)) 0 limit =
    (layout 0 ps, Some (WalCorruptionError nm (length (encode_records ps))
       (if j < record_header_size then reason_header j
        else reason_payload (int (length q)) (j - record_header_size))))"
proof -
  let ?rest = "take j (encode_record q)"
  have "read_record limit ?rest = Frame_Bad (if j < record_header_size then reason_header j
        else reason_payload (int (length q)) (j - record_header_size))"
  proof (cases "j < record_header_size")
    case True
    moreover have "length ?rest = j" using assms(4) by simp
    ultimately show ?thesis using True assms(3) read_record_short [of ?rest limit] by fastforce
  next
    case False
    then have "?rest = le32 (word_of_nat (length q)) @ le32 (crc32 q) @ take (j - record_header_size) q"
      by (simp add: encode_record_def record_header_size_def)
    then have "read_record limit ?rest =
        read_record limit (le32 (word_of_nat (length q)) @ le32 (crc32 q) @ take (j - record_header_size) q)"
      by simp
    also have "\<dots> = Frame_Bad (reason_payload (int (length q)) (j - record_header_size))"
      using assms False by (subst read_record_framed)
        (simp_all add: unpack_length [OF assms(2)] Let_def, auto simp: good_payload_def record_header_size_def)
    finally show ?thesis using False by simp
  qed
  then show ?thesis
    using wal_loop_encoded [OF assms(1), of ?rest nm 0]
    by (simp add: wal_records_from_def stop_at_def)
qed

theorem wal_torn_record_witness:
  "wal_records_from ''a.wal'' (encode_records [[1]] @ take 9 (encode_record [2, 3])) 0 100 =
     ([(0, 9, [1])], Some (WalCorruptionError ''a.wal'' 9 (reason_payload 2 1)))"
  using wal_torn_record [of 100 "[[1]]" "[2, 3]" 9 "''a.wal''"]
  by (simp add: good_payload_def record_header_size_def)

text \<open>
  C23: Damage to a payload is caught.  If up to four consecutive bytes of a stored payload are
  altered, the reader yields every record before the damaged one and reports a checksum
  mismatch at the offset where the damaged record starts; nothing after it is read.
\<close>

theorem wal_burst_detected:
  assumes "list_all (good_payload limit) ps" "good_payload limit (a @ b @ c)"
    and "length b' = length b" "length b \<le> 4" "b' \<noteq> b"
  shows "wal_records_from nm (encode_records ps @ le32 (word_of_nat (length (a @ b @ c)))
      @ le32 (crc32 (a @ b @ c)) @ (a @ b' @ c) @ rest) 0 limit =
    (layout 0 ps, Some (WalCorruptionError nm (length (encode_records ps))
       (reason_crc (uint (crc32 (a @ b @ c))) (uint (crc32 (a @ b' @ c))))))"
proof -
  let ?rest = "le32 (word_of_nat (length (a @ b @ c))) @ le32 (crc32 (a @ b @ c)) @ (a @ b' @ c) @ rest"
  have "crc32 (a @ b' @ c) \<noteq> crc32 (a @ b @ c)"
    using assms(3-5) by (rule crc32_burst_detected)
  with assms have "read_record limit ?rest =
      Frame_Bad (reason_crc (uint (crc32 (a @ b @ c))) (uint (crc32 (a @ b' @ c))))"
    by (intro read_record_damaged) simp_all
  then show ?thesis
    using wal_loop_encoded [OF assms(1), of ?rest nm 0]
    by (simp add: wal_records_from_def stop_at_def)
qed

theorem wal_burst_detected_witness:
  "fst (wal_records_from ''a.wal'' (encode_records [[1]] @ le32 (word_of_nat 3) @ le32 (crc32 [5, 6, 7])
      @ [5, 9, 7] @ encode_record [2]) 0 100) = [(0, 9, [1])]"
  using wal_burst_detected [of 100 "[[1]]" "[5]" "[6]" "[7]" "[9]" "''a.wal''" "encode_record [2]"]
  by (simp add: good_payload_def record_header_size_def)

text \<open>
  C34: An acknowledged record that hides all later ones.  The gateway accepts and appends an
  export request with an empty body (zero bytes are a valid protobuf message), and one that is
  within its own limit but above the backend's, which is configured apart.  The reader refuses
  both: from such a record on, whatever records follow it in the segment, nothing is yielded and
  the segment is reported as corrupt.
\<close>

theorem wal_refused_payload_poisons:
  assumes good: "list_all (good_payload limit) ps" and refused: "p = [] \<or> limit < int (length p)" and framed: "length p < 2 ^ 32"
  shows "wal_records_from nm (encode_records (ps @ [p] @ qs)) 0 limit =
    (layout 0 ps, Some (WalCorruptionError nm (length (encode_records ps))
       (if p = [] then reason_zero else reason_oversized (int (length p)) limit)))"
proof -
  let ?rest = "encode_record p @ encode_records qs"
  have "uint (word_of_nat (length p) :: 32 word) = int (length p)"
    using framed by (simp add: uint_nat unat_of_nat)
  then have "read_record limit ?rest = Frame_Bad (if p = [] then reason_zero else reason_oversized (int (length p)) limit)"
    using refused by (auto simp: encode_record_def read_record_framed Let_def)
  then show ?thesis
    using wal_loop_encoded [OF good, of ?rest nm 0]
    by (simp add: wal_records_from_def stop_at_def)
qed

theorem wal_refused_payload_poisons_witness:
  "fst (wal_records_from ''a.wal'' (encode_records ([[1]] @ [[]] @ [[2], [3]])) 0 100) = [(0, 9, [1])] \<and>
   fst (wal_records_from ''a.wal'' (encode_records ([[1]] @ [[2, 3, 4]] @ [[2], [3]])) 0 2) = [(0, 9, [1])]"
  using wal_refused_payload_poisons [of 100 "[[1]]" "[]" "''a.wal''" "[[2], [3]]"]
    wal_refused_payload_poisons [of 2 "[[1]]" "[2, 3, 4]" "''a.wal''" "[[2], [3]]"]
  by (simp add: good_payload_def record_header_size_def)

text \<open>
  C25: Incremental reading.  A segment read cleanly up to its end and read again from there
  after the gateway appended to it gives, together, exactly what one pass over the grown
  segment gives.
\<close>

theorem wal_resume:
  assumes "wal_records_from nm content start limit = (rs, None)" "start \<le> length content"
  shows "wal_records_from nm (content @ more) start limit =
    (let (rs', stop) = wal_records_from nm (content @ more) (length content) limit in (rs @ rs', stop))"
proof -
  from assms(1) obtain ps rest where *: "drop start content = encode_records ps @ rest"
    "list_all (good_payload limit) ps" "\<not> (\<exists>p. read_record limit rest = Frame_Ok p)"
    "rs = layout start ps" "None = stop_at nm limit (start + length (encode_records ps)) rest"
    unfolding wal_records_from_def by (rule wal_loop_elim)
  have "rest = []" using stop_at_None_iff [OF *(3)] *(5) by metis
  with * assms(2) have content: "drop start content = encode_records ps"
    by simp
  from \<open>rest = []\<close> arg_cong [OF content, of length] assms(2)
  have len: "length content = start + length (encode_records ps)" by simp
  then show ?thesis
    using * assms(2) wal_loop_records [OF *(2), of nm start more] \<open>rest = []\<close>
    by (simp add: wal_records_from_def)
qed

theorem wal_resume_witness:
  "wal_records_from ''a.wal'' (encode_record [1] @ encode_record [2]) 0 100 =
     ([(0, 9, [1]), (9, 18, [2])], None)"
proof -
  have first: "wal_records_from ''a.wal'' (encode_record [1]) 0 100 = ([(0, 9, [1])], None)"
    by code_simp
  have second: "wal_records_from ''a.wal'' (encode_record [1] @ encode_record [2]) 9 100 =
      ([(9, 18, [2])], None)"
    by code_simp
  from wal_resume [OF first, of "encode_record [2]"] second show ?thesis
    by (simp add: record_header_size_def)
qed

end
