(* ===== verification/Wal_Names.thy ===== *)
theory Wal_Names
  imports Prelude
begin

text \<open>
  The names of WAL segments: the name \<open>WalWriter::open_new_segment\<close> gives a segment
  (cpp/gateway/src/wal_writer.cpp), the sort key \<open>_parse_wal_key\<close> of
  backend/app/materializer.py, and the order in which the materializer visits the segments.
  The last segment in this order is the one the materializer takes for active.
\<close>

section \<open>Definitions\<close>

text \<open>\<open>"wal-" + std::to_string(now) + "-" + std::to_string(sequence) + ".wal"\<close>.\<close>

definition segment_name :: "nat \<Rightarrow> nat \<Rightarrow> string" where
  "segment_name now sequence = ''wal-'' @ show_nat now @ ''-'' @ show_nat sequence @ ''.wal''"

text \<open>
  The regular expressions.  \<open>\d+\<close> is a maximal run of digits, since what follows it in both
  patterns is not a digit; \<open>$\<close> also matches in front of one final newline.
\<close>

definition match_digits :: "string \<Rightarrow> (string \<times> string) option" where
  "match_digits s = (let d = takeWhile is_digit s in
     if d = [] then None else Some (d, dropWhile is_digit s))"

definition match_suffix :: "string \<Rightarrow> bool" where
  "match_suffix s \<longleftrightarrow> s = ''.wal'' \<or> s = ''.wal'' @ [CHR 0x0A]"

definition match_text :: "string \<Rightarrow> string \<Rightarrow> string option" where
  "match_text p s = (if starts_with p s then Some (drop (length p) s) else None)"

text \<open>\<open>^wal-(\d+)-(\d+)\.wal$\<close>\<close>

definition match_full :: "string \<Rightarrow> (string \<times> string) option" where
  "match_full name =
     Option.bind (match_text ''wal-'' name) (\<lambda>r1.
     Option.bind (match_digits r1) (\<lambda>(a, r2).
     Option.bind (match_text ''-'' r2) (\<lambda>r3.
     Option.bind (match_digits r3) (\<lambda>(b, r4).
       if match_suffix r4 then Some (a, b) else None))))"

text \<open>\<open>^wal-(\d+)\.wal$\<close>\<close>

definition match_simple :: "string \<Rightarrow> string option" where
  "match_simple name =
     Option.bind (match_text ''wal-'' name) (\<lambda>r1.
     Option.bind (match_digits r1) (\<lambda>(a, r2).
       if match_suffix r2 then Some a else None))"

definition parse_wal_key :: "string \<Rightarrow> nat \<times> nat \<times> string" where
  "parse_wal_key name =
     (case match_full name of
        Some (a, b) \<Rightarrow> (read_nat a, read_nat b, name)
      | None \<Rightarrow>
          (case match_simple name of
             Some a \<Rightarrow> (0, read_nat a, name)
           | None \<Rightarrow> (0, 0, name)))"

text \<open>\<open>sorted(settings.wal_dir.glob("*.wal"), key=_parse_wal_key)\<close>, on the names of the directory.\<close>

definition sorted_wal_files :: "string list \<Rightarrow> string list" where
  "sorted_wal_files names = sort_key parse_wal_key (filter (ends_with ''.wal'') names)"

text \<open>\<open>wal_files[-1].name if wal_files else None\<close>.\<close>

definition active_wal_filename :: "string list \<Rightarrow> string option" where
  "active_wal_filename wal_files = (if wal_files = [] then None else Some (last wal_files))"

section \<open>Lemmas\<close>

lemma match_digits_show:
  "s = [] \<or> \<not> is_digit (hd s) \<Longrightarrow> match_digits (show_nat n @ s) = Some (show_nat n, s)"
proof -
  assume s: "s = [] \<or> \<not> is_digit (hd s)"
  have "\<forall>c \<in> set (show_nat n). is_digit c"
    using show_nat_digits [of n] by (simp add: list_all_iff)
  then have "takeWhile is_digit (show_nat n @ s) = show_nat n"
    and "dropWhile is_digit (show_nat n @ s) = s"
    using s by (cases s; simp add: takeWhile_append dropWhile_append)+
  then show ?thesis by (simp add: match_digits_def show_nat_nonempty)
qed

lemma match_text_append [simp]: "match_text p (p @ s) = Some s"
  by (simp add: match_text_def)

lemma not_digit_dash: "\<not> is_digit CHR ''-''" and not_digit_dot: "\<not> is_digit CHR ''.''"
  by (simp_all add: is_digit_def)

lemma match_full_segment: "match_full (segment_name t q) = Some (show_nat t, show_nat q)"
proof -
  have 1: "match_digits (show_nat t @ ''-'' @ show_nat q @ ''.wal'')
      = Some (show_nat t, ''-'' @ show_nat q @ ''.wal'')"
    by (rule match_digits_show) (simp add: not_digit_dash)
  have 2: "match_digits (show_nat q @ ''.wal'') = Some (show_nat q, ''.wal'')"
    by (rule match_digits_show) (simp add: not_digit_dot)
  have 3: "match_text ''-'' (''-'' @ show_nat q @ ''.wal'') = Some (show_nat q @ ''.wal'')"
    by (rule match_text_append)
  have "match_text ''wal-'' (segment_name t q) = Some (show_nat t @ ''-'' @ show_nat q @ ''.wal'')"
    unfolding segment_name_def by (rule match_text_append)
  with 1 2 3 show ?thesis by (simp add: match_full_def match_suffix_def)
qed

lemma parse_wal_key_name: "snd (snd (parse_wal_key name)) = name"
  by (simp add: parse_wal_key_def split: option.splits)

lemma inj_parse_wal_key: "inj_on parse_wal_key A"
  by (rule inj_onI) (metis parse_wal_key_name)

lemma sorted_same_mset: "sorted xs \<Longrightarrow> sorted ys \<Longrightarrow> mset xs = mset ys \<Longrightarrow> xs = ys"
  by (metis properties_for_sort sorted_sort_id)

lemma segment_name_wal: "ends_with ''.wal'' (segment_name t q)"
proof -
  have "segment_name t q = (''wal-'' @ show_nat t @ ''-'' @ show_nat q) @ ''.wal''"
    by (simp add: segment_name_def)
  then show ?thesis by (metis ends_with_append)
qed

lemma set_sorted_wal_files [simp]:
  "set (sorted_wal_files names) = {n \<in> set names. ends_with ''.wal'' n}"
  by (auto simp: sorted_wal_files_def)

lemma distinct_sorted_wal_files: "distinct names \<Longrightarrow> distinct (sorted_wal_files names)"
  by (simp add: sorted_wal_files_def)

lemma sorted_wal_files_Nil [simp]: "sorted_wal_files [] = []"
  by (simp add: sorted_wal_files_def)

section \<open>Properties\<close>

text \<open>
  The sort key reads back what the gateway wrote into a segment's name: its nanosecond
  timestamp and its sequence number.
\<close>

theorem wal_key_roundtrip: "parse_wal_key (segment_name t q) = (t, q, segment_name t q)"
  by (simp add: parse_wal_key_def match_full_segment)

lemma segment_name_inj: "segment_name t q = segment_name t' q' \<longleftrightarrow> t = t' \<and> q = q'"
proof
  assume "segment_name t q = segment_name t' q'"
  then have "match_full (segment_name t q) = match_full (segment_name t' q')" by simp
  then show "t = t' \<and> q = q'"
    by (simp add: match_full_segment) (metis read_show_nat)
qed simp

text \<open>
  The materializer visits the gateway's segments in the order of their creation, whatever
  order the directory lists them in, and takes the newest for the active one: numeric order
  on (timestamp, sequence), not the order of the names as strings.
\<close>

theorem wal_files_in_creation_order:
  assumes "sorted_wrt (<) created" "mset names = mset (map (\<lambda>(t, q). segment_name t q) created)"
  shows "sorted_wal_files names = map (\<lambda>(t, q). segment_name t q) created \<and>
    active_wal_filename (sorted_wal_files names) =
      (if created = [] then None else Some (case last created of (t, q) \<Rightarrow> segment_name t q))"
proof -
  let ?seg = "\<lambda>(t, q). segment_name t q"
  have "set names = ?seg ` set created"
    using arg_cong [OF assms(2), of set_mset] by simp
  then have all: "filter (ends_with ''.wal'') names = names"
    by (intro filter_True) (auto simp: segment_name_wal)
  have "sorted_wrt (\<lambda>x y. parse_wal_key (?seg x) \<le> parse_wal_key (?seg y)) created"
    using assms(1)
    by (rule sorted_wrt_mono_rel [rotated])
      (auto simp: wal_key_roundtrip [unfolded] less_prod_def less_eq_prod_def)
  then have sorted: "sorted (map parse_wal_key (map ?seg created))"
    by (simp add: sorted_map)
  have "map parse_wal_key (sort_key parse_wal_key names) = map parse_wal_key (map ?seg created)"
    using sorted assms(2) by (intro sorted_same_mset) (simp_all only: sorted_sort_key mset_map mset_sort)
  then have "sort_key parse_wal_key names = map ?seg created"
    using inj_parse_wal_key [of UNIV] by (simp only: inj_map_eq_map)
  then show ?thesis by (auto simp: sorted_wal_files_def all active_wal_filename_def last_map)
qed

theorem wal_files_in_creation_order_witness:
  "sorted_wal_files [segment_name 10 1, segment_name 9 0] = [segment_name 9 0, segment_name 10 1]"
  using wal_files_in_creation_order [of "[(9, 0), (10, 1)]" "[segment_name 10 1, segment_name 9 0]"]
  by simp

end
