(* ===== verification/Otlp_Rows.thy ===== *)
theory Otlp_Rows
  imports Wal_Format
begin

text \<open>
  From an OTLP export request to span rows: \<open>_hex\<close>, \<open>_attribute_value\<close>, \<open>_attributes\<close>,
  \<open>_events\<close>, \<open>_links\<close> and \<open>_rows\<close> of backend/app/materializer.py, the Python values and the
  \<open>json.dumps\<close> they use, and the schema \<open>SPAN_ARROW_SCHEMA\<close> the rows must fit.

  The protobuf parser, the decimal text of a double, the exception pyarrow raises for a value
  outside its column type, the clock and the random identifiers are outside the repository:
  they are the fields of the record \<open>env\<close>, which every definition that uses them takes as an
  argument.  \<open>utc_stamp n\<close> and \<open>uuid4_hex n\<close> are what the clock and \<open>uuid.uuid4().hex\<close>
  deliver to the n-th file name that is drawn; \<open>unlink_fails\<close> says for which files \<open>unlink\<close>
  raises an \<open>OSError\<close>, \<open>parquet_read_error\<close> what reading a Parquet file raises, and
  \<open>manifest_error\<close> what sqlite3 raises when the removal of orphans asks for the committed files.
\<close>

unbundle bit_operations_syntax

section \<open>The messages\<close>

text \<open>\<open>AnyValue\<close>: the oneof \<open>value\<close>, a double as its 64 bits.\<close>

datatype any_value =
    No_Value
  | String_Value string
  | Bool_Value bool
  | Int_Value int
  | Double_Value "64 word"
  | Array_Value "any_value list"
  | Kvlist_Value "(string \<times> any_value) list"
  | Bytes_Value "byte list"

type_synonym key_values = "(string \<times> any_value) list"

record pb_event =
  ev_name :: string
  ev_time_unix_nano :: int
  ev_attributes :: key_values
  ev_dropped_attributes_count :: int

record pb_link =
  ln_trace_id :: "byte list"
  ln_span_id :: "byte list"
  ln_trace_state :: string
  ln_attributes :: key_values
  ln_dropped_attributes_count :: int
  ln_flags :: int

record pb_span =
  sp_trace_id :: "byte list"
  sp_span_id :: "byte list"
  sp_parent_span_id :: "byte list"
  sp_name :: string
  sp_kind :: int
  sp_start_time_unix_nano :: int
  sp_end_time_unix_nano :: int
  sp_attributes :: key_values
  sp_events :: "pb_event list"
  sp_links :: "pb_link list"
  sp_status_code :: int
  sp_status_message :: string
  sp_trace_state :: string
  sp_flags :: int
  sp_dropped_attributes_count :: int
  sp_dropped_events_count :: int
  sp_dropped_links_count :: int

record pb_scope_spans =
  sc_name :: string
  sc_version :: string
  sc_spans :: "pb_span list"

record pb_resource_spans =
  rs_attributes :: key_values
  rs_scope_spans :: "pb_scope_spans list"

type_synonym export_request = "pb_resource_spans list"

section \<open>Exceptions and the environment\<close>

text \<open>
  The exceptions of the program by class.  \<open>WalCorruptionError\<close> is a \<open>ValueError\<close>;
  protobuf's \<open>DecodeError\<close> and the sqlite3 errors are not.
\<close>

datatype exn =
    Wal_Corruption wal_corruption
  | Value_Error string
  | Decode_Error string
  | Overflow_Error string
  | Operational_Error string
  | Integrity_Error string
  | Timeout_Error string
  | OS_Error string

text \<open>What \<open>except (WalCorruptionError, ValueError)\<close> catches.\<close>

fun is_value_error :: "exn \<Rightarrow> bool" where
  "is_value_error (Wal_Corruption _) = True"
| "is_value_error (Value_Error _) = True"
| "is_value_error _ = False"

text \<open>\<open>str(error)\<close>.\<close>

fun exn_message :: "exn \<Rightarrow> string" where
  "exn_message (Wal_Corruption c) = wal_corruption_message c"
| "exn_message (Value_Error m) = m"
| "exn_message (Decode_Error m) = m"
| "exn_message (Overflow_Error m) = m"
| "exn_message (Operational_Error m) = m"
| "exn_message (Integrity_Error m) = m"
| "exn_message (Timeout_Error m) = m"
| "exn_message (OS_Error m) = m"

text \<open>\<open>ParseFromString\<close> raises, or returns a number (the bytes consumed) with the message.\<close>

datatype parse_result = Parse_Raises exn | Parsed nat export_request

record env =
  parse_request :: "byte list \<Rightarrow> parse_result"
  float_repr :: "64 word \<Rightarrow> string"
  arrow_error :: exn
  utc_stamp :: "nat \<Rightarrow> string"
  uuid4_hex :: "nat \<Rightarrow> string"
  unlink_fails :: "string \<Rightarrow> bool"
  parquet_read_error :: "string \<Rightarrow> exn option"
  manifest_error :: "exn option"

section \<open>Python values\<close>

datatype pyval =
    P_Str string
  | P_Bool bool
  | P_Int int
  | P_Float "64 word"
  | P_List "pyval list"
  | P_Dict "(string \<times> pyval) list"

fun py_true :: "pyval \<Rightarrow> bool" where
  "py_true (P_Str s) = (s \<noteq> [])"
| "py_true (P_Bool b) = b"
| "py_true (P_Int i) = (i \<noteq> 0)"
| "py_true (P_Float w) = (w \<noteq> 0 \<and> w \<noteq> push_bit 63 1)"
| "py_true (P_List vs) = (vs \<noteq> [])"
| "py_true (P_Dict kvs) = (kvs \<noteq> [])"

fun py_join :: "string \<Rightarrow> string list \<Rightarrow> string" where
  "py_join sep [] = []"
| "py_join sep [s] = s"
| "py_join sep (s # t # ss) = s @ sep @ py_join sep (t # ss)"

definition char_hex :: "char \<Rightarrow> string" where
  "char_hex c = hex_byte (of_char c)"

text \<open>\<open>repr\<close> of a string: single quotes, unless it has single quotes and no double quotes.\<close>

definition repr_char :: "char \<Rightarrow> char \<Rightarrow> string" where
  "repr_char q c = (let n = of_char c :: nat in
     if c = q \<or> n = 92 then [CHR 0x5C, c]
     else if n = 10 then [CHR 0x5C, CHR ''n'']
     else if n = 13 then [CHR 0x5C, CHR ''r'']
     else if n = 9 then [CHR 0x5C, CHR ''t'']
     else if n < 32 \<or> 127 \<le> n \<and> n \<le> 160 \<or> n = 173 then [CHR 0x5C, CHR ''x''] @ char_hex c
     else [c])"

definition repr_string :: "string \<Rightarrow> string" where
  "repr_string s =
     (let q = (if CHR 0x27 \<in> set s \<and> CHR 0x22 \<notin> set s then CHR 0x22 else CHR 0x27)
      in [q] @ concat (map (repr_char q) s) @ [q])"

primrec py_repr :: "(64 word \<Rightarrow> string) \<Rightarrow> pyval \<Rightarrow> string" where
  "py_repr fr (P_Str s) = repr_string s"
| "py_repr fr (P_Bool b) = (if b then ''True'' else ''False'')"
| "py_repr fr (P_Int i) = show_int i"
| "py_repr fr (P_Float w) = fr w"
| "py_repr fr (P_List vs) = ''['' @ py_join '', '' (map (py_repr fr) vs) @ '']''"
| "py_repr fr (P_Dict kvs) = ''{'' @ py_join '', ''
     (map (\<lambda>(k, r). repr_string k @ '': '' @ r) (map (map_prod id (py_repr fr)) kvs)) @ ''}''"

fun py_str :: "(64 word \<Rightarrow> string) \<Rightarrow> pyval \<Rightarrow> string" where
  "py_str fr (P_Str s) = s"
| "py_str fr v = py_repr fr v"

section \<open>JSON text\<close>

text \<open>\<open>json.dumps(value, sort_keys=True)\<close> with its defaults: ASCII output, \<open>", "\<close> and \<open>": "\<close>.\<close>

definition json_char :: "char \<Rightarrow> string" where
  "json_char c = (let n = of_char c :: nat in
     if n = 34 \<or> n = 92 then [CHR 0x5C, c]
     else if n = 10 then [CHR 0x5C, CHR ''n'']
     else if n = 13 then [CHR 0x5C, CHR ''r'']
     else if n = 9 then [CHR 0x5C, CHR ''t'']
     else if n = 12 then [CHR 0x5C, CHR ''f'']
     else if n = 8 then [CHR 0x5C, CHR ''b'']
     else if n < 32 \<or> 126 < n then [CHR 0x5C] @ ''u00'' @ char_hex c
     else [c])"

definition json_string :: "string \<Rightarrow> string" where
  "json_string s = [CHR 0x22] @ concat (map json_char s) @ [CHR 0x22]"

definition json_float :: "(64 word \<Rightarrow> string) \<Rightarrow> 64 word \<Rightarrow> string" where
  "json_float fr w =
     (if drop_bit 52 w AND 0x7FF = 0x7FF then
        if take_bit 52 w \<noteq> 0 then ''NaN''
        else if bit w 63 then ''-Infinity'' else ''Infinity''
      else fr w)"

primrec json_dumps :: "(64 word \<Rightarrow> string) \<Rightarrow> pyval \<Rightarrow> string" where
  "json_dumps fr (P_Str s) = json_string s"
| "json_dumps fr (P_Bool b) = (if b then ''true'' else ''false'')"
| "json_dumps fr (P_Int i) = show_int i"
| "json_dumps fr (P_Float w) = json_float fr w"
| "json_dumps fr (P_List vs) = ''['' @ py_join '', '' (map (json_dumps fr) vs) @ '']''"
| "json_dumps fr (P_Dict kvs) = ''{'' @ py_join '', ''
     (map (\<lambda>(k, r). json_string k @ '': '' @ r)
       (sort_key fst (map (map_prod id (json_dumps fr)) kvs))) @ ''}''"

section \<open>Normalisation\<close>

text \<open>\<open>_hex\<close>\<close>

definition py_hex :: "byte list \<Rightarrow> string" where
  "py_hex value = (if value \<noteq> [] then bytes_hex value else '''')"

text \<open>\<open>_attribute_value\<close>\<close>

primrec attribute_value :: "any_value \<Rightarrow> pyval" where
  "attribute_value No_Value = P_Str ''''"
| "attribute_value (String_Value s) = P_Str s"
| "attribute_value (Bool_Value b) = P_Bool b"
| "attribute_value (Int_Value i) = P_Int i"
| "attribute_value (Double_Value w) = P_Float w"
| "attribute_value (Array_Value vs) = P_List (map attribute_value vs)"
| "attribute_value (Kvlist_Value kvs) = P_Dict (dict_of (map (map_prod id attribute_value) kvs))"
| "attribute_value (Bytes_Value bs) = P_Str (bytes_hex bs)"

text \<open>\<open>_attributes\<close>\<close>

definition attributes :: "key_values \<Rightarrow> (string, pyval) table" where
  "attributes kvs = dict_of (map (map_prod id attribute_value) kvs)"

text \<open>\<open>_events\<close>\<close>

definition event_dict :: "pb_event \<Rightarrow> pyval" where
  "event_dict event = P_Dict [
     (''name'', P_Str (ev_name event)),
     (''time_unix_nano'', P_Int (ev_time_unix_nano event)),
     (''attributes'', P_Dict (attributes (ev_attributes event))),
     (''dropped_attributes_count'', P_Int (ev_dropped_attributes_count event))]"

definition events_of :: "pb_event list \<Rightarrow> pyval list" where
  "events_of events = map event_dict events"

text \<open>\<open>_links\<close>\<close>

definition link_dict :: "pb_link \<Rightarrow> pyval" where
  "link_dict link = P_Dict [
     (''trace_id'', P_Str (py_hex (ln_trace_id link))),
     (''span_id'', P_Str (py_hex (ln_span_id link))),
     (''trace_state'', P_Str (ln_trace_state link)),
     (''attributes'', P_Dict (attributes (ln_attributes link))),
     (''dropped_attributes_count'', P_Int (ln_dropped_attributes_count link)),
     (''flags'', P_Int (ln_flags link))]"

definition links_of :: "pb_link list \<Rightarrow> pyval list" where
  "links_of links = map link_dict links"

text \<open>\<open>d.get(k) or \<dots> or ""\<close>, and \<open>str(\<dots>) or None\<close>.\<close>

fun get_or :: "(string, pyval) table \<Rightarrow> string list \<Rightarrow> pyval" where
  "get_or d [] = P_Str ''''"
| "get_or d (k # ks) = (case map_of d k of
     Some v \<Rightarrow> if py_true v then v else get_or d ks
   | None \<Rightarrow> get_or d ks)"

definition or_none :: "string \<Rightarrow> string option" where
  "or_none s = (if s = [] then None else Some s)"

record span_row =
  row_trace_id :: string
  row_span_id :: string
  row_parent_span_id :: "string option"
  row_name :: string
  row_kind :: int
  row_service_name :: "string option"
  row_project_id :: "string option"
  row_start_time_unix_nano :: int
  row_end_time_unix_nano :: int
  row_duration_ns :: int
  row_status_code :: int
  row_status_message :: "string option"
  row_scope_name :: "string option"
  row_scope_version :: "string option"
  row_trace_state :: "string option"
  row_flags :: int
  row_resource_attributes_json :: string
  row_attributes_json :: string
  row_events_json :: string
  row_links_json :: string
  row_dropped_attributes_count :: int
  row_dropped_events_count :: int
  row_dropped_links_count :: int
  row_source_file :: string
  row_source_offset :: nat

text \<open>
  \<open>_rows\<close>, from the inside out: the row of one span, given what the enclosing loops computed;
  the rows of a resource; the rows of a record.
\<close>

definition service_name_of :: "env \<Rightarrow> (string, pyval) table \<Rightarrow> string option" where
  "service_name_of ev attrs = or_none (py_str (float_repr ev) (get_or attrs [''service.name'']))"

definition project_id_of :: "env \<Rightarrow> (string, pyval) table \<Rightarrow> string option" where
  "project_id_of ev attrs =
     or_none (py_str (float_repr ev) (get_or attrs [''project.id'', ''lrcp.project_id'']))"

definition span_row_of :: "env \<Rightarrow> (string, pyval) table \<Rightarrow> string option \<Rightarrow> string option \<Rightarrow>
    string \<Rightarrow> string \<Rightarrow> string \<Rightarrow> nat \<Rightarrow> pb_span \<Rightarrow> span_row" where
  "span_row_of ev resource_attributes service_name project_id scope_name scope_version
      source_file record_offset span =
    (let span_attributes = attributes (sp_attributes span);
         span_project_id = (case project_id_of ev span_attributes of
             Some p \<Rightarrow> Some p | None \<Rightarrow> project_id);
         duration = max 0 (sp_end_time_unix_nano span - sp_start_time_unix_nano span);
         dumps = json_dumps (float_repr ev)
     in \<lparr> row_trace_id = py_hex (sp_trace_id span),
          row_span_id = py_hex (sp_span_id span),
          row_parent_span_id =
            (if sp_parent_span_id span \<noteq> [] then Some (py_hex (sp_parent_span_id span)) else None),
          row_name = sp_name span,
          row_kind = sp_kind span,
          row_service_name = service_name,
          row_project_id = span_project_id,
          row_start_time_unix_nano = sp_start_time_unix_nano span,
          row_end_time_unix_nano = sp_end_time_unix_nano span,
          row_duration_ns = duration,
          row_status_code = sp_status_code span,
          row_status_message = or_none (sp_status_message span),
          row_scope_name = or_none scope_name,
          row_scope_version = or_none scope_version,
          row_trace_state = or_none (sp_trace_state span),
          row_flags = (if sp_flags span \<noteq> 0 then sp_flags span else 0),
          row_resource_attributes_json = dumps (P_Dict resource_attributes),
          row_attributes_json = dumps (P_Dict span_attributes),
          row_events_json = dumps (P_List (events_of (sp_events span))),
          row_links_json = dumps (P_List (links_of (sp_links span))),
          row_dropped_attributes_count = sp_dropped_attributes_count span,
          row_dropped_events_count = sp_dropped_events_count span,
          row_dropped_links_count = sp_dropped_links_count span,
          row_source_file = source_file,
          row_source_offset = record_offset \<rparr>)"

definition resource_rows :: "env \<Rightarrow> string \<Rightarrow> nat \<Rightarrow> pb_resource_spans \<Rightarrow> span_row list" where
  "resource_rows ev source_file record_offset resource_spans =
    (let resource_attributes = attributes (rs_attributes resource_spans);
         service_name = service_name_of ev resource_attributes;
         project_id = project_id_of ev resource_attributes
     in concat (map (\<lambda>scope_spans.
          map (span_row_of ev resource_attributes service_name project_id
                 (sc_name scope_spans) (sc_version scope_spans) source_file record_offset)
            (sc_spans scope_spans))
        (rs_scope_spans resource_spans)))"

definition request_rows :: "env \<Rightarrow> string \<Rightarrow> nat \<Rightarrow> export_request \<Rightarrow> span_row list" where
  "request_rows ev source_file record_offset request =
     concat (map (resource_rows ev source_file record_offset) request)"

definition rows_of :: "env \<Rightarrow> byte list \<Rightarrow> string \<Rightarrow> nat \<Rightarrow> exn + span_row list" where
  "rows_of ev payload source_file record_offset =
    (case parse_request ev payload of
       Parse_Raises e \<Rightarrow> Inl e
     | Parsed consumed request \<Rightarrow>
         if consumed = 0
         then Inl (Wal_Corruption (WalCorruptionError source_file record_offset ''malformed OTLP protobuf''))
         else Inr (request_rows ev source_file record_offset request))"

section \<open>The column types\<close>

datatype arrow_type = A_String | A_Int32 | A_Int64 | A_UInt32

datatype cell = C_Null | C_Str string | C_Int int

definition span_arrow_schema :: "(string \<times> arrow_type \<times> bool) list" where
  "span_arrow_schema = [
     (''trace_id'', A_String, False),
     (''span_id'', A_String, False),
     (''parent_span_id'', A_String, True),
     (''name'', A_String, False),
     (''kind'', A_Int32, False),
     (''service_name'', A_String, True),
     (''project_id'', A_String, True),
     (''start_time_unix_nano'', A_Int64, False),
     (''end_time_unix_nano'', A_Int64, False),
     (''duration_ns'', A_Int64, False),
     (''status_code'', A_Int32, False),
     (''status_message'', A_String, True),
     (''scope_name'', A_String, True),
     (''scope_version'', A_String, True),
     (''trace_state'', A_String, True),
     (''flags'', A_UInt32, True),
     (''resource_attributes_json'', A_String, False),
     (''attributes_json'', A_String, False),
     (''events_json'', A_String, False),
     (''links_json'', A_String, False),
     (''dropped_attributes_count'', A_UInt32, False),
     (''dropped_events_count'', A_UInt32, False),
     (''dropped_links_count'', A_UInt32, False),
     (''source_file'', A_String, False),
     (''source_offset'', A_Int64, False)]"

fun opt_cell :: "string option \<Rightarrow> cell" where
  "opt_cell None = C_Null"
| "opt_cell (Some s) = C_Str s"

text \<open>The dictionary of a row, by column name.\<close>

definition row_cells :: "span_row \<Rightarrow> (string \<times> cell) list" where
  "row_cells r = [
     (''trace_id'', C_Str (row_trace_id r)),
     (''span_id'', C_Str (row_span_id r)),
     (''parent_span_id'', opt_cell (row_parent_span_id r)),
     (''name'', C_Str (row_name r)),
     (''kind'', C_Int (row_kind r)),
     (''service_name'', opt_cell (row_service_name r)),
     (''project_id'', opt_cell (row_project_id r)),
     (''start_time_unix_nano'', C_Int (row_start_time_unix_nano r)),
     (''end_time_unix_nano'', C_Int (row_end_time_unix_nano r)),
     (''duration_ns'', C_Int (row_duration_ns r)),
     (''status_code'', C_Int (row_status_code r)),
     (''status_message'', opt_cell (row_status_message r)),
     (''scope_name'', opt_cell (row_scope_name r)),
     (''scope_version'', opt_cell (row_scope_version r)),
     (''trace_state'', opt_cell (row_trace_state r)),
     (''flags'', C_Int (row_flags r)),
     (''resource_attributes_json'', C_Str (row_resource_attributes_json r)),
     (''attributes_json'', C_Str (row_attributes_json r)),
     (''events_json'', C_Str (row_events_json r)),
     (''links_json'', C_Str (row_links_json r)),
     (''dropped_attributes_count'', C_Int (row_dropped_attributes_count r)),
     (''dropped_events_count'', C_Int (row_dropped_events_count r)),
     (''dropped_links_count'', C_Int (row_dropped_links_count r)),
     (''source_file'', C_Str (row_source_file r)),
     (''source_offset'', C_Int (int (row_source_offset r)))]"

fun cell_fits :: "arrow_type \<Rightarrow> bool \<Rightarrow> cell \<Rightarrow> bool" where
  "cell_fits ty nullable C_Null = nullable"
| "cell_fits A_String nullable (C_Str s) = True"
| "cell_fits A_Int32 nullable (C_Int i) = (- (2 ^ 31) \<le> i \<and> i < 2 ^ 31)"
| "cell_fits A_Int64 nullable (C_Int i) = (- (2 ^ 63) \<le> i \<and> i < 2 ^ 63)"
| "cell_fits A_UInt32 nullable (C_Int i) = (0 \<le> i \<and> i < 2 ^ 32)"
| "cell_fits _ nullable _ = False"

text \<open>Whether \<open>pa.Table.from_pylist(rows, schema=SPAN_ARROW_SCHEMA)\<close> accepts the row.\<close>

definition row_fits :: "span_row \<Rightarrow> bool" where
  "row_fits r = list_all (\<lambda>(column, ty, nullable).
     case map_of (row_cells r) column of None \<Rightarrow> nullable | Some c \<Rightarrow> cell_fits ty nullable c)
   span_arrow_schema"

section \<open>Lemmas\<close>

lemma cell_fits_opt [simp]: "cell_fits A_String True (opt_cell s)"
  by (cases s) simp_all

lemma row_fits_iff:
  "row_fits r \<longleftrightarrow>
     cell_fits A_Int32 False (C_Int (row_kind r)) \<and>
     cell_fits A_Int64 False (C_Int (row_start_time_unix_nano r)) \<and>
     cell_fits A_Int64 False (C_Int (row_end_time_unix_nano r)) \<and>
     cell_fits A_Int64 False (C_Int (row_duration_ns r)) \<and>
     cell_fits A_Int32 False (C_Int (row_status_code r)) \<and>
     cell_fits A_UInt32 True (C_Int (row_flags r)) \<and>
     cell_fits A_UInt32 False (C_Int (row_dropped_attributes_count r)) \<and>
     cell_fits A_UInt32 False (C_Int (row_dropped_events_count r)) \<and>
     cell_fits A_UInt32 False (C_Int (row_dropped_links_count r)) \<and>
     cell_fits A_Int64 False (C_Int (int (row_source_offset r)))"
  by (simp add: row_fits_def span_arrow_schema_def row_cells_def del: cell_fits.simps)
    (simp only: cell_fits.simps simp_thms)

lemma span_row_of_source [simp]:
  "row_source_file (span_row_of ev ra sn pid scn scv f off span) = f"
  "row_source_offset (span_row_of ev ra sn pid scn scv f off span) = off"
  by (simp_all add: span_row_of_def Let_def)

lemma request_rows_source:
  "r \<in> set (request_rows ev f off req) \<Longrightarrow> row_source_file r = f \<and> row_source_offset r = off"
  by (auto simp: request_rows_def resource_rows_def Let_def)

lemma rows_of_source:
  "rows_of ev payload f off = Inr rows \<Longrightarrow> r \<in> set rows \<Longrightarrow> row_source_file r = f \<and> row_source_offset r = off"
  by (auto simp: rows_of_def dest: request_rows_source split: parse_result.splits if_splits)

lemma hex_digit_inj: "a < 16 \<Longrightarrow> b < 16 \<Longrightarrow> hex_digit a = hex_digit b \<Longrightarrow> a = b"
proof -
  assume "a < 16" "b < 16" "hex_digit a = hex_digit b"
  then have "(of_char (hex_digit a) :: nat) = of_char (hex_digit b)" by simp
  with \<open>a < 16\<close> \<open>b < 16\<close> show "a = b" by (simp add: hex_digit_def split: if_splits)
qed

lemma hex_byte_inj: "hex_byte a = hex_byte b \<Longrightarrow> a = b"
proof -
  assume "hex_byte a = hex_byte b"
  then have "unat a div 16 = unat b div 16 \<and> unat a mod 16 = unat b mod 16"
    using unsigned_less [of a, where ?'a = nat] unsigned_less [of b, where ?'a = nat]
    by (auto simp: hex_byte_def intro!: hex_digit_inj)
  then show "a = b" by (metis div_mult_mod_eq word_unat_eq_iff)
qed

lemma bytes_hex_inj: "bytes_hex a = bytes_hex b \<Longrightarrow> a = b"
proof (induction a arbitrary: b)
  case Nil
  then show ?case by (cases b) (simp_all add: bytes_hex_def hex_byte_def)
next
  case (Cons x xs)
  then obtain y ys where b: "b = y # ys"
    by (cases b) (simp_all add: bytes_hex_def hex_byte_def)
  with Cons.prems have "hex_byte x @ bytes_hex xs = hex_byte y @ bytes_hex ys"
    by (simp add: bytes_hex_def)
  then have "hex_byte x = hex_byte y" "bytes_hex xs = bytes_hex ys"
    by (simp_all add: append_eq_append_conv hex_byte_def)
  with Cons.IH b show ?case by (auto dest: hex_byte_inj)
qed

lemma length_bytes_hex: "length (bytes_hex bs) = 2 * length bs"
  by (induction bs) (simp_all add: bytes_hex_def hex_byte_def)

section \<open>Properties\<close>

text \<open>
  Identifiers survive normalisation.  The text form of a trace or span identifier has two
  characters per byte, and two identifiers have the same text form only if they are equal.
\<close>

theorem hex_identifiers: "length (py_hex a) = 2 * length a \<and> (py_hex a = py_hex b \<longleftrightarrow> a = b)"
proof -
  have hex: "py_hex bs = bytes_hex bs" for bs
    by (simp add: py_hex_def bytes_hex_def)
  show ?thesis by (auto simp: hex length_bytes_hex dest: bytes_hex_inj)
qed

text \<open>The spans of a request.\<close>

definition span_count :: "export_request \<Rightarrow> nat" where
  "span_count request =
     sum_list (map (\<lambda>rs. sum_list (map (length \<circ> sc_spans) (rs_scope_spans rs))) request)"

lemma or_none_nonempty [simp]: "or_none s \<noteq> Some ''''"
  by (simp add: or_none_def)

lemma span_row_of_names:
  assumes "sn \<noteq> Some ''''" "pid \<noteq> Some ''''"
  shows "row_service_name (span_row_of ev ra sn pid scn scv f off span) \<noteq> Some ''''"
    and "row_project_id (span_row_of ev ra sn pid scn scv f off span) \<noteq> Some ''''"
  using assms
  by (auto simp: span_row_of_def Let_def project_id_of_def or_none_def split: option.splits)

lemma span_row_of_duration:
  "row_duration_ns (span_row_of ev ra sn pid scn scv f off span) =
     max 0 (sp_end_time_unix_nano span - sp_start_time_unix_nano span)"
  "row_start_time_unix_nano (span_row_of ev ra sn pid scn scv f off span) = sp_start_time_unix_nano span"
  "row_end_time_unix_nano (span_row_of ev ra sn pid scn scv f off span) = sp_end_time_unix_nano span"
  by (simp_all add: span_row_of_def Let_def)

lemma length_request_rows: "length (request_rows ev f off req) = span_count req"
  by (simp add: request_rows_def resource_rows_def span_count_def Let_def length_concat comp_def)

text \<open>The spans of a request in order, each with its resource.\<close>

definition request_spans :: "export_request \<Rightarrow> (pb_resource_spans \<times> pb_span) list" where
  "request_spans request =
     concat (map (\<lambda>rs. map (Pair rs) (concat (map sc_spans (rs_scope_spans rs)))) request)"

lemma list_all2_concat_map:
  "(\<And>x. x \<in> set xs \<Longrightarrow> list_all2 P (f x) (g x)) \<Longrightarrow> list_all2 P (concat (map f xs)) (concat (map g xs))"
  by (induction xs) (auto intro: list_all2_appendI)

lemma request_rows_spans:
  assumes "\<And>rs (scope :: pb_scope_spans) span. P (rs, span) (span_row_of ev (attributes (rs_attributes rs))
      (service_name_of ev (attributes (rs_attributes rs))) (project_id_of ev (attributes (rs_attributes rs)))
      (sc_name scope) (sc_version scope) f off span)"
  shows "list_all2 P (request_spans req) (request_rows ev f off req)"
  unfolding request_spans_def request_rows_def resource_rows_def Let_def map_concat map_map comp_def
  by (intro list_all2_concat_map) (auto simp: list_all2_map1 list_all2_map2 list_all2_same assms)

lemma py_hex_inj [simp]: "py_hex a = py_hex b \<longleftrightarrow> a = b"
  using hex_identifiers by blast

text \<open>
  C38: Rows are faithful to the spans.  A parsed record yields one row per span of its request, in
  order.  Each row has the identifiers of its span in hexadecimal, its name and its times, with the
  end minus the start, or 0 if the clock ran backwards, as duration; the service of the resource
  and the project of the span, or else of the resource, which are never empty; and the segment and
  offset of the record.  Rows are told apart by their identifiers exactly as the spans are.
\<close>

theorem rows_of_spans:
  assumes "rows_of ev payload f off = Inr rows"
  shows "\<exists>n req. parse_request ev payload = Parsed n req \<and>
    list_all2 (\<lambda>(rs, span) r.
       row_trace_id r = py_hex (sp_trace_id span) \<and> row_span_id r = py_hex (sp_span_id span) \<and>
       row_parent_span_id r = (if sp_parent_span_id span = [] then None else Some (py_hex (sp_parent_span_id span))) \<and>
       row_name r = sp_name span \<and> row_status_code r = sp_status_code span \<and>
       row_start_time_unix_nano r = sp_start_time_unix_nano span \<and> row_end_time_unix_nano r = sp_end_time_unix_nano span \<and>
       row_duration_ns r = max 0 (sp_end_time_unix_nano span - sp_start_time_unix_nano span) \<and>
       row_service_name r = service_name_of ev (attributes (rs_attributes rs)) \<and> row_service_name r \<noteq> Some '''' \<and>
       row_project_id r = (case project_id_of ev (attributes (sp_attributes span)) of
          Some p \<Rightarrow> Some p | None \<Rightarrow> project_id_of ev (attributes (rs_attributes rs))) \<and> row_project_id r \<noteq> Some '''' \<and>
       row_source_file r = f \<and> row_source_offset r = off)
     (request_spans req) rows \<and>
    (distinct (map (\<lambda>r. (row_trace_id r, row_span_id r)) rows) \<longleftrightarrow>
     distinct (map (\<lambda>(rs, span). (sp_trace_id span, sp_span_id span)) (request_spans req)))"
    (is "\<exists>n req. _ \<and> list_all2 ?row _ _ \<and> _")
proof -
  from assms obtain n req where req: "parse_request ev payload = Parsed n req"
    and rows: "rows = request_rows ev f off req"
    by (auto simp: rows_of_def split: parse_result.splits if_splits)
  have all: "list_all2 ?row (request_spans req) rows"
    unfolding rows
    by (rule request_rows_spans)
      (auto simp: span_row_of_def Let_def service_name_of_def project_id_of_def or_none_def split: option.splits)
  then have "map (\<lambda>r. (row_trace_id r, row_span_id r)) rows =
      map (map_prod py_hex py_hex) (map (\<lambda>(rs, span). (sp_trace_id span, sp_span_id span)) (request_spans req))"
    by (induction rule: list_all2_induct) auto
  moreover have "inj_on (map_prod py_hex py_hex) A" for A by (auto simp: inj_on_def)
  then have "distinct (map (map_prod py_hex py_hex) ids) \<longleftrightarrow> distinct ids" for ids
    by (simp add: distinct_map)
  ultimately have "distinct (map (\<lambda>r. (row_trace_id r, row_span_id r)) rows) \<longleftrightarrow>
      distinct (map (\<lambda>(rs, span). (sp_trace_id span, sp_span_id span)) (request_spans req))" by (simp del: map_map)
  with req all show ?thesis by blast
qed

text \<open>
  A span as protobuf can deliver it: the enums are 32-bit, the times 64-bit unsigned, the
  counters and flags 32-bit unsigned.
\<close>

definition span_in_range :: "pb_span \<Rightarrow> bool" where
  "span_in_range s \<longleftrightarrow>
     sp_kind s \<in> {- (2 ^ 31) ..< 2 ^ 31} \<and> sp_status_code s \<in> {- (2 ^ 31) ..< 2 ^ 31} \<and>
     sp_start_time_unix_nano s \<in> {0 ..< 2 ^ 64} \<and> sp_end_time_unix_nano s \<in> {0 ..< 2 ^ 64} \<and>
     sp_flags s \<in> {0 ..< 2 ^ 32} \<and> sp_dropped_attributes_count s \<in> {0 ..< 2 ^ 32} \<and>
     sp_dropped_events_count s \<in> {0 ..< 2 ^ 32} \<and> sp_dropped_links_count s \<in> {0 ..< 2 ^ 32}"

text \<open>
  C39: Which spans fit the Parquet schema.  Of the spans that protobuf can deliver, exactly
  those whose start and end lie below 2 to the 63 give a row that fits the column types; the
  schema stores the unsigned 64-bit times in signed columns.
\<close>

theorem row_fits_timestamps:
  assumes "span_in_range span" "off < 2 ^ 63"
  shows "row_fits (span_row_of ev ra sn pid scn scv f off span) \<longleftrightarrow>
    sp_start_time_unix_nano span < 2 ^ 63 \<and> sp_end_time_unix_nano span < 2 ^ 63"
proof -
  have "int off < 2 ^ 63" using assms(2) by simp
  with assms(1) show ?thesis
    by (auto simp: row_fits_iff span_in_range_def span_row_of_def Let_def)
qed

section \<open>Sample values for the witnesses\<close>

text \<open>A span with every field empty, a request around spans, and an environment that parses any payload into a given request.\<close>

definition sample_span :: pb_span where
  "sample_span = \<lparr> sp_trace_id = [1], sp_span_id = [2], sp_parent_span_id = [], sp_name = ''s'',
     sp_kind = 1, sp_start_time_unix_nano = 10, sp_end_time_unix_nano = 30, sp_attributes = [],
     sp_events = [], sp_links = [], sp_status_code = 0, sp_status_message = [], sp_trace_state = [],
     sp_flags = 0, sp_dropped_attributes_count = 0, sp_dropped_events_count = 0,
     sp_dropped_links_count = 0 \<rparr>"

definition sample_request :: "pb_span list \<Rightarrow> export_request" where
  "sample_request spans = [\<lparr> rs_attributes = [(''service.name'', String_Value ''svc'')],
     rs_scope_spans = [\<lparr> sc_name = [], sc_version = [], sc_spans = spans \<rparr>] \<rparr>]"

definition sample_env :: "(byte list \<Rightarrow> parse_result) \<Rightarrow> env" where
  "sample_env parser = \<lparr> parse_request = parser, float_repr = (\<lambda>_. ''0.0''),
     arrow_error = Overflow_Error ''int too big to convert'',
     utc_stamp = show_nat, uuid4_hex = (\<lambda>n. replicate 32 CHR ''0''),
     unlink_fails = (\<lambda>_. False), parquet_read_error = (\<lambda>_. None), manifest_error = None \<rparr>"

theorem rows_of_spans_witness:
  "\<exists>row. rows_of (sample_env (\<lambda>p. Parsed (length p) (sample_request [sample_span]))) [1] ''a.wal'' 0 = Inr [row] \<and>
     row_trace_id row = ''01'' \<and> row_service_name row = Some ''svc'' \<and> row_project_id row = None \<and> row_duration_ns row = 20"
proof -
  let ?ev = "sample_env (\<lambda>p. Parsed (length p) (sample_request [sample_span]))"
  obtain rows where rows: "rows_of ?ev [1] ''a.wal'' 0 = Inr rows"
    by (simp add: rows_of_def sample_env_def)
  have spans: "request_spans (sample_request [sample_span]) = [(hd (sample_request [sample_span]), sample_span)]"
    by (simp add: request_spans_def sample_request_def)
  have vals: "py_hex [1] = ''01''" "service_name_of ?ev (attributes (rs_attributes (hd (sample_request [sample_span])))) = Some ''svc''"
    "project_id_of ?ev (attributes (rs_attributes (hd (sample_request [sample_span])))) = None"
    "project_id_of ?ev (attributes (sp_attributes sample_span)) = None"
    by code_simp+
  have parsed: "parse_request ?ev [1] = Parsed 1 (sample_request [sample_span])" by (simp add: sample_env_def)
  from rows_of_spans [OF rows] obtain row where row: "rows = [row]" "row_trace_id row = py_hex (sp_trace_id sample_span)"
    "row_service_name row = service_name_of ?ev (attributes (rs_attributes (hd (sample_request [sample_span]))))"
    "row_project_id row = (case project_id_of ?ev (attributes (sp_attributes sample_span)) of
       Some p \<Rightarrow> Some p | None \<Rightarrow> project_id_of ?ev (attributes (rs_attributes (hd (sample_request [sample_span])))))"
    "row_duration_ns row = max 0 (sp_end_time_unix_nano sample_span - sp_start_time_unix_nano sample_span)"
    unfolding parsed by (auto simp: spans list_all2_Cons1)
  have span: "sp_trace_id sample_span = [1]" "sp_start_time_unix_nano sample_span = 10" "sp_end_time_unix_nano sample_span = 30"
    by (simp_all add: sample_span_def)
  have "row_service_name row = Some ''svc''" "row_project_id row = None" unfolding row vals by simp_all
  moreover have "row_trace_id row = ''01''" unfolding row span by (rule vals)
  moreover have "row_duration_ns row = 20" unfolding row span by simp
  ultimately show ?thesis using rows row(1) by blast
qed

theorem row_fits_timestamps_witness:
  "row_fits (span_row_of (sample_env (\<lambda>p. Parsed 1 [])) [] None None [] [] ''a.wal'' 0 sample_span) \<and>
   \<not> row_fits (span_row_of (sample_env (\<lambda>p. Parsed 1 [])) [] None None [] [] ''a.wal'' 0
       (sample_span\<lparr>sp_end_time_unix_nano := 2 ^ 63\<rparr>))"
  using row_fits_timestamps [of sample_span 0 "sample_env (\<lambda>p. Parsed 1 [])" "[]" None None "[]" "[]" "''a.wal''"]
    row_fits_timestamps [of "sample_span\<lparr>sp_end_time_unix_nano := 2 ^ 63\<rparr>" 0
      "sample_env (\<lambda>p. Parsed 1 [])" "[]" None None "[]" "[]" "''a.wal''"]
  by (simp add: span_in_range_def sample_span_def)

end
