(* ===== verification/Control.thy ===== *)
theory Control
  imports Otlp_Rows
begin

text \<open>
  The SQLite control store: the tables of backend/app/control.py, the creation and migration
  of the schema (\<open>initialize_control_store\<close>), the project credentials (\<open>hash_api_key\<close>,
  \<open>verify_project_credential\<close>) and the list of committed Parquet files
  (\<open>get_committed_parquet_files\<close>).  SHA-256 (hashlib) and what \<open>sqlite3\<close> raises are
  parameters.
\<close>

section \<open>The tables\<close>

text \<open>
  A table with a primary key is a keyed table in row order, without the timestamp columns,
  which no code reads to decide anything.  The status of a Parquet file and of a WAL segment
  is one of the texts the code writes.
\<close>

datatype parquet_status = COMMITTED | COMPACTED
datatype lifecycle_status = QUARANTINED | DELETED

record project_row =
  proj_name :: string
  api_key_hash :: "string option"

record offset_row =
  max_offset :: nat
  is_fully_processed :: bool

record parquet_row =
  record_count :: nat
  pq_status :: parquet_status

record corruption_row =
  ce_source_file :: string
  ce_offset :: nat
  ce_reason :: string

record lifecycle_row =
  lc_status :: lifecycle_status
  bytes_size :: nat

record control_store =
  projects :: "(string, project_row) table"
  materialized_wal_offsets :: "(string, offset_row) table"
  materialized_wal_records :: "(string \<times> nat, string) table"
  parquet_files :: "(string, parquet_row) table"
  wal_corruption_events :: "corruption_row list"
  wal_file_lifecycle :: "(string, lifecycle_row) table"

definition empty_store :: control_store where
  "empty_store = \<lparr> projects = [], materialized_wal_offsets = [], materialized_wal_records = [],
     parquet_files = [], wal_corruption_events = [], wal_file_lifecycle = [] \<rparr>"

section \<open>The schema\<close>

text \<open>
  The schema of the database: the columns of each table, and the indices.  \<open>sql_create\<close> is
  \<open>CREATE TABLE IF NOT EXISTS\<close>, \<open>sql_index\<close> is \<open>CREATE INDEX IF NOT EXISTS\<close>.
\<close>

record schema =
  tables :: "(string, string list) table"
  indices :: "(string, string \<times> string) table"

definition sql_create :: "string \<Rightarrow> string list \<Rightarrow> schema \<Rightarrow> schema" where
  "sql_create name columns db = db\<lparr>tables := tbl_ignore name columns (tables db)\<rparr>"

definition sql_index :: "string \<Rightarrow> string \<Rightarrow> string \<Rightarrow> schema \<Rightarrow> schema" where
  "sql_index name table column db = db\<lparr>indices := tbl_ignore name (table, column) (indices db)\<rparr>"

text \<open>The migration of a \<open>projects\<close> table from the time the key was stored in the clear.\<close>

definition migrate_projects :: "schema \<Rightarrow> schema" where
  "migrate_projects db =
    (case map_of (tables db) ''projects'' of
       None \<Rightarrow> db
     | Some col_names \<Rightarrow>
         if ''api_key_hash'' \<notin> set col_names \<and> ''api_key'' \<in> set col_names
         then db\<lparr>tables := tbl_update ''projects'' (\<lambda>cs. cs @ [''api_key_hash'']) (tables db)\<rparr>
         else db)"

text \<open>
  \<open>initialize_control_store\<close>, given what \<open>mkdir\<close> and \<open>sqlite3.connect\<close> raise, if they do:
  the error is logged and raised again.
\<close>

definition create_schema :: "schema \<Rightarrow> schema" where
  "create_schema db =
    (let db = sql_create ''projects'' [''id'', ''name'', ''api_key_hash'', ''created_at''] db;
         db = migrate_projects db;
         db = sql_create ''materialized_wal_offsets''
                [''source_file'', ''max_offset'', ''is_fully_processed'', ''updated_at''] db;
         db = sql_create ''materialized_wal_records''
                [''source_file'', ''source_offset'', ''parquet_file'', ''created_at''] db;
         db = sql_create ''parquet_files'' [''filename'', ''record_count'', ''status'', ''created_at''] db;
         db = sql_create ''wal_corruption_events''
                [''id'', ''source_file'', ''offset'', ''reason'', ''detected_at''] db;
         db = sql_create ''wal_file_lifecycle'' [''filename'', ''status'', ''bytes_size'', ''updated_at''] db;
         db = sql_index ''idx_wal_records_file'' ''materialized_wal_records'' ''source_file'' db
     in sql_index ''idx_wal_corruption_file'' ''wal_corruption_events'' ''source_file'' db)"

definition initialize_control_store ::
  "exn option \<Rightarrow> exn option \<Rightarrow> (schema, exn, unit) eff" where
  "initialize_control_store mkdir_error connect_error =
    (case mkdir_error of
       Some e \<Rightarrow> throw e
     | None \<Rightarrow> (case connect_error of
         Some e \<Rightarrow> throw e
       | None \<Rightarrow> updE create_schema))"

section \<open>Credentials\<close>

text \<open>UTF-8 on code points below 256.\<close>

definition utf8_char :: "char \<Rightarrow> byte list" where
  "utf8_char c = (let n = of_char c :: nat in
     if n < 128 then [word_of_nat n] else [word_of_nat (192 + n div 64), word_of_nat (128 + n mod 64)])"

definition utf8 :: "string \<Rightarrow> byte list" where
  "utf8 s = concat (map utf8_char s)"

definition hash_api_key :: "(byte list \<Rightarrow> string) \<Rightarrow> string \<Rightarrow> string" where
  "hash_api_key sha256_hex raw_key = sha256_hex (utf8 raw_key)"

definition generate_api_key :: "string \<Rightarrow> string" where
  "generate_api_key token_urlsafe = ''lrcp_'' @ token_urlsafe"

text \<open>The loop over \<open>SELECT id, api_key_hash FROM projects WHERE api_key_hash IS NOT NULL\<close>.\<close>

definition credential_rows :: "control_store \<Rightarrow> (string \<times> string) list" where
  "credential_rows db = List.map_filter
     (\<lambda>(project_id, row). map_option (Pair project_id) (api_key_hash row)) (projects db)"

fun find_credential :: "string \<Rightarrow> (string \<times> string) list \<Rightarrow> string option" where
  "find_credential candidate_hash [] = None"
| "find_credential candidate_hash ((project_id, stored_hash) # rows) =
     (if stored_hash \<noteq> [] \<and> candidate_hash = stored_hash then Some project_id
      else find_credential candidate_hash rows)"

text \<open>
  \<open>verify_project_credential\<close>; \<open>Inl\<close> stands for an \<open>sqlite3.Error\<close> raised while the table
  is read, which is logged and answered with \<open>None\<close>.
\<close>

definition verify_project_credential ::
  "(byte list \<Rightarrow> string) \<Rightarrow> exn + control_store \<Rightarrow> string \<Rightarrow> string option" where
  "verify_project_credential sha256_hex db token =
    (if token = [] \<or> py_strip token = [] then None
     else let candidate_hash = hash_api_key sha256_hex (py_strip token) in
       case db of Inl e \<Rightarrow> None
       | Inr store \<Rightarrow> find_credential candidate_hash (credential_rows store))"

section \<open>Committed Parquet files\<close>

text \<open>\<open>SELECT filename FROM parquet_files WHERE status = 'COMMITTED' ORDER BY filename ASC\<close>\<close>

definition committed_filenames :: "control_store \<Rightarrow> string list" where
  "committed_filenames db =
     sort (map fst (filter (\<lambda>(filename, row). pq_status row = COMMITTED) (parquet_files db)))"

text \<open>
  \<open>get_committed_parquet_files\<close>, on what the database query delivers or raises and on the
  Parquet directory.
\<close>

definition get_committed_parquet_files ::
  "exn + control_store \<Rightarrow> (string, 'f) table \<Rightarrow> string list" where
  "get_committed_parquet_files db dir =
     (case db of Inl e \<Rightarrow> [] | Inr store \<Rightarrow> filter (tbl_has dir) (committed_filenames store))"

section \<open>Lemmas\<close>

lemma has_ignore [simp]: "tbl_has (tbl_ignore k v t) k' \<longleftrightarrow> k = k' \<or> tbl_has t k'"
  by (auto simp: tbl_ignore_def tbl_has_iff)

lemma has_tbl_update [simp]: "tbl_has (tbl_update k f t) = tbl_has t"
  by (rule ext) (simp add: tbl_has_iff)

lemma ignore_present: "tbl_has t k \<Longrightarrow> tbl_ignore k v t = t"
  by (simp add: tbl_ignore_def)

lemma map_of_ignore_other: "k \<noteq> k' \<Longrightarrow> map_of (tbl_ignore k v t) k' = map_of t k'"
  by (simp add: map_of_ignore)

lemma map_of_ignore_same:
  "map_of (tbl_ignore k v t) k = Some (case map_of t k of None \<Rightarrow> v | Some u \<Rightarrow> u)"
  by (auto simp: map_of_ignore split: option.splits)

lemma ignore_keeps: "map_of t k' = Some u \<Longrightarrow> map_of (tbl_ignore k v t) k' = Some u"
  by (auto simp: map_of_ignore)

lemma sql_create_present: "tbl_has (tables db) name \<Longrightarrow> sql_create name cs db = db"
  by (simp add: sql_create_def ignore_present)

lemma sql_index_present: "tbl_has (indices db) name \<Longrightarrow> sql_index name t c db = db"
  by (simp add: sql_index_def ignore_present)

lemma migrate_has [simp]: "tbl_has (tables (migrate_projects db)) = tbl_has (tables db)"
  by (simp add: migrate_projects_def split: option.splits)

lemma migrate_indices [simp]: "indices (migrate_projects db) = indices db"
  by (simp add: migrate_projects_def split: option.splits)

lemma migrate_projects_columns:
  "map_of (tables (migrate_projects db)) ''projects'' =
     map_option (\<lambda>cs. if ''api_key_hash'' \<notin> set cs \<and> ''api_key'' \<in> set cs
       then cs @ [''api_key_hash''] else cs) (map_of (tables db) ''projects'')"
  by (auto simp: migrate_projects_def table_simps split: option.splits)

lemma migrate_other:
  "t \<noteq> ''projects'' \<Longrightarrow> map_of (tables (migrate_projects db)) t = map_of (tables db) t"
  by (auto simp: migrate_projects_def table_simps split: option.splits)

lemma migrate_settled:
  "map_of (tables db) ''projects'' = Some cs \<Longrightarrow>
     ''api_key_hash'' \<in> set cs \<or> ''api_key'' \<notin> set cs \<Longrightarrow> migrate_projects db = db"
  by (auto simp: migrate_projects_def)

lemma sql_create_proj [simp]:
  "tables (sql_create n cs db) = tbl_ignore n cs (tables db)" "indices (sql_create n cs db) = indices db"
  "indices (sql_index n t c db) = tbl_ignore n (t, c) (indices db)" "tables (sql_index n t c db) = tables db"
  by (simp_all add: sql_create_def sql_index_def)

text \<open>The tables and the indices after the initialisation.\<close>

lemma create_schema_has:
  "tbl_has (tables (create_schema db)) t \<longleftrightarrow>
     t \<in> {''projects'', ''materialized_wal_offsets'', ''materialized_wal_records'', ''parquet_files'',
       ''wal_corruption_events'', ''wal_file_lifecycle''} \<or> tbl_has (tables db) t"
  "tbl_has (indices (create_schema db)) i \<longleftrightarrow>
     i \<in> {''idx_wal_records_file'', ''idx_wal_corruption_file''} \<or> tbl_has (indices db) i"
  by (auto simp: create_schema_def Let_def)

lemma create_schema_projects:
  "map_of (tables (create_schema db)) ''projects'' =
     (case map_of (tables db) ''projects'' of
        None \<Rightarrow> Some [''id'', ''name'', ''api_key_hash'', ''created_at'']
      | Some cs \<Rightarrow> Some (if ''api_key_hash'' \<notin> set cs \<and> ''api_key'' \<in> set cs
          then cs @ [''api_key_hash''] else cs))"
  by (simp add: create_schema_def Let_def map_of_ignore_other map_of_ignore_same
      migrate_projects_columns split: option.splits)

lemma create_schema_keeps:
  "t \<noteq> ''projects'' \<Longrightarrow> map_of (tables db) t = Some cs \<Longrightarrow> map_of (tables (create_schema db)) t = Some cs"
  unfolding create_schema_def Let_def sql_create_proj
  by (intro ignore_keeps) (simp add: migrate_other ignore_keeps)

lemma find_credential_sound:
  "find_credential h rows = Some p \<Longrightarrow> (p, h) \<in> set rows \<and> h \<noteq> []"
  by (induction h rows rule: find_credential.induct) (auto split: if_splits)

lemma find_credential_complete:
  "(p, h) \<in> set rows \<Longrightarrow> h \<noteq> [] \<Longrightarrow> \<exists>q. find_credential h rows = Some q"
  by (induction h rows rule: find_credential.induct) auto

lemma credential_rows_iff:
  "(p, h) \<in> set (credential_rows db) \<longleftrightarrow>
     (\<exists>row. (p, row) \<in> set (projects db) \<and> api_key_hash row = Some h)"
  by (force simp: credential_rows_def List.map_filter_def)

lemma verify_Some:
  "verify_project_credential sha (Inr db) token = Some p \<Longrightarrow>
     py_strip token \<noteq> [] \<and> (p, hash_api_key sha (py_strip token)) \<in> set (credential_rows db)"
  by (auto simp: verify_project_credential_def Let_def dest: find_credential_sound split: if_splits)

lemma verify_error [simp]: "verify_project_credential sha (Inl e) token = None"
  by (simp add: verify_project_credential_def Let_def)

lemma verify_complete:
  assumes "(p, hash_api_key sha (py_strip token)) \<in> set (credential_rows db)" "py_strip token \<noteq> []"
    and "hash_api_key sha (py_strip token) \<noteq> []"
  shows "\<exists>q. verify_project_credential sha (Inr db) token = Some q"
  using assms find_credential_complete [OF assms(1)]
  by (auto simp: verify_project_credential_def Let_def py_strip_def)

lemma set_committed_filenames:
  assumes "distinct (keys (parquet_files db))"
  shows "f \<in> set (committed_filenames db) \<longleftrightarrow>
    (\<exists>n. map_of (parquet_files db) f = Some \<lparr>record_count = n, pq_status = COMMITTED\<rparr>)"
proof -
  have "f \<in> set (committed_filenames db) \<longleftrightarrow>
      (\<exists>row. (f, row) \<in> set (parquet_files db) \<and> pq_status row = COMMITTED)"
    by (force simp: committed_filenames_def)
  also have "\<dots> \<longleftrightarrow> (\<exists>row. map_of (parquet_files db) f = Some row \<and> pq_status row = COMMITTED)"
    using assms by simp
  also have "\<dots> \<longleftrightarrow> (\<exists>n. map_of (parquet_files db) f = Some \<lparr>record_count = n, pq_status = COMMITTED\<rparr>)"
    by (metis (full_types) parquet_row.surjective old.unit.exhaust parquet_row.select_convs(2))
  finally show ?thesis .
qed

lemma distinct_committed_filenames:
  "distinct (keys (parquet_files db)) \<Longrightarrow> distinct (committed_filenames db)"
  unfolding committed_filenames_def distinct_sort by (induction "parquet_files db") (auto simp: distinct_map_filter)

lemma sorted_committed_filenames: "sorted (committed_filenames db)"
  by (simp add: committed_filenames_def)

lemma unat_byte_of_nat: "n < 256 \<Longrightarrow> unat (word_of_nat n :: byte) = n"
  by (simp add: unat_of_nat)

lemma word_of_nat_byte_eq: "a < 256 \<Longrightarrow> b < 256 \<Longrightarrow> (word_of_nat a :: byte) = word_of_nat b \<longleftrightarrow> a = b"
  by (metis unat_byte_of_nat)

lemma of_char_256: "(of_char c :: nat) < 256"
  by (metis char_of_char mod_less_divisor of_char_of zero_less_numeral)

lemma utf8_char_inj:
  assumes "utf8_char c @ xs = utf8_char d @ ys"
  shows "c = d \<and> xs = ys"
proof -
  define m where "m = (of_char c :: nat)"
  define n where "n = (of_char d :: nat)"
  have mn: "m < 256" "n < 256" by (simp_all add: m_def n_def of_char_256)
  have b: "192 + k div 64 < 256" "128 + k mod 64 < 256" if "k < 256" for k :: nat using that by auto
  have "m = n \<and> xs = ys"
    using assms mn b [OF mn(1)] b [OF mn(2)]
    by (auto simp: utf8_char_def Let_def word_of_nat_byte_eq simp flip: m_def n_def
        simp del: of_nat_add of_nat_numeral split: if_splits)
      (metis mod_mult_div_eq)
  then show ?thesis by (auto simp: m_def n_def)
qed

lemma utf8_inj: "utf8 s = utf8 t \<Longrightarrow> s = t"
proof (induction s arbitrary: t)
  case Nil
  then show ?case by (cases t) (auto simp: utf8_def utf8_char_def Let_def split: if_splits)
next
  case (Cons c s)
  then obtain d t' where t: "t = d # t'"
    by (cases t) (auto simp: utf8_def utf8_char_def Let_def split: if_splits)
  with Cons.prems have "utf8_char c @ utf8 s = utf8_char d @ utf8 t'" by (simp add: utf8_def)
  then show ?case using utf8_char_inj Cons.IH t by blast
qed

section \<open>Properties\<close>

lemma create_schema_settled:
  assumes "\<And>t. t \<in> {''projects'', ''materialized_wal_offsets'', ''materialized_wal_records'',
      ''parquet_files'', ''wal_corruption_events'', ''wal_file_lifecycle''} \<Longrightarrow> tbl_has (tables db) t"
    and "\<And>i. i \<in> {''idx_wal_records_file'', ''idx_wal_corruption_file''} \<Longrightarrow> tbl_has (indices db) i"
    and "map_of (tables db) ''projects'' = Some cs" "''api_key_hash'' \<in> set cs \<or> ''api_key'' \<notin> set cs"
  shows "create_schema db = db"
  using assms
  by (simp add: create_schema_def Let_def sql_create_present sql_index_present
      migrate_settled [OF assms(3,4)])

lemma create_schema_again: "create_schema (create_schema db) = create_schema db"
proof -
  obtain cs where "map_of (tables (create_schema db)) ''projects'' = Some cs"
    and "''api_key_hash'' \<in> set cs \<or> ''api_key'' \<notin> set cs"
    by (cases "map_of (tables db) ''projects''")
      (auto simp: create_schema_projects split: if_splits)
  then show ?thesis
    by (intro create_schema_settled) (auto simp: create_schema_has)
qed

text \<open>
  The schema is complete and the initialisation idempotent.  A run that meets no error
  creates the six tables, leaves a table that exists with the columns it has (projects apart,
  which may gain the hash column), and a second run changes nothing; a run that fails changes
  nothing either.
\<close>

theorem initialize_control_store_idempotent:
  "\<exists>db'. initialize_control_store None None db = (Inr (), db') \<and>
     initialize_control_store None None db' = (Inr (), db') \<and>
     {''projects'', ''materialized_wal_offsets'', ''materialized_wal_records'', ''parquet_files'',
       ''wal_corruption_events'', ''wal_file_lifecycle''} \<subseteq> set (keys (tables db')) \<and>
     map_of (tables db) |` (- {''projects''}) \<subseteq>\<^sub>m map_of (tables db') \<and>
     snd (initialize_control_store (Some e) c db) = db \<and>
     snd (initialize_control_store None (Some e) db) = db"
proof -
  have "{''projects'', ''materialized_wal_offsets'', ''materialized_wal_records'', ''parquet_files'',
      ''wal_corruption_events'', ''wal_file_lifecycle''} \<subseteq> set (keys (tables (create_schema db)))"
    unfolding subset_iff tbl_has_iff [symmetric] create_schema_has by blast
  moreover have "map_of (tables db) |` (- {''projects''}) \<subseteq>\<^sub>m map_of (tables (create_schema db))"
    by (auto simp: map_le_def restrict_map_def create_schema_keeps split: if_splits)
  ultimately show ?thesis
    by (simp add: initialize_control_store_def eff_simps create_schema_again)
qed

text \<open>
  A key opens its own project and no other.  If each stored hash is the hash of the key
  issued to the project, no two projects share a key, and the hash of the presented token
  collides with none of the issued ones, then a token is resolved to a project exactly if,
  stripped, it is the key of that project.
\<close>

theorem credential_identifies_project:
  assumes issued: "\<forall>p row h. (p, row) \<in> set (projects db) \<longrightarrow> api_key_hash row = Some h \<longrightarrow>
      h = hash_api_key sha (key_of p)"
    and unshared: "inj_on key_of (set (keys (projects db)))"
    and no_collision: "\<forall>p \<in> set (keys (projects db)).
      hash_api_key sha (py_strip token) = hash_api_key sha (key_of p) \<longrightarrow> py_strip token = key_of p"
    and digest: "hash_api_key sha (py_strip token) \<noteq> []"
  shows "verify_project_credential sha (Inr db) token = Some p \<longleftrightarrow>
    py_strip token \<noteq> [] \<and> py_strip token = key_of p \<and>
    (\<exists>row. (p, row) \<in> set (projects db) \<and> api_key_hash row \<noteq> None)"
    (is "?v = Some p \<longleftrightarrow> ?r")
proof
  have own: "py_strip token \<noteq> [] \<and> py_strip token = key_of q \<and>
      (\<exists>row. (q, row) \<in> set (projects db) \<and> api_key_hash row \<noteq> None)" if "?v = Some q" for q
  proof -
    from verify_Some [OF that] obtain row where "py_strip token \<noteq> []" "(q, row) \<in> set (projects db)"
      "api_key_hash row = Some (hash_api_key sha (py_strip token))"
      by (auto simp: credential_rows_iff)
    moreover from this have "q \<in> set (keys (projects db))"
      and "hash_api_key sha (py_strip token) = hash_api_key sha (key_of q)"
      using issued by force+
    ultimately show ?thesis using no_collision by auto
  qed
  then show "?v = Some p \<Longrightarrow> ?r" by blast
  assume r: ?r
  then obtain row h where row: "(p, row) \<in> set (projects db)" "api_key_hash row = Some h" by auto
  with issued r have "(p, hash_api_key sha (py_strip token)) \<in> set (credential_rows db)"
    by (auto simp: credential_rows_iff)
  with r digest obtain q where q: "?v = Some q" using verify_complete by blast
  with own r have "key_of q = key_of p" "q \<in> set (keys (projects db))" by force+
  moreover from row have "p \<in> set (keys (projects db))" by force
  ultimately have "q = p" using unshared by (metis inj_onD)
  with q show "?v = Some p" by simp
qed

text \<open>
  Queries scan exactly the committed files.  The files handed to a query are those that
  the manifest has as COMMITTED and that are on disk, each once and in the order of their
  names; if the manifest cannot be read, none.
\<close>

theorem committed_files_exact:
  assumes "distinct (keys (parquet_files db))"
  shows "sorted (get_committed_parquet_files (Inr db) dir) \<and>
    distinct (get_committed_parquet_files (Inr db) dir) \<and>
    (f \<in> set (get_committed_parquet_files (Inr db) dir) \<longleftrightarrow>
       (\<exists>n. map_of (parquet_files db) f = Some \<lparr>record_count = n, pq_status = COMMITTED\<rparr>) \<and>
       f \<in> set (keys dir)) \<and>
    get_committed_parquet_files (Inl e) dir = []"
proof -
  have "sorted (get_committed_parquet_files (Inr db) dir)"
    using sorted_filter [of "\<lambda>x. x" "committed_filenames db" "tbl_has dir"]
    by (simp add: get_committed_parquet_files_def sorted_committed_filenames)
  then show ?thesis
    using assms by (auto simp: get_committed_parquet_files_def distinct_committed_filenames
        set_committed_filenames tbl_has_iff)
qed

section \<open>Sample values for the witnesses\<close>

text \<open>A store with two projects whose keys are their names, under a toy digest.\<close>

definition sample_sha :: "byte list \<Rightarrow> string" where
  "sample_sha bs = CHR ''h'' # map (\<lambda>b. char_of (unat b)) bs"

definition sample_store :: control_store where
  "sample_store = empty_store\<lparr>
     projects := [(''a'', \<lparr>proj_name = ''A'', api_key_hash = Some (hash_api_key sample_sha ''ka'')\<rparr>),
                  (''b'', \<lparr>proj_name = ''B'', api_key_hash = Some (hash_api_key sample_sha ''kb'')\<rparr>)],
     parquet_files := [(''y.parquet'', \<lparr>record_count = 1, pq_status = COMMITTED\<rparr>),
                       (''x.parquet'', \<lparr>record_count = 1, pq_status = COMMITTED\<rparr>),
                       (''z.parquet'', \<lparr>record_count = 1, pq_status = COMPACTED\<rparr>)]\<rparr>"

lemma sample_sha_inj: "hash_api_key sample_sha s = hash_api_key sample_sha t \<Longrightarrow> s = t"
proof -
  assume "hash_api_key sample_sha s = hash_api_key sample_sha t"
  then have eq: "map (\<lambda>b. char_of (unat b) :: char) (utf8 s) = map (\<lambda>b. char_of (unat b)) (utf8 t)"
    by (simp add: hash_api_key_def sample_sha_def)
  have "inj (\<lambda>b :: byte. char_of (unat b) :: char)"
  proof (rule injI)
    fix x y :: byte
    assume "(char_of (unat x) :: char) = char_of (unat y)"
    then have "unat x mod 256 = unat y mod 256" by (metis of_char_of)
    then show "x = y"
      using unsigned_less [of x, where ?'a = nat] unsigned_less [of y, where ?'a = nat]
      by (simp add: word_unat_eq_iff)
  qed
  with eq show "s = t" by (intro utf8_inj) (simp add: inj_map_eq_map)
qed

theorem credential_identifies_project_witness:
  "verify_project_credential sample_sha (Inr sample_store) '' kb'' = Some ''b''"
proof -
  have "py_strip '' kb'' = ''kb''" by code_simp
  moreover have "verify_project_credential sample_sha (Inr sample_store) '' kb'' = Some ''b'' \<longleftrightarrow>
    py_strip '' kb'' \<noteq> [] \<and> py_strip '' kb'' = CHR ''k'' # ''b'' \<and>
    (\<exists>row. (''b'', row) \<in> set (projects sample_store) \<and> api_key_hash row \<noteq> None)"
  proof (rule credential_identifies_project [where key_of = "\<lambda>p. CHR ''k'' # p"])
    show "hash_api_key sample_sha (py_strip '' kb'') \<noteq> []"
      by (simp add: hash_api_key_def sample_sha_def)
  qed (auto simp: sample_store_def inj_on_def dest: sample_sha_inj)
  ultimately show ?thesis by (simp add: sample_store_def)
qed

theorem committed_files_exact_witness:
  "get_committed_parquet_files (Inr sample_store) [(''x.parquet'', ()), (''y.parquet'', ())] =
     [''x.parquet'', ''y.parquet'']"
proof -
  have "sorted (get_committed_parquet_files (Inr sample_store) [(''x.parquet'', ()), (''y.parquet'', ())])"
    using committed_files_exact [of sample_store "[(''x.parquet'', ()), (''y.parquet'', ())]"]
    by (simp add: sample_store_def)
  then show ?thesis by code_simp
qed

end
