(* ===== verification/Storage_Lock.thy ===== *)
theory Storage_Lock
  imports Otlp_Rows
begin

text \<open>
  The storage lifecycle lock of backend/app/materializer.py (\<open>storage_lifecycle_lock\<close>): a
  re-entrant lock per process and, below it, an exclusive SQLite transaction on the file
  \<open>storage_lifecycle.lock.db\<close>, held by one connection at a time over all processes.

  An agent is a thread of a process.  The first half of the theory has the statements of the
  context manager as functions and composes them the way one thread runs them; the second
  half interleaves the statements of all agents in a step relation, with the death of a
  process at any point.
\<close>

section \<open>The statements\<close>

text \<open>
  An agent is inside as many \<open>with\<close> blocks as it has frames, innermost first.  A frame is
  at the statement after \<open>_MATERIALIZATION_LOCK.acquire\<close> (\<open>Starting\<close>), at the \<open>yield\<close>
  (\<open>Inside\<close>), or at \<open>_MATERIALIZATION_LOCK.release\<close> (\<open>Closing\<close>).  \<open>rlock\<close> has the owner
  and the recursion count of the lock of a process, \<open>lock_db\<close> the agent whose connection
  holds the exclusive transaction.
\<close>

type_synonym agent = "nat \<times> nat"

datatype lock_phase = Starting | Inside | Closing

record lock_state =
  rlock :: "nat \<Rightarrow> (nat \<times> nat) option"
  lock_db :: "agent option"
  frames :: "agent \<Rightarrow> lock_phase list"

definition lock_init :: lock_state where
  "lock_init = \<lparr> rlock = (\<lambda>_. None), lock_db = None, frames = (\<lambda>_. []) \<rparr>"

text \<open>\<open>_MATERIALIZATION_LOCK.acquire(timeout=\<dots>)\<close>: \<open>None\<close> while another thread owns it.\<close>

definition rlock_acquire :: "agent \<Rightarrow> lock_state \<Rightarrow> lock_state option" where
  "rlock_acquire a s =
    (let count = (case rlock s (fst a) of None \<Rightarrow> Some 0
                  | Some (owner, n) \<Rightarrow> if owner = snd a then Some n else None)
     in map_option (\<lambda>n. s\<lparr>rlock := (rlock s)(fst a \<mapsto> (snd a, n + 1)),
                          frames := (frames s)(a := Starting # frames s a)\<rparr>) count)"

text \<open>
  \<open>CREATE TABLE IF NOT EXISTS\<close> and \<open>BEGIN EXCLUSIVE\<close> on a new connection: \<open>None\<close> while any
  connection, be it one of the same thread, holds the exclusive transaction.
\<close>

definition begin_exclusive :: "agent \<Rightarrow> lock_state \<Rightarrow> lock_state option" where
  "begin_exclusive a s =
    (if lock_db s = None
     then Some (s\<lparr>lock_db := Some a, frames := (frames s)(a := Inside # tl (frames s a))\<rparr>)
     else None)"

text \<open>The \<open>finally\<close> block: \<open>ROLLBACK\<close> and \<open>close\<close> of a connection that holds the transaction, or of one that never got it; then \<open>release\<close>.\<close>

definition rollback_close :: "agent \<Rightarrow> lock_state \<Rightarrow> lock_state" where
  "rollback_close a s = s\<lparr>lock_db := None, frames := (frames s)(a := Closing # tl (frames s a))\<rparr>"

definition fail_close :: "agent \<Rightarrow> lock_state \<Rightarrow> lock_state" where
  "fail_close a s = s\<lparr>frames := (frames s)(a := Closing # tl (frames s a))\<rparr>"

definition rlock_release :: "agent \<Rightarrow> lock_state \<Rightarrow> lock_state" where
  "rlock_release a s =
    (let count = (case rlock s (fst a) of Some (owner, Suc (Suc n)) \<Rightarrow> Some (owner, Suc n) | _ \<Rightarrow> None)
     in s\<lparr>rlock := (rlock s)(fst a := count), frames := (frames s)(a := tl (frames s a))\<rparr>)"

text \<open>The context manager as one thread runs it: up to the \<open>yield\<close>, and from it on.\<close>

definition enter_lock :: "agent \<Rightarrow> lock_state \<Rightarrow> (exn + unit) \<times> lock_state" where
  "enter_lock a s =
    (case rlock_acquire a s of
       None \<Rightarrow> (Inl (Timeout_Error ''Timed out waiting for in-process storage lifecycle lock''), s)
     | Some s1 \<Rightarrow>
         (case begin_exclusive a s1 of
            Some s2 \<Rightarrow> (Inr (), s2)
          | None \<Rightarrow> (Inl (Operational_Error ''database is locked''), rlock_release a (fail_close a s1))))"

definition leave_lock :: "agent \<Rightarrow> lock_state \<Rightarrow> lock_state" where
  "leave_lock a s = rlock_release a (rollback_close a s)"

section \<open>Interleaving\<close>

text \<open>
  One step of any agent, or the death of a process: its threads are gone, its lock with them,
  and the operating system drops the file lock of its connection.
\<close>

inductive lock_step :: "lock_state \<Rightarrow> lock_state \<Rightarrow> bool" where
  step_acquire: "frames s a = [] \<or> hd (frames s a) = Inside \<Longrightarrow> rlock_acquire a s = Some s' \<Longrightarrow> lock_step s s'"
| step_begin: "frames s a = Starting # fs \<Longrightarrow> begin_exclusive a s = Some s' \<Longrightarrow> lock_step s s'"
| step_busy: "frames s a = Starting # fs \<Longrightarrow> begin_exclusive a s = None \<Longrightarrow> lock_step s (fail_close a s)"
| step_leave: "frames s a = Inside # fs \<Longrightarrow> lock_step s (rollback_close a s)"
| step_release: "frames s a = Closing # fs \<Longrightarrow> lock_step s (rlock_release a s)"
| step_crash: "lock_step s
    (s\<lparr>rlock := (rlock s)(p := None),
       lock_db := (case lock_db s of Some b \<Rightarrow> if fst b = p then None else Some b | None \<Rightarrow> None),
       frames := (\<lambda>b. if fst b = p then [] else frames s b)\<rparr>)"

inductive lock_reachable :: "lock_state \<Rightarrow> bool" where
  reach_init: "lock_reachable lock_init"
| reach_step: "lock_reachable s \<Longrightarrow> lock_step s s' \<Longrightarrow> lock_reachable s'"

inductive_cases lock_step_E: "lock_step s s'"

text \<open>
  The invariant: the lock of a process counts the frames of its owner, no other thread of the
  process has frames, a block is only entered from inside another, and the exclusive
  transaction belongs to the one agent that is inside, once.
\<close>

definition lock_inv :: "lock_state \<Rightarrow> bool" where
  "lock_inv s \<longleftrightarrow>
     (\<forall>p t. case rlock s p of None \<Rightarrow> frames s (p, t) = []
        | Some (owner, n) \<Rightarrow> n = length (frames s (p, owner)) \<and> n > 0 \<and>
            (t \<noteq> owner \<longrightarrow> frames s (p, t) = [])) \<and>
     (\<forall>a. list_all (\<lambda>f. f = Inside) (tl (frames s a))) \<and>
     (\<forall>a. count_list (frames s a) Inside = (if lock_db s = Some a then 1 else 0))"

definition inside :: "lock_state \<Rightarrow> agent \<Rightarrow> bool" where
  "inside s a \<longleftrightarrow> Inside \<in> set (frames s a)"

section \<open>Lemmas\<close>

lemma lock_inv_owner:
  "lock_inv s \<Longrightarrow> case rlock s p of None \<Rightarrow> frames s (p, t) = []
     | Some (owner, n) \<Rightarrow> n = length (frames s (p, owner)) \<and> n > 0 \<and>
         (t \<noteq> owner \<longrightarrow> frames s (p, t) = [])"
  unfolding lock_inv_def by blast

lemma lock_inv_rlock_None: "lock_inv s \<Longrightarrow> rlock s p = None \<Longrightarrow> frames s (p, t) = []"
  using lock_inv_owner [of s p t] by simp

lemma lock_inv_rlock_Some:
  "lock_inv s \<Longrightarrow> rlock s p = Some (u, n) \<Longrightarrow>
     n = length (frames s (p, u)) \<and> n > 0 \<and> (t \<noteq> u \<longrightarrow> frames s (p, t) = [])"
  using lock_inv_owner [of s p t] by auto

lemma lock_inv_rlock:
  assumes "lock_inv s" "frames s (p, t) = f # fs"
  shows "rlock s p = Some (t, Suc (length fs))"
proof (cases "rlock s p")
  case None
  with lock_inv_rlock_None [OF assms(1)] assms(2) show ?thesis by simp
next
  case (Some un)
  then obtain u n where un: "rlock s p = Some (u, n)" by (cases un) simp
  with lock_inv_rlock_Some [OF assms(1) un, of t] assms(2) show ?thesis by (cases "t = u") auto
qed

lemma lock_inv_tl: "lock_inv s \<Longrightarrow> frames s a = f # fs \<Longrightarrow> list_all (\<lambda>f. f = Inside) fs"
  unfolding lock_inv_def by (metis list.sel(3))

lemma lock_inv_count: "lock_inv s \<Longrightarrow> count_list (frames s a) Inside = (if lock_db s = Some a then 1 else 0)"
  unfolding lock_inv_def by blast

lemma lock_invI:
  assumes "\<And>p t. rlock s p = None \<Longrightarrow> frames s (p, t) = []"
    and "\<And>p t u n. rlock s p = Some (u, n) \<Longrightarrow>
      n = length (frames s (p, u)) \<and> n > 0 \<and> (t \<noteq> u \<longrightarrow> frames s (p, t) = [])"
    and "\<And>a f fs. frames s a = f # fs \<Longrightarrow> list_all (\<lambda>f. f = Inside) fs"
    and "\<And>a. count_list (frames s a) Inside = (if lock_db s = Some a then 1 else 0)"
  shows "lock_inv s"
proof -
  have "list_all (\<lambda>f. f = Inside) (tl (frames s a))" for a
    using assms(3) [of a] by (cases "frames s a") auto
  with assms(1,2,4) show ?thesis by (auto simp: lock_inv_def split: option.splits)
qed

lemma lock_inv_init: "lock_inv lock_init"
  by (simp add: lock_inv_def lock_init_def)

lemmas lock_inv_facts = lock_inv_rlock_None lock_inv_rlock_Some lock_inv_tl lock_inv_count

lemma lock_inv_acquire:
  assumes inv: "lock_inv s" and idle: "frames s a = [] \<or> hd (frames s a) = Inside"
    and acq: "rlock_acquire a s = Some s'"
  shows "lock_inv s'"
proof -
  obtain p t where a: "a = (p, t)" by (cases a)
  have all: "list_all (\<lambda>f. f = Inside) (frames s a)"
    using lock_inv_tl [OF inv, of a] idle by (cases "frames s a") auto
  have s': "rlock s' = (rlock s)(p \<mapsto> (t, Suc (length (frames s a))))" "lock_db s' = lock_db s"
    "frames s' = (frames s)(a := Starting # frames s a)"
    and others: "u \<noteq> t \<Longrightarrow> frames s (p, u) = []" for u
    using acq lock_inv_rlock_None [OF inv, of p] lock_inv_rlock_Some [OF inv, of p t _ u]
      lock_inv_rlock_Some [OF inv, of p t]
    by (auto simp: a rlock_acquire_def split: option.splits if_splits prod.splits)
  show ?thesis
  proof (rule lock_invI)
    show "rlock s' q = None \<Longrightarrow> frames s' (q, u) = []" for q u
      using lock_inv_rlock_None [OF inv, of q u] by (auto simp: s' a split: if_splits)
    show "rlock s' q = Some (v, n) \<Longrightarrow>
        n = length (frames s' (q, v)) \<and> 0 < n \<and> (u \<noteq> v \<longrightarrow> frames s' (q, u) = [])" for q u v n
      using lock_inv_rlock_Some [OF inv, of q v n u] others by (auto simp: s' a split: if_splits)
    show "frames s' b = f # fs \<Longrightarrow> list_all (\<lambda>f. f = Inside) fs" for b f fs
      using lock_inv_tl [OF inv, of b f fs] all by (auto simp: s' split: if_splits)
    show "count_list (frames s' b) Inside = (if lock_db s' = Some b then 1 else 0)" for b
      using lock_inv_count [OF inv, of b] by (auto simp: s')
  qed
qed

text \<open>A step that only changes the phase of the innermost frame, and the holder with it.\<close>

lemma lock_inv_phase:
  assumes inv: "lock_inv s" and fr: "frames s a = f # fs"
    and s': "rlock s' = rlock s" "frames s' = (frames s)(a := g # fs)"
    and count: "\<And>b. count_list (frames s' b) Inside = (if lock_db s' = Some b then 1 else 0)"
  shows "lock_inv s'"
proof (rule lock_invI)
  have same: "length (frames s' b) = length (frames s b)" for b by (simp add: s' fr)
  show "rlock s' q = None \<Longrightarrow> frames s' (q, u) = []" for q u
    using lock_inv_rlock_None [OF inv, of q u] same [of "(q, u)"] by (simp add: s'(1))
  show "rlock s' q = Some (v, n) \<Longrightarrow>
      n = length (frames s' (q, v)) \<and> 0 < n \<and> (u \<noteq> v \<longrightarrow> frames s' (q, u) = [])" for q u v n
    using lock_inv_rlock_Some [OF inv, of q v n u] same [of "(q, u)"] same [of "(q, v)"]
    by (auto simp: s'(1))
  show "frames s' b = h # hs \<Longrightarrow> list_all (\<lambda>f. f = Inside) hs" for b h hs
    using lock_inv_tl [OF inv, of b] fr by (auto simp: s' split: if_splits)
qed (rule count)

lemma lock_inv_release:
  assumes inv: "lock_inv s" and fr: "frames s a = Closing # fs"
  shows "lock_inv (rlock_release a s)"
proof -
  obtain p t where a: "a = (p, t)" by (cases a)
  have own: "rlock s p = Some (t, Suc (length fs))" using lock_inv_rlock [OF inv] fr a by blast
  let ?s = "rlock_release a s"
  have s': "rlock ?s = (rlock s)(p := (if fs = [] then None else Some (t, length fs)))"
    "lock_db ?s = lock_db s" "frames ?s = (frames s)(a := fs)"
    using own fr by (cases fs; simp add: rlock_release_def a)+
  show ?thesis
  proof (rule lock_invI)
    show "rlock ?s q = None \<Longrightarrow> frames ?s (q, u) = []" for q u
      using lock_inv_rlock_None [OF inv, of q u] lock_inv_rlock_Some [OF inv own, of u]
      unfolding s' by (auto simp: a split: if_splits)
    show "rlock ?s q = Some (v, n) \<Longrightarrow>
        n = length (frames ?s (q, v)) \<and> 0 < n \<and> (u \<noteq> v \<longrightarrow> frames ?s (q, u) = [])" for q u v n
      using lock_inv_rlock_Some [OF inv, of q v n u] lock_inv_rlock_Some [OF inv own, of u]
      unfolding s' by (auto simp: a split: if_splits)
    show "frames ?s b = f # gs \<Longrightarrow> list_all (\<lambda>f. f = Inside) gs" for b f gs
      using lock_inv_tl [OF inv, of b] lock_inv_tl [OF inv fr] unfolding s' by (auto split: if_splits)
    show "count_list (frames ?s b) Inside = (if lock_db ?s = Some b then 1 else 0)" for b
      using lock_inv_count [OF inv, of b] fr unfolding s' by auto
  qed
qed

lemma lock_inv_crash:
  assumes inv: "lock_inv s"
  shows "lock_inv (s\<lparr>rlock := (rlock s)(p := None),
       lock_db := (case lock_db s of Some b \<Rightarrow> if fst b = p then None else Some b | None \<Rightarrow> None),
       frames := (\<lambda>b. if fst b = p then [] else frames s b)\<rparr>)" (is "lock_inv ?s")
proof (rule lock_invI)
  show "rlock ?s q = None \<Longrightarrow> frames ?s (q, u) = []" for q u
    using lock_inv_rlock_None [OF inv, of q u] by (auto split: if_splits)
  show "rlock ?s q = Some (v, n) \<Longrightarrow>
      n = length (frames ?s (q, v)) \<and> 0 < n \<and> (u \<noteq> v \<longrightarrow> frames ?s (q, u) = [])" for q u v n
    using lock_inv_rlock_Some [OF inv, of q v n u] by (auto split: if_splits)
  show "frames ?s b = f # fs \<Longrightarrow> list_all (\<lambda>f. f = Inside) fs" for b f fs
    using lock_inv_tl [OF inv, of b f fs] by (auto split: if_splits)
  show "count_list (frames ?s b) Inside = (if lock_db ?s = Some b then 1 else 0)" for b
    using lock_inv_count [OF inv, of b] by (auto split: option.splits if_splits)
qed

lemma lock_inv_step: "lock_inv s \<Longrightarrow> lock_step s s' \<Longrightarrow> lock_inv s'"
proof (erule lock_step_E)
  fix a
  assume "lock_inv s" "frames s a = [] \<or> hd (frames s a) = Inside" "rlock_acquire a s = Some s'"
  then show ?thesis by (rule lock_inv_acquire)
next
  fix a fs
  assume inv: "lock_inv s" and fr: "frames s a = Starting # fs" and b: "begin_exclusive a s = Some s'"
  show ?thesis
    using b lock_inv_count [OF inv] fr lock_inv_count [OF inv, of a]
    by (intro lock_inv_phase [OF inv fr]) (auto simp: begin_exclusive_def split: if_splits)
next
  fix a fs
  assume inv: "lock_inv s" and fr: "frames s a = Starting # fs" and s': "s' = fail_close a s"
  show ?thesis
    using lock_inv_count [OF inv] fr lock_inv_count [OF inv, of a]
    by (intro lock_inv_phase [OF inv fr]) (auto simp: s' fail_close_def)
next
  fix a fs
  assume inv: "lock_inv s" and fr: "frames s a = Inside # fs" and s': "s' = rollback_close a s"
  show ?thesis
    using lock_inv_count [OF inv] fr lock_inv_count [OF inv, of a]
    by (intro lock_inv_phase [OF inv fr]) (auto simp: s' rollback_close_def split: if_splits)
next
  fix a fs
  assume "lock_inv s" "frames s a = Closing # fs" "s' = rlock_release a s"
  then show ?thesis using lock_inv_release by blast
qed (simp add: lock_inv_crash)

lemma lock_reachable_inv: "lock_reachable s \<Longrightarrow> lock_inv s"
  by (induction rule: lock_reachable.induct) (auto intro: lock_inv_init lock_inv_step)

lemma inside_holder: "lock_inv s \<Longrightarrow> inside s a \<longleftrightarrow> lock_db s = Some a"
  using lock_inv_count [of s a] count_list_0_iff [of "frames s a" Inside]
  by (auto simp: inside_def split: if_splits)

section \<open>Properties\<close>

text \<open>
  C15: Mutual exclusion.  However the threads of however many processes interleave, and
  whichever processes die, at most one thread is at the protected statement, in at most one of
  its blocks, and it is the one whose connection holds the exclusive transaction.
\<close>

theorem lock_mutual_exclusion:
  assumes "lock_reachable s" "inside s a" "inside s b"
  shows "a = b \<and> lock_db s = Some a \<and> count_list (frames s a) Inside = 1"
  using assms lock_reachable_inv [of s] lock_inv_count [of s a]
  by (simp add: inside_holder)

text \<open>
  The lock is not re-entrant.  A thread that is inside and enters the block again gets past
  the re-entrant lock of the process and then always fails with the database locked, since the
  outer block holds the exclusive transaction on another connection; the failure restores the
  state.  A cleanup nested in a materialisation can therefore never run.
\<close>

theorem lock_nested_fails:
  assumes "lock_reachable s" "frames s a = Inside # fs"
  shows "enter_lock a s = (Inl (Operational_Error ''database is locked''), s)"
proof -
  obtain p t where a: "a = (p, t)" by (cases a)
  have inv: "lock_inv s" using assms(1) by (rule lock_reachable_inv)
  have "inside s a" using assms(2) by (simp add: inside_def)
  then have "lock_db s = Some a" using inv by (simp add: inside_holder)
  moreover have "rlock s p = Some (t, Suc (length fs))"
    using lock_inv_rlock [OF inv] assms(2) a by blast
  ultimately show ?thesis
    by (simp add: enter_lock_def rlock_acquire_def begin_exclusive_def rlock_release_def fail_close_def a)
      (auto simp: fun_eq_iff a intro!: lock_state.equality)
qed

text \<open>The lock as seen by an agent while nobody is in the block.\<close>

definition lock_idle :: "agent \<Rightarrow> lock_state \<Rightarrow> bool" where
  "lock_idle a s \<longleftrightarrow> rlock s (fst a) = None \<and> lock_db s = None \<and> frames s a = []"

definition lock_taken :: "agent \<Rightarrow> lock_state \<Rightarrow> lock_state" where
  "lock_taken a s = s\<lparr>rlock := (rlock s)(fst a \<mapsto> (snd a, 1)), lock_db := Some a,
     frames := (frames s)(a := [Inside])\<rparr>"

lemma enter_lock_idle: "lock_idle a s \<Longrightarrow> enter_lock a s = (Inr (), lock_taken a s)"
  by (auto simp: lock_idle_def lock_taken_def enter_lock_def rlock_acquire_def begin_exclusive_def
      intro!: lock_state.equality)

lemma leave_lock_taken: "lock_idle a s \<Longrightarrow> leave_lock a (lock_taken a s) = s"
  by (auto simp: lock_idle_def lock_taken_def leave_lock_def rollback_close_def rlock_release_def
      fun_eq_iff intro!: lock_state.equality)

lemma lock_taken_inside [simp]: "frames (lock_taken a s) a = [Inside]"
  by (simp add: lock_taken_def)

lemma enter_lock_taken:
  "enter_lock a (lock_taken a s) = (Inl (Operational_Error ''database is locked''), lock_taken a s)"
  by (auto simp: lock_taken_def enter_lock_def rlock_acquire_def begin_exclusive_def
      rlock_release_def fail_close_def fun_eq_iff intro!: lock_state.equality)

text \<open>Entering and leaving are runs of steps of the interleaving.\<close>

lemma enter_lock_steps:
  assumes "frames s a = [] \<or> hd (frames s a) = Inside" "enter_lock a s = (r, s')"
  shows "lock_step\<^sup>*\<^sup>* s s'"
proof (cases "rlock_acquire a s")
  case None
  with assms(2) show ?thesis by (simp add: enter_lock_def)
next
  case (Some s1)
  have fr: "frames s1 a = Starting # frames s a"
    using Some by (auto simp: rlock_acquire_def split: option.splits if_splits)
  have 1: "lock_step s s1" using assms(1) Some by (rule step_acquire)
  show ?thesis
  proof (cases "begin_exclusive a s1")
    case None
    have "lock_step s1 (fail_close a s1)" using fr None by (rule step_busy)
    moreover have "lock_step (fail_close a s1) (rlock_release a (fail_close a s1))"
      by (rule step_release) (simp add: fail_close_def fr)
    moreover have "s' = rlock_release a (fail_close a s1)"
      using assms(2) Some None by (simp add: enter_lock_def)
    ultimately show ?thesis using 1 by (meson converse_rtranclp_into_rtranclp rtranclp.rtrancl_refl)
  next
    case (Some s2)
    then have "s' = s2" using assms(2) \<open>rlock_acquire a s = Some s1\<close> by (simp add: enter_lock_def)
    with 1 step_begin [OF fr Some] show ?thesis
      by (meson converse_rtranclp_into_rtranclp rtranclp.rtrancl_refl)
  qed
qed

lemma reachable_steps: "lock_step\<^sup>*\<^sup>* s s' \<Longrightarrow> lock_reachable s \<Longrightarrow> lock_reachable s'"
  by (induction rule: rtranclp_induct) (auto intro: reach_step)

lemma lock_taken_reachable: "lock_reachable (lock_taken a lock_init)"
proof -
  have "lock_idle a lock_init" by (simp add: lock_idle_def lock_init_def)
  then have "lock_step\<^sup>*\<^sup>* lock_init (lock_taken a lock_init)"
    by (intro enter_lock_steps [of _ a]) (simp_all add: enter_lock_idle, simp add: lock_init_def)
  then show ?thesis by (rule reachable_steps) (rule reach_init)
qed

theorem lock_mutual_exclusion_witness:
  "lock_db (lock_taken (1, 2) lock_init) = Some (1, 2) \<and>
     count_list (frames (lock_taken (1, 2) lock_init) (1, 2)) Inside = 1"
proof -
  have "inside (lock_taken (1, 2) lock_init) (1, 2)" by (simp add: inside_def)
  from lock_mutual_exclusion [OF lock_taken_reachable this this] show ?thesis by blast
qed

theorem lock_nested_fails_witness:
  "fst (enter_lock (1, 2) (lock_taken (1, 2) lock_init)) = Inl (Operational_Error ''database is locked'')"
  using lock_nested_fails [OF lock_taken_reachable lock_taken_inside, of "(1, 2)"] by simp

end
