(* ===== verification/Parquet_Store.thy ===== *)
theory Parquet_Store
  imports Control Storage_Lock Wal_Names
begin

text \<open>
  The Parquet store of backend/app/materializer.py: the removal of orphans
  (\<open>cleanup_orphaned_parquet_files\<close>), the commit of a batch (\<open>_flush_batch\<close>) and the
  compaction (\<open>compact_parquet_files\<close>), as sequences of atomic steps on the directory and the
  manifest, so that a crash is a prefix of the sequence.  Here every file access and every
  transaction succeeds, but for the exceptions that the environment raises (\<open>from_pylist\<close>, the
  reading of a Parquet file, \<open>unlink\<close>); the theories Io_Errors (\<open>flush_batch_io\<close>) and
  Compaction_Errors (\<open>compaction_body_io\<close>) have the failing ones.
\<close>

section \<open>The world\<close>

text \<open>
  The files and the database.  A WAL segment is its bytes, a Parquet file the rows in it (a
  temporary file whatever was written so far); \<open>ticks\<close> counts the file names drawn.
\<close>

record world =
  wal_dir :: "(string, byte list) table"
  parquet_dir :: "(string, span_row list) table"
  control :: control_store
  lifecycle_lock :: lock_state
  ticks :: nat

text \<open>\<open>with storage_lifecycle_lock(settings): body\<close>, run by one thread.\<close>

definition with_lifecycle_lock :: "agent \<Rightarrow> (world, exn, 'a) eff \<Rightarrow> (world, exn, 'a) eff" where
  "with_lifecycle_lock a body w =
    (case enter_lock a (lifecycle_lock w) of
       (Inl e, l) \<Rightarrow> (Inl e, w\<lparr>lifecycle_lock := l\<rparr>)
     | (Inr _, l) \<Rightarrow>
         (case body (w\<lparr>lifecycle_lock := l\<rparr>) of
            (r, w') \<Rightarrow> (r, w'\<lparr>lifecycle_lock := leave_lock a (lifecycle_lock w')\<rparr>)))"

section \<open>Steps on the directory\<close>

definition write_parquet :: "string \<Rightarrow> span_row list \<Rightarrow> world \<Rightarrow> world" where
  "write_parquet name rows w = w\<lparr>parquet_dir := tbl_put name rows (parquet_dir w)\<rparr>"

definition unlink_parquet :: "env \<Rightarrow> string \<Rightarrow> world \<Rightarrow> world" where
  "unlink_parquet ev name w =
     (if unlink_fails ev name then w else w\<lparr>parquet_dir := tbl_remove name (parquet_dir w)\<rparr>)"

definition replace_parquet :: "string \<Rightarrow> string \<Rightarrow> world \<Rightarrow> world" where
  "replace_parquet source target w =
    (case map_of (parquet_dir w) source of
       None \<Rightarrow> w
     | Some rows \<Rightarrow> w\<lparr>parquet_dir := tbl_put target rows (tbl_remove source (parquet_dir w))\<rparr>)"

definition run_steps :: "(world \<Rightarrow> world) list \<Rightarrow> world \<Rightarrow> world" where
  "run_steps steps w = fold (\<lambda>f. f) steps w"

section \<open>Orphans\<close>

text \<open>
  \<open>cleanup_orphaned_parquet_files\<close>: the temporary files, then the Parquet files that are not
  committed.  A failing \<open>unlink\<close> is logged and not counted; if the manifest cannot be read
  the second half is skipped.
\<close>

definition unlink_all :: "env \<Rightarrow> string list \<Rightarrow> world \<Rightarrow> nat \<times> world" where
  "unlink_all ev names w =
     (length (filter (\<lambda>f. \<not> unlink_fails ev f) names), fold (unlink_parquet ev) names w)"

definition cleanup_orphaned_parquet_files ::
  "env \<Rightarrow> exn option \<Rightarrow> world \<Rightarrow> nat \<times> world" where
  "cleanup_orphaned_parquet_files ev select_error w =
    (let (deleted_count, w1) = unlink_all ev (filter (ends_with ''.tmp'') (keys (parquet_dir w))) w in
     case select_error of
       Some e \<Rightarrow> (deleted_count, w1)
     | None \<Rightarrow>
         (let committed = set (committed_filenames (control w1));
              orphans = filter (\<lambda>f. ends_with ''.parquet'' f \<and> f \<notin> committed) (keys (parquet_dir w1));
              (n, w2) = unlink_all ev orphans w1
          in (deleted_count + n, w2)))"

section \<open>Committing a batch\<close>

text \<open>The names drawn at a tick.\<close>

definition batch_filename :: "env \<Rightarrow> nat \<Rightarrow> string" where
  "batch_filename ev n = ''spans-'' @ utc_stamp ev n @ ''-'' @ take 12 (uuid4_hex ev n) @ ''.parquet''"

definition batch_temp :: "env \<Rightarrow> nat \<Rightarrow> string" where
  "batch_temp ev n = ''tmp-'' @ utc_stamp ev n @ ''-'' @ take 12 (uuid4_hex ev n) @ ''.parquet.tmp''"

definition compacted_filename :: "env \<Rightarrow> nat \<Rightarrow> string" where
  "compacted_filename ev n =
     ''spans-compacted-'' @ utc_stamp ev n @ ''-'' @ take 8 (uuid4_hex ev n) @ ''.parquet''"

definition compacted_temp :: "env \<Rightarrow> nat \<Rightarrow> string" where
  "compacted_temp ev n = ''tmp-'' @ compacted_filename ev n @ ''.tmp''"

definition draw_tick :: "world \<Rightarrow> world" where
  "draw_tick w = w\<lparr>ticks := Suc (ticks w)\<rparr>"

text \<open>The transaction of \<open>_flush_batch\<close>.\<close>

definition raise_offset :: "string \<Rightarrow> nat \<Rightarrow> (string, offset_row) table \<Rightarrow> (string, offset_row) table" where
  "raise_offset wal_file max_off =
     tbl_upsert wal_file \<lparr>max_offset = max_off, is_fully_processed = False\<rparr>
       (\<lambda>old. old\<lparr>max_offset := max (max_offset old) max_off\<rparr>)"

definition commit_batch :: "string \<Rightarrow> nat \<Rightarrow> (string \<times> nat \<times> string) list \<Rightarrow>
    (string, nat) table \<Rightarrow> control_store \<Rightarrow> control_store" where
  "commit_batch final_filename row_count entries file_offsets db = db\<lparr>
     parquet_files := tbl_replace final_filename
       \<lparr>record_count = row_count, pq_status = COMMITTED\<rparr> (parquet_files db),
     materialized_wal_records :=
       fold (\<lambda>(f, off, p). tbl_ignore (f, off) p) entries (materialized_wal_records db),
     materialized_wal_offsets :=
       fold (\<lambda>(f, off). raise_offset f off) file_offsets (materialized_wal_offsets db)\<rparr>"

text \<open>
  The steps of \<open>_flush_batch\<close> once the table is built: the temporary file with what has been
  written at some moment, the complete temporary file, the rename, the transaction.
\<close>

definition flush_steps :: "env \<Rightarrow> nat \<Rightarrow> span_row list \<Rightarrow> span_row list \<Rightarrow>
    (string \<times> nat \<times> string) list \<Rightarrow> (string, nat) table \<Rightarrow> (world \<Rightarrow> world) list" where
  "flush_steps ev n partial rows entries file_offsets =
    [write_parquet (batch_temp ev n) partial,
     write_parquet (batch_temp ev n) rows,
     replace_parquet (batch_temp ev n) (batch_filename ev n),
     (\<lambda>w. w\<lparr>control := commit_batch (batch_filename ev n) (length rows) entries file_offsets (control w)\<rparr>)]"

text \<open>
  \<open>_flush_batch\<close>: \<open>from_pylist\<close> raises before anything is written.  A failing \<open>mkdir\<close>, write,
  rename or transaction is in \<open>flush_batch_io\<close> of Io_Errors, which is this function without them.
\<close>

definition flush_batch :: "env \<Rightarrow> span_row list \<Rightarrow> (string \<times> nat \<times> string) list \<Rightarrow>
    (string, nat) table \<Rightarrow> (world, exn, string) eff" where
  "flush_batch ev rows entries file_offsets w =
    (if rows = [] then (Inr '''', w)
     else let n = ticks w; w = draw_tick w in
       if list_all row_fits rows
       then (Inr (batch_filename ev n), run_steps (flush_steps ev n [] rows entries file_offsets) w)
       else (Inl (arrow_error ev), w))"

section \<open>Compaction\<close>

text \<open>The transaction of \<open>compact_parquet_files\<close>; \<open>None\<close> if the new name is taken (it is rolled back).\<close>

definition commit_compaction :: "string \<Rightarrow> nat \<Rightarrow> string list \<Rightarrow> control_store \<Rightarrow> control_store option" where
  "commit_compaction name total_rows to_merge db =
     map_option
       (\<lambda>t. db\<lparr>parquet_files := fold (\<lambda>old. tbl_update old (\<lambda>row. row\<lparr>pq_status := COMPACTED\<rparr>)) to_merge t\<rparr>)
       (tbl_insert name \<lparr>record_count = total_rows, pq_status = COMMITTED\<rparr> (parquet_files db))"

text \<open>
  The merged file: what has been written of it at some moment, the closed file, the rename.  A
  writer that cannot close its file is in \<open>publish_compacted\<close> of Compaction_Errors.
\<close>

definition compact_write_steps :: "env \<Rightarrow> nat \<Rightarrow> span_row list \<Rightarrow> span_row list \<Rightarrow> (world \<Rightarrow> world) list" where
  "compact_write_steps ev n partial rows =
    [write_parquet (compacted_temp ev n) partial,
     write_parquet (compacted_temp ev n) rows,
     replace_parquet (compacted_temp ev n) (compacted_filename ev n)]"

text \<open>What the loop over the files to merge writes, or the first error it meets.\<close>

fun read_batches :: "env \<Rightarrow> world \<Rightarrow> string list \<Rightarrow> exn + span_row list" where
  "read_batches ev w [] = Inr []"
| "read_batches ev w (f # fs) =
    (case parquet_read_error ev f of
       Some e \<Rightarrow> Inl e
     | None \<Rightarrow> (case read_batches ev w fs of
         Inl e \<Rightarrow> Inl e
       | Inr rows \<Rightarrow> Inr (the (map_of (parquet_dir w) f) @ rows)))"

text \<open>
  \<open>compact_parquet_files\<close> inside the lock.  A failing \<open>mkdir\<close>, query, write, \<open>close\<close>, \<open>unlink\<close> of
  the temporary file, rename or transaction is in \<open>compaction_body_io\<close> of Compaction_Errors, which
  is this function without them (\<open>compact_no_fault\<close>).
\<close>

definition compaction_body :: "env \<Rightarrow> nat \<Rightarrow> (world, exn, nat) eff" where
  "compaction_body ev max_files_to_merge w =
    (let valid_files = get_committed_parquet_files (Inr (control w)) (parquet_dir w) in
     if length valid_files \<le> 1 then (Inr 0, w)
     else let to_merge = take max_files_to_merge valid_files; n = ticks w; w = draw_tick w in
     case read_batches ev w to_merge of
       Inl e \<Rightarrow> (Inl e, w\<lparr>parquet_dir := tbl_remove (compacted_temp ev n) (parquet_dir w)\<rparr>)
     | Inr rows \<Rightarrow>
         if rows = [] then (Inr 0, w\<lparr>parquet_dir := tbl_remove (compacted_temp ev n) (parquet_dir w)\<rparr>)
         else let w = run_steps (compact_write_steps ev n [] rows) w in
           case commit_compaction (compacted_filename ev n) (length rows) to_merge (control w) of
             None \<Rightarrow> (Inl (Integrity_Error ''UNIQUE constraint failed: parquet_files.filename''), w)
           | Some db \<Rightarrow> (Inr (length rows), fold (unlink_parquet ev) to_merge (w\<lparr>control := db\<rparr>)))"

definition compact_parquet_files :: "env \<Rightarrow> agent \<Rightarrow> nat \<Rightarrow> (world, exn, nat) eff" where
  "compact_parquet_files ev a max_files_to_merge =
     with_lifecycle_lock a (compaction_body ev max_files_to_merge)"

text \<open>The steps a successful compaction performs, for a crash between any two of them.\<close>

definition compaction_steps :: "env \<Rightarrow> nat \<Rightarrow> span_row list \<Rightarrow> span_row list \<Rightarrow> string list \<Rightarrow>
    (world \<Rightarrow> world) list" where
  "compaction_steps ev n partial rows to_merge =
    compact_write_steps ev n partial rows @
    [(\<lambda>w. case commit_compaction (compacted_filename ev n) (length rows) to_merge (control w) of
        None \<Rightarrow> w | Some db \<Rightarrow> w\<lparr>control := db\<rparr>)] @
    map (unlink_parquet ev) to_merge"

section \<open>The invariant and what queries see\<close>

text \<open>The rows a query reads: the contents of the committed files, in the order of their names.\<close>

definition visible_rows :: "world \<Rightarrow> span_row list" where
  "visible_rows w = concat (map (\<lambda>f. the (map_of (parquet_dir w) f))
     (get_committed_parquet_files (Inr (control w)) (parquet_dir w)))"

definition visible :: "world \<Rightarrow> span_row multiset" where
  "visible w = mset (visible_rows w)"

text \<open>
  The names that are drawn are distinct: \<open>uuid.uuid4\<close> and the clock in microseconds never
  deliver the same name twice.
\<close>

definition unique_names :: "env \<Rightarrow> bool" where
  "unique_names ev \<longleftrightarrow> (\<forall>m n. m < n \<longrightarrow>
     {batch_filename ev m, compacted_filename ev m} \<inter> {batch_filename ev n, compacted_filename ev n} = {})"

text \<open>
  Every committed file is on disk under a Parquet name with the number of rows the manifest
  states, and the manifest has none of the names still to be drawn.
\<close>

definition store_inv :: "env \<Rightarrow> world \<Rightarrow> bool" where
  "store_inv ev w \<longleftrightarrow>
     distinct (keys (parquet_dir w)) \<and> distinct (keys (parquet_files (control w))) \<and>
     (\<forall>f n. map_of (parquet_files (control w)) f = Some \<lparr>record_count = n, pq_status = COMMITTED\<rparr> \<longrightarrow>
        ends_with ''.parquet'' f \<and> (\<exists>rows. map_of (parquet_dir w) f = Some rows \<and> length rows = n)) \<and>
     (\<forall>n \<ge> ticks w. batch_filename ev n \<notin> set (keys (parquet_files (control w))) \<and>
        compacted_filename ev n \<notin> set (keys (parquet_files (control w))))"

definition committed_in :: "control_store \<Rightarrow> string set" where
  "committed_in db =
     {f. \<exists>n. map_of (parquet_files db) f = Some \<lparr>record_count = n, pq_status = COMMITTED\<rparr>}"

definition file_rows :: "(string, span_row list) table \<Rightarrow> string \<Rightarrow> span_row multiset" where
  "file_rows dir f = (case map_of dir f of None \<Rightarrow> {#} | Some rows \<Rightarrow> mset rows)"

section \<open>Lemmas on the view\<close>

lemma finite_committed_in [simp]: "finite (committed_in db)"
proof (rule finite_subset)
  show "committed_in db \<subseteq> dom (map_of (parquet_files db))" by (auto simp: committed_in_def)
qed (rule finite_dom_map_of)

lemma mset_concat_distinct:
  "distinct xs \<Longrightarrow> mset (concat (map g xs)) = (\<Sum>x \<in> set xs. mset (g x))"
  by (induction xs) auto

lemma set_committed: "distinct (keys (parquet_files db)) \<Longrightarrow> set (committed_filenames db) = committed_in db"
  by (auto simp: set_committed_filenames committed_in_def)

lemma visible_sum:
  assumes "distinct (keys (parquet_files (control w)))"
  shows "visible w = (\<Sum>f \<in> committed_in (control w). file_rows (parquet_dir w) f)"
proof -
  let ?L = "get_committed_parquet_files (Inr (control w)) (parquet_dir w)"
  have L: "distinct ?L" "set ?L = {f \<in> committed_in (control w). tbl_has (parquet_dir w) f}"
    using assms by (auto simp: get_committed_parquet_files_def distinct_committed_filenames set_committed)
  have "visible w = (\<Sum>f \<in> set ?L. mset (the (map_of (parquet_dir w) f)))"
    unfolding visible_def visible_rows_def using L(1) by (rule mset_concat_distinct)
  also have "\<dots> = (\<Sum>f \<in> set ?L. file_rows (parquet_dir w) f)"
    by (rule sum.cong) (auto simp: L(2) file_rows_def tbl_has_map_of)
  also have "\<dots> = (\<Sum>f \<in> committed_in (control w). file_rows (parquet_dir w) f)"
    by (rule sum.mono_neutral_left) (auto simp: L(2) file_rows_def tbl_has_map_of split: option.splits)
  finally show ?thesis .
qed

lemma store_inv_distinct:
  "store_inv ev w \<Longrightarrow> distinct (keys (parquet_dir w))"
  "store_inv ev w \<Longrightarrow> distinct (keys (parquet_files (control w)))"
  by (simp_all add: store_inv_def)

lemma store_inv_row:
  "store_inv ev w \<Longrightarrow> map_of (parquet_files (control w)) f = Some \<lparr>record_count = n, pq_status = COMMITTED\<rparr> \<Longrightarrow>
     ends_with ''.parquet'' f \<and> (\<exists>rows. map_of (parquet_dir w) f = Some rows \<and> length rows = n)"
  unfolding store_inv_def by blast

lemma store_inv_committed:
  "store_inv ev w \<Longrightarrow> f \<in> committed_in (control w) \<Longrightarrow>
     ends_with ''.parquet'' f \<and> f \<in> set (keys (parquet_dir w))"
proof -
  assume inv: "store_inv ev w" and "f \<in> committed_in (control w)"
  then obtain n where "map_of (parquet_files (control w)) f = Some \<lparr>record_count = n, pq_status = COMMITTED\<rparr>"
    unfolding committed_in_def by blast
  from store_inv_row [OF inv this] show ?thesis
    by (metis domI dom_map_of_conv_image_fst list.set_map)
qed

lemma store_inv_fresh:
  "store_inv ev w \<Longrightarrow> ticks w \<le> n \<Longrightarrow>
     map_of (parquet_files (control w)) (batch_filename ev n) = None \<and>
     map_of (parquet_files (control w)) (compacted_filename ev n) = None"
  by (simp add: store_inv_def map_of_eq_None_iff)

text \<open>
  Both depend on the directory only at the committed files, and on nothing else of the world
  but the manifest.
\<close>

lemma view_cong:
  assumes "parquet_files (control w') = parquet_files (control w)"
    and "\<And>f. f \<in> committed_in (control w) \<Longrightarrow> map_of (parquet_dir w') f = map_of (parquet_dir w) f"
    and "distinct (keys (parquet_files (control w)))"
  shows "visible w' = visible w"
proof -
  have "committed_in (control w') = committed_in (control w)"
    using assms(1) by (simp add: committed_in_def)
  then show ?thesis
    using assms by (simp add: visible_sum file_rows_def)
qed

lemma store_inv_cong:
  assumes "store_inv ev w" "parquet_files (control w') = parquet_files (control w)"
    and "\<And>f. f \<in> committed_in (control w) \<Longrightarrow> map_of (parquet_dir w') f = map_of (parquet_dir w) f"
    and "distinct (keys (parquet_dir w'))" "ticks w \<le> ticks w'"
  shows "store_inv ev w'"
proof -
  have "ends_with ''.parquet'' f \<and> (\<exists>rows. map_of (parquet_dir w') f = Some rows \<and> length rows = n)"
    if "map_of (parquet_files (control w')) f = Some \<lparr>record_count = n, pq_status = COMMITTED\<rparr>" for f n
  proof -
    have f: "map_of (parquet_files (control w)) f = Some \<lparr>record_count = n, pq_status = COMMITTED\<rparr>"
      using that assms(2) by simp
    then have "f \<in> committed_in (control w)" unfolding committed_in_def by blast
    with assms(3) store_inv_row [OF assms(1) f] show ?thesis by metis
  qed
  moreover have "distinct (keys (parquet_files (control w')))"
    using assms(1,2) by (simp add: store_inv_def)
  moreover have "\<forall>n \<ge> ticks w'. batch_filename ev n \<notin> set (keys (parquet_files (control w'))) \<and>
      compacted_filename ev n \<notin> set (keys (parquet_files (control w')))"
    using assms(1,2,5) unfolding store_inv_def by (metis order_trans)
  ultimately show ?thesis using assms(4) unfolding store_inv_def by blast
qed

lemma not_parquet_tmp: "ends_with ''.tmp'' f \<Longrightarrow> \<not> ends_with ''.parquet'' f"
  unfolding ends_with_iff by (auto dest: arg_cong [of _ _ rev])

lemma temp_names [simp]:
  "ends_with ''.tmp'' (batch_temp ev n)" "ends_with ''.tmp'' (compacted_temp ev n)"
  "ends_with ''.parquet'' (batch_filename ev n)" "ends_with ''.parquet'' (compacted_filename ev n)"
proof -
  have "batch_temp ev n = (''tmp-'' @ utc_stamp ev n @ ''-'' @ take 12 (uuid4_hex ev n) @ ''.parquet'') @ ''.tmp''"
    by (simp add: batch_temp_def)
  then show "ends_with ''.tmp'' (batch_temp ev n)" by (metis ends_with_append)
  have "compacted_temp ev n = (''tmp-'' @ compacted_filename ev n) @ ''.tmp''"
    by (simp add: compacted_temp_def)
  then show "ends_with ''.tmp'' (compacted_temp ev n)" by (metis ends_with_append)
  have "batch_filename ev n = (''spans-'' @ utc_stamp ev n @ ''-'' @ take 12 (uuid4_hex ev n)) @ ''.parquet''"
    by (simp add: batch_filename_def)
  then show "ends_with ''.parquet'' (batch_filename ev n)" by (metis ends_with_append)
  have "compacted_filename ev n =
      (''spans-compacted-'' @ utc_stamp ev n @ ''-'' @ take 8 (uuid4_hex ev n)) @ ''.parquet''"
    by (simp add: compacted_filename_def)
  then show "ends_with ''.parquet'' (compacted_filename ev n)" by (metis ends_with_append)
qed

lemma committed_not_tmp:
  "store_inv ev w \<Longrightarrow> f \<in> committed_in (control w) \<Longrightarrow> \<not> ends_with ''.tmp'' f"
  using store_inv_committed not_parquet_tmp by blast

section \<open>Maintenance steps conserve the view\<close>

text \<open>
  The contract of a maintenance step: from a world that satisfies the invariant it reaches one
  that satisfies it again and shows the same rows.
\<close>

locale conserving =
  fixes inv :: "'w \<Rightarrow> bool"
    and view :: "'w \<Rightarrow> 'v"
    and step :: "'i \<Rightarrow> 'w \<Rightarrow> 'w"
  assumes inv_step: "inv w \<Longrightarrow> inv (step i w)"
    and view_step: "inv w \<Longrightarrow> view (step i w) = view w"
begin

lemma inv_run: "inv w \<Longrightarrow> inv (fold step is w)"
  by (induction "is" arbitrary: w) (auto simp: inv_step)

lemma view_run: "inv w \<Longrightarrow> view (fold step is w) = view w"
  by (induction "is" arbitrary: w) (auto simp: inv_step view_step)

end

text \<open>Steps on files that are not committed.\<close>

datatype file_step =
    Write string "span_row list"
  | Unlink string
  | Draw

definition uncommitted_step :: "env \<Rightarrow> file_step \<Rightarrow> world \<Rightarrow> world" where
  "uncommitted_step ev st w =
    (case st of
       Write f rows \<Rightarrow> if f \<in> committed_in (control w) then w else write_parquet f rows w
     | Unlink f \<Rightarrow> if f \<in> committed_in (control w) then w else unlink_parquet ev f w
     | Draw \<Rightarrow> draw_tick w)"

lemma uncommitted_step_dir:
  assumes "store_inv ev w"
  shows "control (uncommitted_step ev st w) = control w"
    and "f \<in> committed_in (control w) \<Longrightarrow>
      map_of (parquet_dir (uncommitted_step ev st w)) f = map_of (parquet_dir w) f"
    and "distinct (keys (parquet_dir (uncommitted_step ev st w)))"
    and "ticks w \<le> ticks (uncommitted_step ev st w)"
  using store_inv_distinct(1) [OF assms]
  by (auto simp: uncommitted_step_def write_parquet_def unlink_parquet_def draw_tick_def
      map_of_put map_of_remove split: file_step.splits)

interpretation files: conserving "store_inv ev" visible "uncommitted_step ev" for ev
proof unfold_locales
  fix w st
  assume inv: "store_inv ev w"
  note st = uncommitted_step_dir [OF inv]
  show "store_inv ev (uncommitted_step ev st w)"
    by (rule store_inv_cong [OF inv]) (simp_all add: st)
  show "visible (uncommitted_step ev st w) = visible w"
    by (rule view_cong) (simp_all add: st store_inv_distinct(2) [OF inv])
qed

lemma conserve_cong:
  assumes "store_inv ev w" "parquet_files (control w') = parquet_files (control w)"
    and "\<And>f. f \<in> committed_in (control w) \<Longrightarrow> map_of (parquet_dir w') f = map_of (parquet_dir w) f"
    and "distinct (keys (parquet_dir w'))" "ticks w \<le> ticks w'"
  shows "store_inv ev w' \<and> visible w' = visible w"
  using store_inv_cong [OF assms] view_cong [OF assms(2,3)] store_inv_distinct(2) [OF assms(1)] by blast

section \<open>Orphan cleanup\<close>

lemma unlinks_same:
  "control (fold (unlink_parquet ev) fs w) = control w \<and> ticks (fold (unlink_parquet ev) fs w) = ticks w \<and>
   wal_dir (fold (unlink_parquet ev) fs w) = wal_dir w \<and>
   lifecycle_lock (fold (unlink_parquet ev) fs w) = lifecycle_lock w"
  by (induction fs arbitrary: w) (simp_all add: unlink_parquet_def)

lemma unlinks_dir:
  "parquet_dir (fold (unlink_parquet ev) fs w) =
     filter (\<lambda>kv. fst kv \<notin> set fs \<or> unlink_fails ev (fst kv)) (parquet_dir w)"
proof (induction fs arbitrary: w)
  case Nil
  then show ?case by (simp add: filter_id_conv)
next
  case (Cons f fs)
  then show ?case by (auto simp: unlink_parquet_def tbl_remove_def intro!: filter_cong)
qed

lemma unlinks_as_steps:
  "set fs \<inter> committed_in (control w) = {} \<Longrightarrow>
     fold (unlink_parquet ev) fs w = fold (uncommitted_step ev) (map Unlink fs) w"
proof (induction fs arbitrary: w)
  case (Cons f fs)
  have "control (unlink_parquet ev f w) = control w" by (simp add: unlink_parquet_def)
  with Cons show ?case by (simp add: uncommitted_step_def)
qed simp

lemma unlinks_conserve:
  assumes "store_inv ev w" "set fs \<inter> committed_in (control w) = {}"
  shows "store_inv ev (fold (unlink_parquet ev) fs w) \<and> visible (fold (unlink_parquet ev) fs w) = visible w"
  using assms by (simp add: unlinks_as_steps files.inv_run files.view_run)

lemma cleanup_orphaned_same:
  assumes "cleanup_orphaned_parquet_files ev err w = (n, w')"
  shows "control w' = control w \<and> ticks w' = ticks w \<and> wal_dir w' = wal_dir w \<and>
    lifecycle_lock w' = lifecycle_lock w"
  using assms by (auto simp: cleanup_orphaned_parquet_files_def unlink_all_def Let_def unlinks_same
      split: option.splits)

lemma cleanup_orphaned_conserves:
  assumes inv: "store_inv ev w" and run: "cleanup_orphaned_parquet_files ev err w = (n, w')"
  shows "store_inv ev w' \<and> visible w' = visible w"
proof -
  let ?tmp = "filter (ends_with ''.tmp'') (keys (parquet_dir w))"
  let ?w1 = "fold (unlink_parquet ev) ?tmp w"
  have ctl: "control ?w1 = control w" by (simp add: unlinks_same)
  have 1: "store_inv ev ?w1 \<and> visible ?w1 = visible w"
    using inv committed_not_tmp [OF inv] by (intro unlinks_conserve) auto
  show ?thesis
  proof (cases err)
    case None
    let ?orphans = "filter (\<lambda>f. ends_with ''.parquet'' f \<and> f \<notin> set (committed_filenames (control ?w1)))
      (keys (parquet_dir ?w1))"
    have w': "w' = fold (unlink_parquet ev) ?orphans ?w1"
      using run None by (simp add: cleanup_orphaned_parquet_files_def unlink_all_def Let_def)
    have "set ?orphans \<inter> committed_in (control ?w1) = {}"
      using set_committed [OF store_inv_distinct(2) [of ev ?w1]] 1 by auto
    with 1 unlinks_conserve [of ev ?w1 ?orphans] show ?thesis by (simp only: w')
  next
    case (Some e)
    then have "w' = ?w1"
      using run by (simp add: cleanup_orphaned_parquet_files_def unlink_all_def Let_def)
    with 1 show ?thesis by simp
  qed
qed

section \<open>Committing\<close>

lemma commit_batch_files [simp]:
  "parquet_files (commit_batch f n entries offs db) =
     tbl_replace f \<lparr>record_count = n, pq_status = COMMITTED\<rparr> (parquet_files db)"
  by (simp add: commit_batch_def)

lemma commit_batch_committed:
  "committed_in (commit_batch f n entries offs db) = insert f (committed_in db)"
  by (auto simp: committed_in_def map_of_replace)

lemma visible_insert:
  assumes "distinct (keys (parquet_files (control w)))" "distinct (keys (parquet_files (control w')))"
    and "f \<notin> committed_in (control w)" "committed_in (control w') = insert f (committed_in (control w))"
    and "parquet_dir w' = parquet_dir w" "map_of (parquet_dir w) f = Some rows"
  shows "visible w' = visible w + mset rows"
  using assms by (simp add: visible_sum file_rows_def add.commute)

lemma commit_conserves:
  assumes inv: "store_inv ev w" and new: "map_of (parquet_files (control w)) f = None"
    and disk: "map_of (parquet_dir w) f = Some rows" and name: "ends_with ''.parquet'' f"
    and past: "\<forall>n \<ge> ticks w. f \<noteq> batch_filename ev n \<and> f \<noteq> compacted_filename ev n"
    and w': "w' = w\<lparr>control := db\<rparr>"
    and db: "parquet_files db = tbl_replace f \<lparr>record_count = length rows, pq_status = COMMITTED\<rparr>
      (parquet_files (control w))"
  shows "store_inv ev w' \<and> visible w' = visible w + mset rows"
proof
  let ?t = "parquet_files (control w)"
  have m: "map_of (parquet_files db) = (map_of ?t)(f \<mapsto> \<lparr>record_count = length rows, pq_status = COMMITTED\<rparr>)"
    by (simp add: db map_of_replace)
  have nf: "f \<notin> committed_in (control w)" using new by (simp add: committed_in_def)
  have d: "distinct (keys (parquet_files db))"
    unfolding db by (rule distinct_replace) (rule store_inv_distinct(2) [OF inv])
  have c: "committed_in db = insert f (committed_in (control w))"
    by (auto simp: committed_in_def m)
  show "visible w' = visible w + mset rows"
    using d c nf disk store_inv_distinct(2) [OF inv] by (intro visible_insert) (simp_all add: w')
  have row: "ends_with ''.parquet'' g \<and> (\<exists>rows. map_of (parquet_dir w) g = Some rows \<and> length rows = n)"
    if "map_of (parquet_files db) g = Some \<lparr>record_count = n, pq_status = COMMITTED\<rparr>" for g n
  proof (cases "g = f")
    case True
    with that m disk name show ?thesis by auto
  next
    case False
    with that m store_inv_row [OF inv] show ?thesis by simp
  qed
  have keys: "set (keys (parquet_files db)) = insert f (set (keys ?t))"
    by (auto simp: db tbl_replace_def keys_remove)
  have fut: "batch_filename ev n \<notin> set (keys (parquet_files db)) \<and>
      compacted_filename ev n \<notin> set (keys (parquet_files db))" if "n \<ge> ticks w" for n
    using store_inv_fresh [OF inv that] past that unfolding keys by (auto simp: map_of_eq_None_iff)
  show "store_inv ev w'"
    unfolding store_inv_def w' using row fut d store_inv_distinct(1) [OF inv] by simp
qed

lemma past_names:
  assumes "unique_names ev"
  shows "\<forall>m \<ge> Suc n. batch_filename ev n \<noteq> batch_filename ev m \<and> batch_filename ev n \<noteq> compacted_filename ev m"
    and "\<forall>m \<ge> Suc n. compacted_filename ev n \<noteq> batch_filename ev m \<and>
      compacted_filename ev n \<noteq> compacted_filename ev m"
proof -
  have "batch_filename ev n \<noteq> batch_filename ev m \<and> batch_filename ev n \<noteq> compacted_filename ev m \<and>
      compacted_filename ev n \<noteq> batch_filename ev m \<and> compacted_filename ev n \<noteq> compacted_filename ev m"
    if "m \<ge> Suc n" for m
  proof -
    have "{batch_filename ev n, compacted_filename ev n} \<inter> {batch_filename ev m, compacted_filename ev m} = {}"
      using assms that unfolding unique_names_def by simp
    then show ?thesis by auto
  qed
  then show "\<forall>m \<ge> Suc n. batch_filename ev n \<noteq> batch_filename ev m \<and>
      batch_filename ev n \<noteq> compacted_filename ev m"
    and "\<forall>m \<ge> Suc n. compacted_filename ev n \<noteq> batch_filename ev m \<and>
      compacted_filename ev n \<noteq> compacted_filename ev m"
    by blast+
qed

text \<open>The three steps that write and rename a file, for a name the manifest does not have.\<close>

definition publish_steps :: "string \<Rightarrow> string \<Rightarrow> span_row list \<Rightarrow> span_row list \<Rightarrow> (world \<Rightarrow> world) list" where
  "publish_steps temp final partial rows =
    [write_parquet temp partial, write_parquet temp rows, replace_parquet temp final]"

lemma publish_prefix:
  assumes inv: "store_inv ev w" and temp: "ends_with ''.tmp'' temp" and new: "final \<notin> committed_in (control w)"
    and w': "w' = run_steps (take k (publish_steps temp final partial rows)) (draw_tick w)"
  shows "store_inv ev w' \<and> visible w' = visible w \<and> control w' = control w \<and> ticks w' = Suc (ticks w) \<and>
    wal_dir w' = wal_dir w \<and> lifecycle_lock w' = lifecycle_lock w \<and>
    (k \<ge> 3 \<longrightarrow> map_of (parquet_dir w') final = Some rows)"
proof -
  have nt: "f \<in> committed_in (control w) \<Longrightarrow> f \<noteq> temp" for f
    using committed_not_tmp [OF inv] temp by blast
  have nf: "f \<in> committed_in (control w) \<Longrightarrow> f \<noteq> final" for f using new by blast
  have d: "distinct (keys (parquet_dir w))" using inv by (rule store_inv_distinct)
  consider "k = 0" | "k = 1" | "k = 2" | "k \<ge> 3" by linarith
  then show ?thesis
  proof cases
    case 1
    then have "w' = draw_tick w" by (simp add: w' run_steps_def)
    then show ?thesis using 1 d conserve_cong [OF inv, of w'] by (simp add: draw_tick_def)
  next
    case 2
    then have "w' = write_parquet temp partial (draw_tick w)"
      by (simp add: w' run_steps_def publish_steps_def)
    then show ?thesis
      using 2 d nt conserve_cong [OF inv, of w'] by (simp add: draw_tick_def write_parquet_def map_of_put)
  next
    case 3
    then have "w' = write_parquet temp rows (write_parquet temp partial (draw_tick w))"
      by (simp add: w' run_steps_def publish_steps_def)
    then show ?thesis
      using 3 d nt conserve_cong [OF inv, of w'] by (simp add: draw_tick_def write_parquet_def map_of_put)
  next
    case 4
    then have "w' = replace_parquet temp final (write_parquet temp rows (write_parquet temp partial (draw_tick w)))"
      by (simp add: w' run_steps_def publish_steps_def)
    then show ?thesis
      using 4 d nt nf conserve_cong [OF inv, of w']
      by (simp add: draw_tick_def write_parquet_def replace_parquet_def map_of_put map_of_remove)
  qed
qed

lemma flush_steps_publish:
  "flush_steps ev n partial rows entries offs =
     publish_steps (batch_temp ev n) (batch_filename ev n) partial rows @
     [\<lambda>w. w\<lparr>control := commit_batch (batch_filename ev n) (length rows) entries offs (control w)\<rparr>]"
  "compact_write_steps ev n partial rows =
     publish_steps (compacted_temp ev n) (compacted_filename ev n) partial rows"
  by (simp_all add: flush_steps_def compact_write_steps_def publish_steps_def)

lemma run_steps_append: "run_steps (xs @ ys) w = run_steps ys (run_steps xs w)"
  by (simp add: run_steps_def)

lemma length_publish_steps [simp]: "length (publish_steps t f p rows) = 3"
  by (simp add: publish_steps_def)

lemma fresh_not_committed: "map_of (parquet_files db) f = None \<Longrightarrow> f \<notin> committed_in db"
  by (simp add: committed_in_def)

text \<open>A crash after any number of steps of a flush.\<close>

lemma flush_prefix:
  assumes inv: "store_inv ev w" and names: "unique_names ev"
    and w': "w' = run_steps (take k (flush_steps ev (ticks w) partial rows entries offs)) (draw_tick w)"
  shows "store_inv ev w' \<and> wal_dir w' = wal_dir w \<and> lifecycle_lock w' = lifecycle_lock w \<and>
    (if k < 4 then visible w' = visible w \<and> control w' = control w
     else visible w' = visible w + mset rows \<and>
       control w' = commit_batch (batch_filename ev (ticks w)) (length rows) entries offs (control w))"
proof -
  let ?f = "batch_filename ev (ticks w)" and ?t = "batch_temp ev (ticks w)"
  have new: "map_of (parquet_files (control w)) ?f = None"
    using store_inv_fresh [OF inv, of "ticks w"] by simp
  let ?w3 = "run_steps (take k (publish_steps ?t ?f partial rows)) (draw_tick w)"
  have p: "store_inv ev ?w3 \<and> visible ?w3 = visible w \<and> control ?w3 = control w \<and>
      ticks ?w3 = Suc (ticks w) \<and> wal_dir ?w3 = wal_dir w \<and> lifecycle_lock ?w3 = lifecycle_lock w \<and>
      (k \<ge> 3 \<longrightarrow> map_of (parquet_dir ?w3) ?f = Some rows)"
    using publish_prefix [OF inv temp_names(1) fresh_not_committed [OF new] refl] by simp
  show ?thesis
  proof (cases "k < 4")
    case True
    then have "w' = ?w3" by (simp add: w' flush_steps_publish)
    with p True show ?thesis by simp
  next
    case False
    let ?db = "commit_batch ?f (length rows) entries offs (control w)"
    have w'_eq: "w' = ?w3\<lparr>control := ?db\<rparr>"
      using False p by (simp add: w' flush_steps_publish run_steps_append) (simp add: run_steps_def)
    have "store_inv ev w' \<and> visible w' = visible ?w3 + mset rows"
      by (rule commit_conserves [OF _ _ _ temp_names(3) _ w'_eq])
        (use p new False past_names(1) [OF names] in auto)
    with p False w'_eq show ?thesis by simp
  qed
qed

lemma flush_batch_cases:
  assumes inv: "store_inv ev w" and names: "unique_names ev"
    and run: "flush_batch ev rows entries offs w = (r, w')" and rows: "rows \<noteq> []"
  shows "store_inv ev w' \<and> wal_dir w' = wal_dir w \<and> lifecycle_lock w' = lifecycle_lock w \<and>
    (if list_all row_fits rows
     then r = Inr (batch_filename ev (ticks w)) \<and> visible w' = visible w + mset rows \<and>
       control w' = commit_batch (batch_filename ev (ticks w)) (length rows) entries offs (control w)
     else r = Inl (arrow_error ev) \<and> visible w' = visible w \<and> control w' = control w)"
proof (cases "list_all row_fits rows")
  case True
  then have "w' = run_steps (take 4 (flush_steps ev (ticks w) [] rows entries offs)) (draw_tick w)"
    and "r = Inr (batch_filename ev (ticks w))"
    using run rows by (simp_all add: flush_batch_def Let_def) (simp add: flush_steps_def)
  with flush_prefix [OF inv names, of w' 4] True show ?thesis by simp
next
  case False
  then have "w' = draw_tick w" "r = Inl (arrow_error ev)"
    using run rows by (simp_all add: flush_batch_def Let_def)
  then show ?thesis
    using False conserve_cong [OF inv, of w'] store_inv_distinct(1) [OF inv] by (simp add: draw_tick_def)
qed

section \<open>Compaction conserves\<close>

lemma map_of_updates:
  assumes "\<And>x. F (F x) = F x"
  shows "map_of (fold (\<lambda>k. tbl_update k F) ks t) g =
    (if g \<in> set ks then map_option F (map_of t g) else map_of t g)"
proof (induction ks arbitrary: t)
  case (Cons k ks)
  then show ?case by (cases "map_of t g") (auto simp: map_of_tbl_update assms)
qed simp

lemma keys_updates [simp]: "keys (fold (\<lambda>k. tbl_update k F) ks t) = keys t"
  by (induction ks arbitrary: t) simp_all

lemma commit_compaction_spec:
  assumes "commit_compaction f n to_merge db = Some db'"
  shows "map_of (parquet_files db) f = None"
    and "map_of (parquet_files db') g =
      (let m = ((map_of (parquet_files db))(f \<mapsto> \<lparr>record_count = n, pq_status = COMMITTED\<rparr>)) g
       in if g \<in> set to_merge then map_option (\<lambda>row. row\<lparr>pq_status := COMPACTED\<rparr>) m else m)"
    and "set (keys (parquet_files db')) = insert f (set (keys (parquet_files db)))"
    and "distinct (keys (parquet_files db)) \<Longrightarrow> distinct (keys (parquet_files db'))"
proof -
  obtain t where t: "tbl_insert f \<lparr>record_count = n, pq_status = COMMITTED\<rparr> (parquet_files db) = Some t"
    and db': "parquet_files db' =
      fold (\<lambda>old. tbl_update old (\<lambda>row. row\<lparr>pq_status := COMPACTED\<rparr>)) to_merge t"
    using assms by (auto simp: commit_compaction_def)
  show "map_of (parquet_files db) f = None" using map_of_insert [OF t] by simp
  show "map_of (parquet_files db') g =
      (let m = ((map_of (parquet_files db))(f \<mapsto> \<lparr>record_count = n, pq_status = COMMITTED\<rparr>)) g
       in if g \<in> set to_merge then map_option (\<lambda>row. row\<lparr>pq_status := COMPACTED\<rparr>) m else m)"
    using map_of_insert [OF t] by (simp add: db' map_of_updates Let_def)
  show "set (keys (parquet_files db')) = insert f (set (keys (parquet_files db)))"
    using t by (auto simp: db' tbl_insert_def split: if_splits)
  show "distinct (keys (parquet_files db)) \<Longrightarrow> distinct (keys (parquet_files db'))"
    using distinct_insert [OF t] by (simp add: db')
qed

lemma compacted_not_committed [simp]:
  "row\<lparr>pq_status := COMPACTED\<rparr> \<noteq> \<lparr>record_count = n, pq_status = COMMITTED\<rparr>"
  by (cases row) simp

lemma compaction_committed:
  assumes "commit_compaction f n to_merge db = Some db'" "f \<notin> set to_merge"
  shows "committed_in db' = insert f (committed_in db - set to_merge)"
  using assms(2) unfolding committed_in_def
  by (auto simp: commit_compaction_spec(2) [OF assms(1)] Let_def split: if_splits)

lemma compaction_commit_conserves:
  assumes inv: "store_inv ev w" and merge: "set to_merge \<subseteq> committed_in (control w)" "distinct to_merge"
    and com: "commit_compaction f (length rows) to_merge (control w) = Some db"
    and disk: "map_of (parquet_dir w) f = Some rows" and name: "ends_with ''.parquet'' f"
    and past: "\<forall>n \<ge> ticks w. f \<noteq> batch_filename ev n \<and> f \<noteq> compacted_filename ev n"
    and rows: "mset rows = (\<Sum>g \<in> set to_merge. file_rows (parquet_dir w) g)"
  shows "store_inv ev (w\<lparr>control := db\<rparr>) \<and> visible (w\<lparr>control := db\<rparr>) = visible w \<and>
    set to_merge \<inter> committed_in db = {}"
proof -
  let ?C = "committed_in (control w)"
  note spec = commit_compaction_spec [OF com]
  have nf: "f \<notin> ?C" by (rule fresh_not_committed) (rule spec(1))
  with merge have nm: "f \<notin> set to_merge" by blast
  have c: "committed_in db = insert f (?C - set to_merge)" using compaction_committed [OF com nm] .
  have d: "distinct (keys (parquet_files db))" using spec(4) store_inv_distinct(2) [OF inv] .
  have "(\<Sum>g \<in> insert f (?C - set to_merge). file_rows (parquet_dir w) g) =
      mset rows + (\<Sum>g \<in> ?C - set to_merge. file_rows (parquet_dir w) g)"
    using nf disk by (simp add: file_rows_def)
  also have "\<dots> = (\<Sum>g \<in> ?C. file_rows (parquet_dir w) g)"
    unfolding rows by (subst sum.subset_diff [OF merge(1)]) (simp_all add: add.commute)
  finally have "visible (w\<lparr>control := db\<rparr>) = visible w"
    using d store_inv_distinct(2) [OF inv] by (simp add: visible_sum c)
  moreover have row: "ends_with ''.parquet'' g \<and> (\<exists>rows. map_of (parquet_dir w) g = Some rows \<and> length rows = n)"
    if "map_of (parquet_files db) g = Some \<lparr>record_count = n, pq_status = COMMITTED\<rparr>" for g n
  proof (cases "g = f")
    case True
    with that disk name nm show ?thesis by (simp add: spec(2) Let_def)
  next
    case False
    with that have "map_of (parquet_files (control w)) g = Some \<lparr>record_count = n, pq_status = COMMITTED\<rparr>"
      by (auto simp: spec(2) Let_def split: if_splits)
    then show ?thesis by (rule store_inv_row [OF inv])
  qed
  moreover have "batch_filename ev n \<notin> set (keys (parquet_files db)) \<and>
      compacted_filename ev n \<notin> set (keys (parquet_files db))" if "n \<ge> ticks w" for n
    using store_inv_fresh [OF inv that] past that unfolding spec(3) by (auto simp: map_of_eq_None_iff)
  ultimately show ?thesis
    using d store_inv_distinct(1) [OF inv] c nm unfolding store_inv_def by auto
qed

lemma read_batches_Inr:
  "read_batches ev w fs = Inr rows \<Longrightarrow> rows = concat (map (\<lambda>f. the (map_of (parquet_dir w) f)) fs)"
  by (induction fs arbitrary: rows) (auto split: option.splits sum.splits)

text \<open>The files a compaction merges.\<close>

definition merge_files :: "nat \<Rightarrow> world \<Rightarrow> string list" where
  "merge_files k w = take k (get_committed_parquet_files (Inr (control w)) (parquet_dir w))"

lemma merge_files_committed:
  assumes "store_inv ev w"
  shows "set (merge_files k w) \<subseteq> committed_in (control w)" "distinct (merge_files k w)"
    and "mset (concat (map (\<lambda>f. the (map_of (parquet_dir w) f)) (merge_files k w))) =
      (\<Sum>f \<in> set (merge_files k w). file_rows (parquet_dir w) f)"
proof -
  let ?L = "get_committed_parquet_files (Inr (control w)) (parquet_dir w)"
  have d: "distinct (keys (parquet_files (control w)))" using assms by (rule store_inv_distinct)
  then have L: "distinct ?L" "set ?L \<subseteq> committed_in (control w)" "\<forall>f \<in> set ?L. tbl_has (parquet_dir w) f"
    by (auto simp: get_committed_parquet_files_def distinct_committed_filenames set_committed)
  show sub: "set (merge_files k w) \<subseteq> committed_in (control w)"
    using L(2) set_take_subset [of k ?L] by (auto simp: merge_files_def)
  show dm: "distinct (merge_files k w)" using L(1) by (simp add: merge_files_def)
  have "\<forall>f \<in> set (merge_files k w). tbl_has (parquet_dir w) f"
    using L(3) set_take_subset [of k ?L] by (auto simp: merge_files_def)
  then show "mset (concat (map (\<lambda>f. the (map_of (parquet_dir w) f)) (merge_files k w))) =
      (\<Sum>f \<in> set (merge_files k w). file_rows (parquet_dir w) f)"
    unfolding mset_concat_distinct [OF dm] by (intro sum.cong) (auto simp: file_rows_def tbl_has_map_of)
qed

text \<open>A crash after any number of steps of a compaction.\<close>

lemma compaction_prefix:
  assumes inv: "store_inv ev w" and names: "unique_names ev"
    and rows: "read_batches ev w (merge_files m w) = Inr rows"
    and w': "w' = run_steps (take k (compaction_steps ev (ticks w) partial rows (merge_files m w))) (draw_tick w)"
  shows "store_inv ev w' \<and> visible w' = visible w \<and> wal_dir w' = wal_dir w \<and>
    lifecycle_lock w' = lifecycle_lock w \<and>
    materialized_wal_offsets (control w') = materialized_wal_offsets (control w) \<and>
    wal_corruption_events (control w') = wal_corruption_events (control w)"
proof -
  let ?f = "compacted_filename ev (ticks w)" and ?t = "compacted_temp ev (ticks w)"
  let ?M = "merge_files m w"
  have new: "map_of (parquet_files (control w)) ?f = None"
    using store_inv_fresh [OF inv, of "ticks w"] by simp
  let ?w3 = "run_steps (take k (publish_steps ?t ?f partial rows)) (draw_tick w)"
  have p: "store_inv ev ?w3 \<and> visible ?w3 = visible w \<and> control ?w3 = control w \<and>
      ticks ?w3 = Suc (ticks w) \<and> wal_dir ?w3 = wal_dir w \<and> lifecycle_lock ?w3 = lifecycle_lock w \<and>
      (k \<ge> 3 \<longrightarrow> map_of (parquet_dir ?w3) ?f = Some rows)"
    using publish_prefix [OF inv temp_names(2) fresh_not_committed [OF new] refl] by simp
  show ?thesis
  proof (cases "k < 4")
    case True
    then have "w' = ?w3" by (simp add: w' compaction_steps_def flush_steps_publish)
    with p show ?thesis by simp
  next
    case False
    have has: "\<not> tbl_has (parquet_files (control w)) ?f" using new by (simp add: tbl_has_map_of)
    then obtain db where db: "commit_compaction ?f (length rows) ?M (control w) = Some db"
      by (simp add: commit_compaction_def tbl_insert_def)
    have w'_eq: "w' = fold (unlink_parquet ev) (take (k - 4) ?M) (?w3\<lparr>control := db\<rparr>)"
    proof -
      have k: "k - 3 = Suc (k - 4)" using False by linarith
      show ?thesis
        using False p db
        by (simp add: w' compaction_steps_def flush_steps_publish run_steps_append take_map k)
          (simp add: run_steps_def fold_map comp_def)
    qed
    have same: "file_rows (parquet_dir ?w3) g = file_rows (parquet_dir w) g" if "g \<in> set ?M" for g
    proof -
      have g: "g \<in> committed_in (control w)" using that merge_files_committed(1) [OF inv] by blast
      then have "g \<noteq> ?f" "g \<noteq> ?t"
        using fresh_not_committed [OF new] committed_not_tmp [OF inv] temp_names(2) by blast+
      then show ?thesis
        using False by (simp add: publish_steps_def run_steps_def write_parquet_def replace_parquet_def
            draw_tick_def file_rows_def map_of_put map_of_remove)
    qed
    have "mset rows = (\<Sum>g \<in> set ?M. file_rows (parquet_dir w) g)"
      using read_batches_Inr [OF rows] merge_files_committed(3) [OF inv] by simp
    then have sum: "mset rows = (\<Sum>g \<in> set ?M. file_rows (parquet_dir ?w3) g)"
      using same by simp
    have c: "store_inv ev (?w3\<lparr>control := db\<rparr>) \<and> visible (?w3\<lparr>control := db\<rparr>) = visible ?w3 \<and>
        set ?M \<inter> committed_in db = {}"
      by (rule compaction_commit_conserves [OF _ _ _ _ _ temp_names(4) _ sum])
        (use p False db merge_files_committed [OF inv] past_names(2) [OF names] in auto)
    have "set (take (k - 4) ?M) \<inter> committed_in (control (?w3\<lparr>control := db\<rparr>)) = {}"
      using c set_take_subset [of "k - 4" ?M] by auto
    with c have "store_inv ev w' \<and> visible w' = visible w"
      unfolding w'_eq using unlinks_conserve [of ev "?w3\<lparr>control := db\<rparr>"] p by simp
    moreover have "materialized_wal_offsets db = materialized_wal_offsets (control w)"
      "wal_corruption_events db = wal_corruption_events (control w)"
      using db by (auto simp: commit_compaction_def)
    ultimately show ?thesis using p by (simp add: w'_eq unlinks_same)
  qed
qed

lemma compaction_body_cases:
  assumes run: "compaction_body ev m w = (r, w')" and inv: "store_inv ev w"
  obtains (few) "length (get_committed_parquet_files (Inr (control w)) (parquet_dir w)) \<le> 1" "r = Inr 0" "w' = w"
  | (read_error) e where "r = Inl e" "read_batches ev w (merge_files m w) = Inl e"
      "w' = (draw_tick w)\<lparr>parquet_dir := tbl_remove (compacted_temp ev (ticks w)) (parquet_dir w)\<rparr>"
  | (no_rows) "r = Inr 0" "read_batches ev w (merge_files m w) = Inr []"
      "length (get_committed_parquet_files (Inr (control w)) (parquet_dir w)) > 1"
      "w' = (draw_tick w)\<lparr>parquet_dir := tbl_remove (compacted_temp ev (ticks w)) (parquet_dir w)\<rparr>"
  | (merged) rows where "read_batches ev w (merge_files m w) = Inr rows" "rows \<noteq> []" "r = Inr (length rows)"
      "length (get_committed_parquet_files (Inr (control w)) (parquet_dir w)) > 1"
      "w' = run_steps (compaction_steps ev (ticks w) [] rows (merge_files m w)) (draw_tick w)"
proof -
  let ?V = "get_committed_parquet_files (Inr (control w)) (parquet_dir w)"
  let ?f = "compacted_filename ev (ticks w)"
  have rb: "read_batches ev (draw_tick w) fs = read_batches ev w fs" for fs
    by (induction fs) (simp_all add: draw_tick_def split: option.split sum.split)
  have M: "take m ?V = merge_files m w" by (simp add: merge_files_def)
  show thesis
  proof (cases "length ?V \<le> 1")
    case True
    with run show ?thesis by (intro few) (simp_all add: compaction_body_def)
  next
    case False
    show ?thesis
    proof (cases "read_batches ev w (merge_files m w)")
      case (Inl e)
      with run False show ?thesis
        by (intro read_error [of e]) (simp_all add: compaction_body_def Let_def rb M, simp_all add: draw_tick_def)
    next
      case (Inr rows)
      show ?thesis
      proof (cases "rows = []")
        case True
        with run False Inr show ?thesis
          by (intro no_rows) (simp_all add: compaction_body_def Let_def rb M, simp_all add: draw_tick_def)
      next
        case nonempty: False
        let ?w3 = "run_steps (compact_write_steps ev (ticks w) [] rows) (draw_tick w)"
        have ctl: "control ?w3 = control w"
          by (simp add: compact_write_steps_def run_steps_def write_parquet_def replace_parquet_def
              draw_tick_def map_of_put)
        have "map_of (parquet_files (control w)) ?f = None"
          using store_inv_fresh [OF inv, of "ticks w"] by simp
        then obtain db where db: "commit_compaction ?f (length rows) (merge_files m w) (control w) = Some db"
          by (auto simp: commit_compaction_def tbl_insert_def tbl_has_map_of)
        have "w' = fold (unlink_parquet ev) (merge_files m w) (?w3\<lparr>control := db\<rparr>)"
          and r: "r = Inr (length rows)"
          using run False Inr nonempty db ctl
          by (simp_all add: compaction_body_def Let_def rb M)
        then have "w' = run_steps (compaction_steps ev (ticks w) [] rows (merge_files m w)) (draw_tick w)"
          using ctl db by (simp add: compaction_steps_def run_steps_append)
            (simp add: run_steps_def fold_map comp_def)
        with merged [OF Inr nonempty r] False show ?thesis by simp
      qed
    qed
  qed
qed

lemma compaction_body_conserves:
  assumes inv: "store_inv ev w" and names: "unique_names ev" and run: "compaction_body ev m w = (r, w')"
  shows "store_inv ev w' \<and> visible w' = visible w \<and> wal_dir w' = wal_dir w \<and>
    lifecycle_lock w' = lifecycle_lock w \<and>
    materialized_wal_offsets (control w') = materialized_wal_offsets (control w) \<and>
    wal_corruption_events (control w') = wal_corruption_events (control w)"
proof -
  have gone: "?thesis"
    if w': "w' = (draw_tick w)\<lparr>parquet_dir := tbl_remove (compacted_temp ev (ticks w)) (parquet_dir w)\<rparr>"
  proof -
    have "f \<in> committed_in (control w) \<Longrightarrow> f \<noteq> compacted_temp ev (ticks w)" for f
      using committed_not_tmp [OF inv] temp_names(2) by blast
    then show ?thesis
      using conserve_cong [OF inv, of w'] store_inv_distinct(1) [OF inv]
      by (simp add: w' draw_tick_def map_of_remove)
  qed
  from run inv show ?thesis
  proof (cases rule: compaction_body_cases)
    case few
    with inv show ?thesis by simp
  next
    case (merged rows)
    let ?steps = "compaction_steps ev (ticks w) [] rows (merge_files m w)"
    have "w' = run_steps (take (length ?steps) ?steps) (draw_tick w)" using merged by simp
    then show ?thesis using compaction_prefix [OF inv names merged(1)] by blast
  qed (use gone in simp_all)
qed

section \<open>The lock around the operations\<close>

lemma store_inv_lock [simp]:
  "store_inv ev (w\<lparr>lifecycle_lock := l\<rparr>) = store_inv ev w"
  "visible (w\<lparr>lifecycle_lock := l\<rparr>) = visible w"
  by (simp_all add: store_inv_def visible_def visible_rows_def)

text \<open>
  A protected body that keeps a property of the rest of the world keeps it under the lock,
  also when the lock cannot be had.
\<close>

lemma with_lock_rule:
  assumes "with_lifecycle_lock a body w = (r, w')"
    and "\<And>l. P (w\<lparr>lifecycle_lock := l\<rparr>)"
    and "\<And>l r1 w1 l'. body (w\<lparr>lifecycle_lock := l\<rparr>) = (r1, w1) \<Longrightarrow> P (w1\<lparr>lifecycle_lock := l'\<rparr>)"
  shows "P w'"
  using assms by (auto simp: with_lifecycle_lock_def split: prod.splits sum.splits)

lemma with_lock_idle:
  assumes "lock_idle a (lifecycle_lock w)"
    and body: "body (w\<lparr>lifecycle_lock := lock_taken a (lifecycle_lock w)\<rparr>) = (r, w1)"
    and keeps: "lifecycle_lock w1 = lock_taken a (lifecycle_lock w)"
  shows "with_lifecycle_lock a body w = (r, w1\<lparr>lifecycle_lock := lifecycle_lock w\<rparr>)"
  using assms by (simp add: with_lifecycle_lock_def enter_lock_idle leave_lock_taken)

lemma compact_conserves:
  assumes inv: "store_inv ev w" and names: "unique_names ev" and run: "compact_parquet_files ev a m w = (r, w')"
  shows "store_inv ev w' \<and> visible w' = visible w \<and> wal_dir w' = wal_dir w"
  using run unfolding compact_parquet_files_def
  by (rule with_lock_rule)
    (use inv compaction_body_conserves [OF _ names] in \<open>auto dest: compaction_body_conserves [OF _ names, rotated]\<close>)

section \<open>Properties\<close>

text \<open>
  C11: A flush is atomic.  If the process dies after any number of the steps of a flush, with
  any part of the temporary file written, every committed file is still complete on disk and
  the queries see either exactly the rows they saw before, with the manifest and the offsets
  untouched, or those and all rows of the batch, with the offsets of the batch recorded.
\<close>

theorem flush_atomic:
  assumes "store_inv ev w" "unique_names ev"
    and "w' = run_steps (take k (flush_steps ev (ticks w) partial rows entries offs)) (draw_tick w)"
  shows "store_inv ev w' \<and>
    (if k < 4 then visible w' = visible w \<and> control w' = control w
     else visible w' = visible w + mset rows \<and>
       control w' = commit_batch (batch_filename ev (ticks w)) (length rows) entries offs (control w))"
  using flush_prefix [OF assms] by simp

text \<open>
  C12: A compaction is invisible.  If the process dies after any number of the steps of a
  compaction, every committed file is complete on disk and the queries see the rows they saw
  before, each as often; and no offset moves.
\<close>

theorem compaction_crash_safe:
  assumes "store_inv ev w" "unique_names ev" "read_batches ev w (merge_files m w) = Inr rows"
    and "w' = run_steps (take k (compaction_steps ev (ticks w) partial rows (merge_files m w))) (draw_tick w)"
  shows "store_inv ev w' \<and> visible w' = visible w \<and>
    materialized_wal_offsets (control w') = materialized_wal_offsets (control w)"
  using compaction_prefix [OF assms] by simp

text \<open>
  C30: What a compaction does.  Run by a thread while nobody holds the lock, with no failing
  file access, it restores the lock; with at most one committed file it does nothing; otherwise
  it returns the number of rows of the merged files, which are at most the given maximum,
  and, unless that number is 0, these files are gone and one new file with all their rows is
  committed in their place.
\<close>

theorem compaction_result:
  assumes inv: "store_inv ev w" and names: "unique_names ev" and idle: "lock_idle a (lifecycle_lock w)"
    and io: "\<And>f. parquet_read_error ev f = None" "\<And>f. \<not> unlink_fails ev f"
    and run: "compact_parquet_files ev a m w = (r, w')"
  shows "lifecycle_lock w' = lifecycle_lock w \<and>
    (if length (get_committed_parquet_files (Inr (control w)) (parquet_dir w)) \<le> 1 then r = Inr 0 \<and> w' = w
     else let merged = merge_files m w;
              rows = concat (map (\<lambda>f. the (map_of (parquet_dir w) f)) merged)
       in length merged \<le> m \<and> r = Inr (length rows) \<and>
          (rows \<noteq> [] \<longrightarrow>
             set (keys (parquet_dir w')) \<inter> set merged = {} \<and>
             map_of (parquet_dir w') (compacted_filename ev (ticks w)) = Some rows \<and>
             committed_in (control w') =
               insert (compacted_filename ev (ticks w)) (committed_in (control w) - set merged)))"
proof -
  let ?f = "compacted_filename ev (ticks w)" and ?t = "compacted_temp ev (ticks w)"
  let ?l = "lock_taken a (lifecycle_lock w)"
  let ?u = "w\<lparr>lifecycle_lock := ?l\<rparr>"
  obtain r1 w1 where body: "compaction_body ev m ?u = (r1, w1)" by (cases "compaction_body ev m ?u")
  have invu: "store_inv ev ?u" using inv by simp
  have keeps: "lifecycle_lock w1 = ?l" using compaction_body_conserves [OF invu names body] by simp
  have rw: "r = r1" "w' = w1\<lparr>lifecycle_lock := lifecycle_lock w\<rparr>"
    using run with_lock_idle [of a w "compaction_body ev m", OF idle body keeps] by (simp_all add: compact_parquet_files_def)
  have M: "merge_files m ?u = merge_files m w" by (simp add: merge_files_def)
  have rb: "read_batches ev v fs = Inr (concat (map (\<lambda>f. the (map_of (parquet_dir v) f)) fs))" for v fs
    by (induction fs) (simp_all add: io)
  from body invu show ?thesis
  proof (cases rule: compaction_body_cases)
    case few
    then show ?thesis by (simp add: rw)
  next
    case (read_error e)
    then show ?thesis by (simp add: rb)
  next
    case no_rows
    then show ?thesis
      by (auto simp: rw rb M Let_def merge_files_def)
  next
    case (merged rows)
    have rows: "rows = concat (map (\<lambda>f. the (map_of (parquet_dir w) f)) (merge_files m w))"
      using merged(1) by (simp add: rb M)
    have new: "map_of (parquet_files (control w)) ?f = None"
      using store_inv_fresh [OF inv, of "ticks w"] by simp
    have nm: "?f \<notin> set (merge_files m w)"
      using fresh_not_committed [OF new] merge_files_committed(1) [OF inv] by blast
    let ?w3 = "run_steps (publish_steps ?t ?f [] rows) (draw_tick ?u)"
    have ctl: "control ?w3 = control w" and disk: "map_of (parquet_dir ?w3) ?f = Some rows"
      by (simp_all add: publish_steps_def run_steps_def write_parquet_def replace_parquet_def
          draw_tick_def map_of_put)
    obtain db where db: "commit_compaction ?f (length rows) (merge_files m w) (control w) = Some db"
      using new by (auto simp: commit_compaction_def tbl_insert_def tbl_has_map_of)
    have w1: "w1 = fold (unlink_parquet ev) (merge_files m w) (?w3\<lparr>control := db\<rparr>)"
      using merged(5) ctl db by (simp add: compaction_steps_def flush_steps_publish run_steps_append M)
        (simp add: run_steps_def fold_map comp_def)
    have dir: "parquet_dir w1 = filter (\<lambda>kv. fst kv \<notin> set (merge_files m w)) (parquet_dir ?w3)"
      unfolding w1 by (simp add: unlinks_dir io)
    have "map_of (parquet_dir w1) ?f = Some rows"
      unfolding dir map_of_filter_keys [of "\<lambda>x. x \<notin> set (merge_files m w)"] using disk nm by simp
    moreover have "set (keys (parquet_dir w1)) \<inter> set (merge_files m w) = {}" unfolding dir by auto
    moreover have "committed_in (control w1) = insert ?f (committed_in (control w) - set (merge_files m w))"
      using compaction_committed [OF db nm] by (simp add: w1 unlinks_same)
    moreover have "length (merge_files m w) \<le> m" by (simp add: merge_files_def)
    ultimately show ?thesis using merged(3,4) rows by (simp add: rw Let_def)
  qed
qed

text \<open>
  Orphans go, committed files stay.  If every \<open>unlink\<close> works, the cleanup leaves exactly
  those temporary and Parquet files that are committed, changes nothing a query sees, and
  returns the number of files it removed.
\<close>

theorem orphan_cleanup_exact:
  assumes inv: "store_inv ev w" and io: "\<And>f. \<not> unlink_fails ev f"
    and run: "cleanup_orphaned_parquet_files ev None w = (n, w')"
  shows "store_inv ev w' \<and> visible w' = visible w \<and>
    {f \<in> set (keys (parquet_dir w')). ends_with ''.tmp'' f \<or> ends_with ''.parquet'' f} =
      committed_in (control w) \<and>
    n + length (parquet_dir w') = length (parquet_dir w)"
proof -
  let ?tmp = "filter (ends_with ''.tmp'') (keys (parquet_dir w))"
  let ?w1 = "fold (unlink_parquet ev) ?tmp w"
  let ?C = "committed_in (control w)"
  let ?o = "\<lambda>f. ends_with ''.parquet'' f \<and> f \<notin> ?C"
  have ctl: "control ?w1 = control w" by (simp add: unlinks_same)
  have C: "set (committed_filenames (control w)) = ?C"
    using store_inv_distinct(2) [OF inv] by (rule set_committed)
  have d1: "parquet_dir ?w1 = filter (\<lambda>kv. \<not> ends_with ''.tmp'' (fst kv)) (parquet_dir w)"
    unfolding unlinks_dir by (rule filter_cong) (auto simp: io intro: rev_image_eqI)
  have w': "w' = fold (unlink_parquet ev) (filter ?o (keys (parquet_dir ?w1))) ?w1"
    and n: "n = length ?tmp + length (filter ?o (keys (parquet_dir ?w1)))"
    using run by (auto simp: cleanup_orphaned_parquet_files_def unlink_all_def Let_def ctl C io)
  have d2: "parquet_dir w' = filter (\<lambda>kv. \<not> ?o (fst kv)) (parquet_dir ?w1)"
    unfolding w' unlinks_dir [of ev _ ?w1] by (rule filter_cong) (auto simp: io intro: rev_image_eqI)
  have len1: "length ?tmp + length (parquet_dir ?w1) = length (parquet_dir w)"
    unfolding d1 by (rule length_filter_keys)
  have len2: "length (filter ?o (keys (parquet_dir ?w1))) + length (parquet_dir w') = length (parquet_dir ?w1)"
    unfolding d2 by (rule length_filter_keys)
  have "f \<in> set (keys (parquet_dir w)) \<and> ends_with ''.parquet'' f \<and> \<not> ends_with ''.tmp'' f" if "f \<in> ?C" for f
    using store_inv_committed [OF inv that] not_parquet_tmp by blast
  then have "{f \<in> set (keys (parquet_dir w')). ends_with ''.tmp'' f \<or> ends_with ''.parquet'' f} = ?C"
    unfolding d2 d1 by auto
  then show ?thesis
    using cleanup_orphaned_conserves [OF inv run] n len1 len2 by simp
qed

section \<open>Sample values for the witnesses\<close>

text \<open>A world with two committed files of one row each, an abandoned temporary file and an orphan.\<close>

definition sample_row :: span_row where
  "sample_row = span_row_of (sample_env (\<lambda>p. Parsed 1 [])) [] None None [] [] ''a.wal'' 0 sample_span"

definition sample_world :: world where
  "sample_world = \<lparr> wal_dir = [],
     parquet_dir = [(''a.parquet'', [sample_row]), (''b.parquet'', [sample_row]),
                    (''c.parquet'', [sample_row]), (''d.tmp'', [])],
     control = empty_store\<lparr>parquet_files :=
       [(''a.parquet'', \<lparr>record_count = 1, pq_status = COMMITTED\<rparr>),
        (''b.parquet'', \<lparr>record_count = 1, pq_status = COMMITTED\<rparr>)]\<rparr>,
     lifecycle_lock = lock_init, ticks = 0 \<rparr>"

lemma sample_unique_names: "unique_names (sample_env p)"
proof -
  have inj: "show_nat n = show_nat m \<Longrightarrow> n = m" for m n
    by (metis read_show_nat)
  have first: "show_nat m @ CHR ''-'' # s \<noteq> CHR ''c'' # t" for m s t
    using show_nat_digits [of m] show_nat_nonempty [of m] by (cases "show_nat m") (auto simp: is_digit_def)
  show ?thesis
    unfolding unique_names_def
    by (auto simp: batch_filename_def compacted_filename_def sample_env_def first first [symmetric] dest: inj)
qed

lemma sample_store_inv: "store_inv (sample_env p) sample_world"
  unfolding store_inv_def
  by (auto simp: sample_world_def empty_store_def batch_filename_def compacted_filename_def ends_with_def
      split: if_splits)

theorem flush_atomic_witness:
  "visible (run_steps (take 4 (flush_steps (sample_env (\<lambda>p. Parsed 1 [])) 0 [] [sample_row] [] [])) (draw_tick sample_world)) =
     visible sample_world + {#sample_row#} \<and>
   visible (run_steps (take 3 (flush_steps (sample_env (\<lambda>p. Parsed 1 [])) 0 [] [sample_row] [] [])) (draw_tick sample_world)) =
     visible sample_world"
  using flush_atomic [where k = 4 and rows = "[sample_row]", OF sample_store_inv sample_unique_names refl]
    flush_atomic [where k = 3 and rows = "[sample_row]", OF sample_store_inv sample_unique_names refl]
  by (simp add: sample_world_def)

lemma sample_merge:
  "merge_files 20 sample_world = [''a.parquet'', ''b.parquet'']"
  "read_batches (sample_env p) sample_world [''a.parquet'', ''b.parquet''] = Inr [sample_row, sample_row]"
proof -
  have "sort [''a.parquet'', ''b.parquet''] = [''a.parquet'', ''b.parquet'']" by code_simp
  then show "merge_files 20 sample_world = [''a.parquet'', ''b.parquet'']"
    by (simp add: merge_files_def sample_world_def empty_store_def get_committed_parquet_files_def
        committed_filenames_def tbl_has_def del: sort_key_simps)
  show "read_batches (sample_env p) sample_world [''a.parquet'', ''b.parquet''] = Inr [sample_row, sample_row]"
    by (simp add: sample_env_def sample_world_def)
qed

theorem compaction_crash_safe_witness:
  "visible (run_steps (take 5 (compaction_steps (sample_env (\<lambda>p. Parsed 1 [])) 0 [] [sample_row, sample_row]
      [''a.parquet'', ''b.parquet''])) (draw_tick sample_world)) = visible sample_world"
  using compaction_crash_safe [where k = 5 and m = 20 and rows = "[sample_row, sample_row]",
      OF sample_store_inv sample_unique_names _ refl] sample_merge
  by (simp add: sample_world_def)

theorem compaction_result_witness:
  "fst (compact_parquet_files (sample_env (\<lambda>p. Parsed 1 [])) (0, 0) 20 sample_world) = Inr 2"
proof -
  let ?ev = "sample_env (\<lambda>p. Parsed 1 [])"
  obtain r w' where run: "compact_parquet_files ?ev (0, 0) 20 sample_world = (r, w')"
    by (cases "compact_parquet_files ?ev (0, 0) 20 sample_world")
  have "get_committed_parquet_files (Inr (control sample_world)) (parquet_dir sample_world) = [''a.parquet'', ''b.parquet'']"
    by code_simp
  moreover have "lock_idle (0, 0) (lifecycle_lock sample_world)"
    by (simp add: sample_world_def lock_idle_def lock_init_def)
  moreover have "map_of (parquet_dir sample_world) ''a.parquet'' = Some [sample_row]"
    "map_of (parquet_dir sample_world) ''b.parquet'' = Some [sample_row]"
    by (simp_all add: sample_world_def)
  moreover have "parquet_read_error ?ev f = None" "\<not> unlink_fails ?ev f" for f
    by (simp_all add: sample_env_def)
  ultimately show ?thesis
    using compaction_result [OF sample_store_inv sample_unique_names _ _ _ run] sample_merge(1)
    unfolding run by (simp add: Let_def)
qed

theorem orphan_cleanup_exact_witness:
  "\<exists>n w'. cleanup_orphaned_parquet_files (sample_env (\<lambda>p. Parsed 1 [])) None sample_world = (n, w') \<and>
     n + length (parquet_dir w') = 4"
proof -
  let ?ev = "sample_env (\<lambda>p. Parsed 1 [])"
  obtain n w' where run: "cleanup_orphaned_parquet_files ?ev None sample_world = (n, w')"
    by (cases "cleanup_orphaned_parquet_files ?ev None sample_world")
  have "length (parquet_dir sample_world) = 4" by (simp add: sample_world_def)
  with run orphan_cleanup_exact [OF sample_store_inv _ run] show ?thesis by (auto simp: sample_env_def)
qed

end
