(* ===== verification/Settings.thy ===== *)
theory Settings
  imports Otlp_Rows
begin

text \<open>
  The configuration of backend/app/settings.py: the record \<open>Settings\<close> and
  \<open>Settings.from_environment\<close> with its validation.  The parser of \<open>float\<close> and the resolution
  of a path by the operating system are parameters; a float is its 64 bits.
\<close>

record settings =
  data_path :: string
  wal_path :: string
  parquet_path :: string
  sqlite_path :: string
  materialize_interval_seconds :: "64 word"
  materialize_batch_size :: int
  max_wal_record_bytes :: int
  api_key :: "string option"
  require_auth :: bool
  auto_cleanup_wal :: bool

text \<open>\<open>int(text)\<close>: white space around, a sign, digits with single underscores between them.\<close>

fun int_digits :: "bool \<Rightarrow> string \<Rightarrow> string option" where
  "int_digits after_digit [] = (if after_digit then Some [] else None)"
| "int_digits after_digit (c # cs) =
     (if is_digit c then map_option (Cons c) (int_digits True cs)
      else if c = CHR ''_'' \<and> after_digit \<and> cs \<noteq> [] then int_digits False cs
      else None)"

definition py_int :: "string \<Rightarrow> exn + int" where
  "py_int text =
    (let t = py_strip text;
         negative = (t \<noteq> [] \<and> hd t = CHR ''-'');
         digits = (if t \<noteq> [] \<and> (hd t = CHR ''-'' \<or> hd t = CHR ''+'') then tl t else t)
     in case int_digits False digits of
          Some ds \<Rightarrow> Inr (if negative then - int (read_nat ds) else int (read_nat ds))
        | None \<Rightarrow> Inl (Value_Error (''invalid literal for int() with base 10: '' @ repr_string text)))"

definition py_float :: "(string \<Rightarrow> 64 word option) \<Rightarrow> string \<Rightarrow> exn + 64 word" where
  "py_float parse_float text =
    (case parse_float text of
       Some w \<Rightarrow> Inr w
     | None \<Rightarrow> Inl (Value_Error (''could not convert string to float: '' @ repr_string text)))"

text \<open>\<open>w < 0\<close> and \<open>w > 0\<close> for a double: no NaN, no zero, and the sign bit set, or clear.\<close>

definition float_nan :: "64 word \<Rightarrow> bool" where
  "float_nan w \<longleftrightarrow> take_bit 11 (drop_bit 52 w) = 0x7FF \<and> take_bit 52 w \<noteq> 0"

definition float_negative :: "64 word \<Rightarrow> bool" where
  "float_negative w \<longleftrightarrow> bit w 63 \<and> take_bit 63 w \<noteq> 0 \<and> \<not> float_nan w"

definition float_positive :: "64 word \<Rightarrow> bool" where
  "float_positive w \<longleftrightarrow> \<not> bit w 63 \<and> w \<noteq> 0 \<and> \<not> float_nan w"

definition env_or :: "(string \<Rightarrow> string option) \<Rightarrow> string \<Rightarrow> string \<Rightarrow> string" where
  "env_or environ name fallback = (case environ name of Some v \<Rightarrow> v | None \<Rightarrow> fallback)"

definition env_flag :: "(string \<Rightarrow> string option) \<Rightarrow> string \<Rightarrow> bool" where
  "env_flag environ name \<longleftrightarrow>
     py_lower (env_or environ name ''false'') \<in> {''true'', ''1'', ''yes''}"

definition from_environment :: "(string \<Rightarrow> string option) \<Rightarrow> (string \<Rightarrow> 64 word option) \<Rightarrow>
    (string \<Rightarrow> string) \<Rightarrow> exn + settings" where
  "from_environment environ parse_float resolve =
    (let data_dir = resolve (env_or environ ''LRCP_DATA_DIR'' ''./data'') in
     case py_float parse_float (env_or environ ''LRCP_MATERIALIZE_INTERVAL_SECONDS'' ''2.0'') of
       Inl e \<Rightarrow> Inl e
     | Inr interval \<Rightarrow>
     (case py_int (env_or environ ''LRCP_MATERIALIZE_BATCH_SIZE'' ''5000'') of
       Inl e \<Rightarrow> Inl e
     | Inr batch_size \<Rightarrow>
     (case py_int (env_or environ ''LRCP_MAX_WAL_RECORD_BYTES'' ''67108864'') of
       Inl e \<Rightarrow> Inl e
     | Inr max_record_bytes \<Rightarrow>
     (let key = (case environ ''LRCP_API_KEY'' of None \<Rightarrow> None | Some k \<Rightarrow> or_none (py_strip k));
          auth = env_flag environ ''LRCP_REQUIRE_AUTH'';
          auto_cleanup = env_flag environ ''LRCP_AUTO_CLEANUP_WAL''
      in if float_negative interval
         then Inl (Value_Error ''LRCP_MATERIALIZE_INTERVAL_SECONDS must be >= 0'')
         else if batch_size \<le> 0 then Inl (Value_Error ''LRCP_MATERIALIZE_BATCH_SIZE must be > 0'')
         else if max_record_bytes \<le> 0 then Inl (Value_Error ''LRCP_MAX_WAL_RECORD_BYTES must be > 0'')
         else if auth \<and> key = None
         then Inl (Value_Error ''LRCP_REQUIRE_AUTH is true but LRCP_API_KEY is not configured or empty'')
         else Inr \<lparr> data_path = data_dir,
           wal_path = resolve (env_or environ ''LRCP_WAL_DIR'' (data_dir @ ''/wal'')),
           parquet_path = resolve (env_or environ ''LRCP_PARQUET_DIR'' (data_dir @ ''/parquet'')),
           sqlite_path = resolve (env_or environ ''LRCP_SQLITE_PATH'' (data_dir @ ''/control.db'')),
           materialize_interval_seconds = interval,
           materialize_batch_size = batch_size,
           max_wal_record_bytes = max_record_bytes,
           api_key = key,
           require_auth = auth,
           auto_cleanup_wal = auto_cleanup \<rparr>))))"

section \<open>Lemmas\<close>

lemma int_digits_plain: "list_all is_digit s \<Longrightarrow> s \<noteq> [] \<or> b \<Longrightarrow> int_digits b s = Some s"
  by (induction s arbitrary: b) auto

lemma digit_not_space: "is_digit c \<Longrightarrow> \<not> is_space c"
  by (auto simp: is_digit_def is_space_def Let_def)

lemma strip_digits: "list_all is_digit s \<Longrightarrow> py_strip s = s"
proof -
  assume d: "list_all is_digit s"
  then have 1: "dropWhile is_space s = s" by (cases s) (auto dest: digit_not_space)
  have "dropWhile is_space (rev s) = rev s"
    using d by (cases s rule: rev_cases) (auto dest: digit_not_space)
  with 1 show ?thesis by (simp add: py_strip_def)
qed

lemma py_int_show_nat: "py_int (show_nat n) = Inr (int n)"
proof -
  have "hd (show_nat n) \<noteq> CHR ''-''" "hd (show_nat n) \<noteq> CHR ''+''"
    using show_nat_digits [of n] show_nat_nonempty [of n]
    by (cases "show_nat n"; auto simp: is_digit_def)+
  then show ?thesis
    by (simp add: py_int_def strip_digits show_nat_digits int_digits_plain show_nat_nonempty)
qed

section \<open>Properties\<close>

text \<open>
  C36: Configuration fails closed.  Whatever the environment, settings that load have a positive
  batch size and record limit and an interval that is not negative; and if they require
  authentication, there is an administrator key, not empty and without white space around.
\<close>

theorem settings_fail_closed:
  assumes "from_environment environ parse_float resolve = Inr s"
  shows "0 < materialize_batch_size s \<and> 0 < max_wal_record_bytes s \<and>
    \<not> float_negative (materialize_interval_seconds s) \<and>
    (require_auth s \<longrightarrow> (\<exists>k. api_key s = Some k \<and> k \<noteq> [] \<and> py_strip k = k))"
  using assms
  by (auto simp: from_environment_def Let_def or_none_def split: sum.splits if_splits option.splits)

text \<open>
  The defaults.  In an environment that sets nothing, the settings are those of the code's
  default arguments: no key, no authentication, and no automatic cleanup of the WAL.
\<close>

theorem settings_defaults:
  assumes "parse_float ''2.0'' = Some interval" "\<not> float_negative interval"
  shows "from_environment (\<lambda>_. None) parse_float resolve = Inr \<lparr>
    data_path = resolve ''./data'', wal_path = resolve (resolve ''./data'' @ ''/wal''),
    parquet_path = resolve (resolve ''./data'' @ ''/parquet''),
    sqlite_path = resolve (resolve ''./data'' @ ''/control.db''),
    materialize_interval_seconds = interval, materialize_batch_size = 5000,
    max_wal_record_bytes = 64 * 1024 * 1024, api_key = None, require_auth = False,
    auto_cleanup_wal = False \<rparr>"
proof -
  have "py_int ''5000'' = Inr 5000"
    by (simp add: py_int_def strip_digits int_digits_plain is_digit_def read_nat_def digit_val_def)
  moreover have "py_int ''67108864'' = Inr 67108864"
    by (simp add: py_int_def strip_digits int_digits_plain is_digit_def read_nat_def digit_val_def)
  moreover have "\<not> env_flag (\<lambda>_. None) name" for name
    by (simp add: env_flag_def env_or_def py_lower_def lower_char_def Let_def)
  ultimately show ?thesis
    using assms by (simp add: from_environment_def env_or_def py_float_def Let_def)
qed

text \<open>The double 2.0, and an environment that requires authentication with a padded key.\<close>

definition sample_float :: "string \<Rightarrow> 64 word option" where
  "sample_float text = (if text = ''2.0'' then Some 0x4000000000000000 else None)"

definition sample_environ :: "string \<Rightarrow> string option" where
  "sample_environ name =
     (if name = ''LRCP_API_KEY'' then Some '' k '' else if name = ''LRCP_REQUIRE_AUTH'' then Some ''True''
      else None)"

lemma sample_float_positive: "\<not> float_negative 0x4000000000000000"
  by code_simp

theorem settings_fail_closed_witness:
  "\<exists>s. from_environment sample_environ sample_float (\<lambda>p. p) = Inr s \<and> require_auth s \<and> api_key s = Some ''k''"
proof -
  have 1: "py_int ''5000'' = Inr 5000" "py_int ''67108864'' = Inr 67108864"
    by (simp_all add: py_int_def strip_digits int_digits_plain is_digit_def read_nat_def digit_val_def)
  have 2: "env_flag sample_environ ''LRCP_REQUIRE_AUTH''" by code_simp
  have 3: "py_strip '' k '' = ''k''" by code_simp
  have "\<exists>s. from_environment sample_environ sample_float (\<lambda>p. p) = Inr s \<and> api_key s = Some ''k'' \<and>
      require_auth s"
    using 1 2 3 sample_float_positive
    by (simp add: from_environment_def env_or_def py_float_def Let_def sample_environ_def sample_float_def or_none_def)
  then obtain s where s: "from_environment sample_environ sample_float (\<lambda>p. p) = Inr s" "require_auth s" by blast
  from settings_fail_closed [OF s(1)] s(2) obtain k where "api_key s = Some k" by blast
  with s \<open>\<exists>s. _\<close> show ?thesis by auto
qed

theorem settings_defaults_witness:
  "\<exists>s. from_environment (\<lambda>_. None) sample_float (\<lambda>p. p) = Inr s \<and> \<not> auto_cleanup_wal s"
  using settings_defaults [of sample_float, OF _ sample_float_positive] by (simp add: sample_float_def)

end
