(* ===== verification/Materialize.thy ===== *)
theory Materialize
  imports Parquet_Store Settings
begin

text \<open>
  The materialisation of backend/app/materializer.py: \<open>materialize\<close> and
  \<open>cleanup_materialized_wal_files\<close>, statement by statement over the world of the Parquet
  store.  The local variables of the batch are part of the state, because the exception
  handler of the loop reads them.  A segment is read as it is when its turn comes.  No file
  access and no transaction fails here: \<open>materialize_io\<close> of Io_Errors is the run with the failing
  ones, and this one without them (\<open>materialize_no_fault\<close>).
\<close>

section \<open>WAL cleanup\<close>

text \<open>\<open>cleanup_materialized_wal_files\<close>: one segment, then the loop over all but the last.\<close>

definition delete_segment :: "env \<Rightarrow> string set \<Rightarrow> string \<Rightarrow> world \<Rightarrow> string list \<times> world" where
  "delete_segment ev fully_materialized f w =
    (if f \<in> fully_materialized \<and> \<not> unlink_fails ev f
     then ([f], w\<lparr>wal_dir := tbl_remove f (wal_dir w),
            control := (control w)\<lparr>wal_file_lifecycle :=
              tbl_replace f \<lparr>lc_status = DELETED, bytes_size = 0\<rparr> (wal_file_lifecycle (control w))\<rparr>\<rparr>)
     else ([], w))"

fun delete_segments :: "env \<Rightarrow> string set \<Rightarrow> string list \<Rightarrow> world \<Rightarrow> string list \<times> world" where
  "delete_segments ev fully_materialized [] w = ([], w)"
| "delete_segments ev fully_materialized (f # fs) w =
    (let (d, w1) = delete_segment ev fully_materialized f w;
         (ds, w2) = delete_segments ev fully_materialized fs w1
     in (d @ ds, w2))"

definition fully_processed_files :: "control_store \<Rightarrow> string set" where
  "fully_processed_files db =
     set (map fst (filter (\<lambda>(f, row). is_fully_processed row) (materialized_wal_offsets db)))"

definition wal_cleanup_body :: "env \<Rightarrow> (world, exn, string list) eff" where
  "wal_cleanup_body ev w =
    (let wal_files = sorted_wal_files (keys (wal_dir w)) in
     if length wal_files \<le> 1 then (Inr [], w)
     else let (deleted, w') = delete_segments ev (fully_processed_files (control w)) (butlast wal_files) w
       in (Inr deleted, w'))"

definition cleanup_materialized_wal_files :: "env \<Rightarrow> agent \<Rightarrow> (world, exn, string list) eff" where
  "cleanup_materialized_wal_files ev a = with_lifecycle_lock a (wal_cleanup_body ev)"

section \<open>Materialisation\<close>

record batch =
  batch_rows :: "span_row list"
  batch_entries :: "(string \<times> nat \<times> string) list"
  batch_offsets :: "(string, nat) table"
  total_spans :: nat

type_synonym mstate = "world \<times> batch"

definition empty_batch :: batch where
  "empty_batch = \<lparr> batch_rows = [], batch_entries = [], batch_offsets = [], total_spans = 0 \<rparr>"

text \<open>The flush of the current batch, which occurs three times in the code.\<close>

definition flush_current :: "env \<Rightarrow> (mstate, exn, unit) eff" where
  "flush_current ev = (\<lambda>(w, b).
    (case flush_batch ev (batch_rows b) (map (\<lambda>(f, off, _). (f, off, '''')) (batch_entries b))
       (batch_offsets b) w of
       (Inl e, w') \<Rightarrow> (Inl e, (w', b))
     | (Inr _, w') \<Rightarrow> (Inr (), (w', \<lparr> batch_rows = [], batch_entries = [], batch_offsets = [],
          total_spans = total_spans b + length (batch_rows b) \<rparr>))))"

text \<open>The body of the loop over the records of a segment.\<close>

definition process_record :: "settings \<Rightarrow> env \<Rightarrow> string \<Rightarrow> wal_record \<Rightarrow> (mstate, exn, unit) eff" where
  "process_record st ev filename r = (\<lambda>(w, b).
    (case rows_of ev (rec_payload r) filename (rec_start r) of
       Inl e \<Rightarrow> (Inl e, (w, b))
     | Inr rows \<Rightarrow>
         (let b' = b\<lparr> batch_rows := batch_rows b @ rows,
               batch_entries := batch_entries b @ map (\<lambda>_. (filename, rec_start r, '''')) rows,
               batch_offsets := tbl_put filename (rec_end r) (batch_offsets b) \<rparr>
          in if int (length (batch_rows b')) \<ge> materialize_batch_size st
             then flush_current ev (w, b')
             else (Inr (), (w, b')))))"

text \<open>The loop: the records, then the exception the reader ends with, if it does.\<close>

fun process_records :: "settings \<Rightarrow> env \<Rightarrow> string \<Rightarrow> wal_record list \<Rightarrow> wal_corruption option \<Rightarrow>
    (mstate, exn, unit) eff" where
  "process_records st ev filename [] stop =
     (case stop of None \<Rightarrow> ret () | Some c \<Rightarrow> throw (Wal_Corruption c))"
| "process_records st ev filename (r # rs) stop =
     bindE (process_record st ev filename r) (\<lambda>_. process_records st ev filename rs stop)"

definition current_offset :: "string \<Rightarrow> nat \<Rightarrow> batch \<Rightarrow> nat" where
  "current_offset filename start_offset b =
     (case map_of (batch_offsets b) filename of Some off \<Rightarrow> off | None \<Rightarrow> start_offset)"

text \<open>The mark of a sealed segment that was read to its end.\<close>

definition mark_sealed :: "string option \<Rightarrow> string \<Rightarrow> nat \<Rightarrow> nat \<Rightarrow> (mstate, exn, unit) eff" where
  "mark_sealed active filename file_size start_offset = updE (\<lambda>(w, b).
    if Some filename \<noteq> active \<and> file_size = current_offset filename start_offset b
    then (w\<lparr>control := (control w)\<lparr>materialized_wal_offsets :=
            tbl_upsert filename \<lparr>max_offset = file_size, is_fully_processed = True\<rparr>
              (\<lambda>old. old\<lparr>is_fully_processed := True\<rparr>) (materialized_wal_offsets (control w))\<rparr>\<rparr>, b)
    else (w, b))"

text \<open>The exception handler: flush what is valid, record the corruption, quarantine the segment.\<close>

definition record_corruption :: "string \<Rightarrow> nat \<Rightarrow> string \<Rightarrow> nat \<Rightarrow> control_store \<Rightarrow> control_store" where
  "record_corruption filename corrupt_offset error_msg file_size db = db\<lparr>
     wal_corruption_events := wal_corruption_events db @
       [\<lparr>ce_source_file = filename, ce_offset = corrupt_offset, ce_reason = error_msg\<rparr>],
     wal_file_lifecycle :=
       tbl_replace filename \<lparr>lc_status = QUARANTINED, bytes_size = file_size\<rparr> (wal_file_lifecycle db)\<rparr>"

definition corruption_offset :: "exn \<Rightarrow> nat \<Rightarrow> nat" where
  "corruption_offset e fallback = (case e of Wal_Corruption c \<Rightarrow> wc_offset c | _ \<Rightarrow> fallback)"

definition handle_corruption :: "env \<Rightarrow> string \<Rightarrow> nat \<Rightarrow> nat \<Rightarrow> exn \<Rightarrow> (mstate, exn, unit) eff" where
  "handle_corruption ev filename file_size start_offset e = (\<lambda>(w, b).
    (let corrupt_offset = corruption_offset e (current_offset filename start_offset b) in
     bindE (if batch_rows b \<noteq> [] then flush_current ev else ret ())
       (\<lambda>_. updE (\<lambda>(w, b).
          (w\<lparr>control := record_corruption filename corrupt_offset (exn_message e) file_size (control w)\<rparr>, b)))
       (w, b)))"

text \<open>The body of the loop over the segments, with its early \<open>continue\<close>s.\<close>

definition try_except :: "(mstate, exn, unit) eff \<Rightarrow> (exn \<Rightarrow> (mstate, exn, unit) eff) \<Rightarrow> (mstate, exn, unit) eff" where
  "try_except body handler s =
    (case body s of
       (Inl e, s') \<Rightarrow> if is_value_error e then handler e s' else (Inl e, s')
     | (Inr x, s') \<Rightarrow> (Inr x, s'))"

definition skip_file :: "control_store \<Rightarrow> string \<Rightarrow> nat \<Rightarrow> nat \<Rightarrow> bool" where
  "skip_file db filename start_offset file_size \<longleftrightarrow>
     filename \<in> set (map ce_source_file (wal_corruption_events db)) \<or>
     filename \<in> fully_processed_files db \<and> start_offset \<ge> file_size \<or>
     start_offset \<ge> file_size \<and> file_size > 0"

text \<open>\<open>processed_offsets.get(filename, 0)\<close>\<close>

definition offset_of :: "control_store \<Rightarrow> string \<Rightarrow> nat" where
  "offset_of db filename = (case map_of (materialized_wal_offsets db) filename of
     Some row \<Rightarrow> max_offset row | None \<Rightarrow> 0)"

definition segment_bytes :: "world \<Rightarrow> string \<Rightarrow> byte list" where
  "segment_bytes w f = (case map_of (wal_dir w) f of Some content \<Rightarrow> content | None \<Rightarrow> [])"

definition process_file :: "settings \<Rightarrow> env \<Rightarrow> control_store \<Rightarrow> string option \<Rightarrow> string \<Rightarrow>
    (mstate, exn, unit) eff" where
  "process_file st ev db0 active filename = (\<lambda>(w, b).
    (let content = segment_bytes w filename;
         file_size = length content;
         start_offset = offset_of db0 filename
     in if skip_file db0 filename start_offset file_size then (Inr (), (w, b))
        else let (records, stop) = wal_records_from filename content start_offset (max_wal_record_bytes st)
          in try_except
               (bindE (process_records st ev filename records stop)
                 (\<lambda>_. mark_sealed active filename file_size start_offset))
               (handle_corruption ev filename file_size start_offset) (w, b)))"

fun process_files :: "settings \<Rightarrow> env \<Rightarrow> control_store \<Rightarrow> string option \<Rightarrow> string list \<Rightarrow>
    (mstate, exn, unit) eff" where
  "process_files st ev db0 active [] = ret ()"
| "process_files st ev db0 active (f # fs) =
     bindE (process_file st ev db0 active f) (\<lambda>_. process_files st ev db0 active fs)"

text \<open>
  \<open>materialize\<close>, inside the lock; \<open>db0\<close> is the control store as it is queried at the start.  The
  \<open>OSError\<close> of a directory or a segment and the errors of SQLite are in \<open>materialize_io\<close>.
\<close>

definition materialize_body :: "settings \<Rightarrow> env \<Rightarrow> agent \<Rightarrow> (world, exn, nat) eff" where
  "materialize_body st ev a w =
    (let (_, w) = cleanup_orphaned_parquet_files ev (manifest_error ev) w;
         db0 = control w;
         wal_files = sorted_wal_files (keys (wal_dir w))
     in if wal_files = [] then (Inr 0, w)
        else case bindE (process_files st ev db0 (active_wal_filename wal_files) wal_files)
               (\<lambda>_ s. if batch_rows (snd s) \<noteq> [] then flush_current ev s else (Inr (), s)) (w, empty_batch) of
          (Inl e, (w, b)) \<Rightarrow> (Inl e, w)
        | (Inr _, (w, b)) \<Rightarrow>
            if auto_cleanup_wal st
            then (case cleanup_materialized_wal_files ev a w of
                    (Inl e, w) \<Rightarrow> (Inl e, w)
                  | (Inr _, w) \<Rightarrow> (Inr (total_spans b), w))
            else (Inr (total_spans b), w))"

definition materialize :: "settings \<Rightarrow> env \<Rightarrow> agent \<Rightarrow> (world, exn, nat) eff" where
  "materialize st ev a = with_lifecycle_lock a (materialize_body st ev a)"

end
