(* ===== verification/Materialize_Spec.thy ===== *)
theory Materialize_Spec
  imports Materialize
begin

text \<open>
  What the materialiser promises, and the proof that it does: the rows a segment stands for,
  the accounting of visible rows against offsets (each record exactly once), the result of an
  undisturbed run, the bound on a batch, quarantine, and the safety of WAL cleanup.
\<close>

section \<open>The rows of a segment\<close>

text \<open>
  The records of a segment up to the first that does not parse, the rows of those that end at
  or before an offset, and the offsets at which such a record ends.
\<close>

definition parses :: "env \<Rightarrow> string \<Rightarrow> wal_record \<Rightarrow> bool" where
  "parses ev f r = (case rows_of ev (rec_payload r) f (rec_start r) of Inr _ \<Rightarrow> True | Inl _ \<Rightarrow> False)"

definition record_rows :: "env \<Rightarrow> string \<Rightarrow> wal_record \<Rightarrow> span_row list" where
  "record_rows ev f r = (case rows_of ev (rec_payload r) f (rec_start r) of Inr rows \<Rightarrow> rows | Inl _ \<Rightarrow> [])"

definition good_records :: "settings \<Rightarrow> env \<Rightarrow> string \<Rightarrow> byte list \<Rightarrow> nat \<Rightarrow> wal_record list" where
  "good_records st ev f content start =
     takeWhile (parses ev f) (fst (wal_records_from f content start (max_wal_record_bytes st)))"

definition rows_upto :: "settings \<Rightarrow> env \<Rightarrow> string \<Rightarrow> byte list \<Rightarrow> nat \<Rightarrow> span_row list" where
  "rows_upto st ev f content p =
     concat (map (record_rows ev f) (filter (\<lambda>r. rec_end r \<le> p) (good_records st ev f content 0)))"

definition rows_after :: "settings \<Rightarrow> env \<Rightarrow> string \<Rightarrow> byte list \<Rightarrow> nat \<Rightarrow> span_row list" where
  "rows_after st ev f content p = concat (map (record_rows ev f) (good_records st ev f content p))"

definition boundary :: "settings \<Rightarrow> env \<Rightarrow> string \<Rightarrow> byte list \<Rightarrow> nat \<Rightarrow> bool" where
  "boundary st ev f content p \<longleftrightarrow> p = 0 \<or> p \<in> rec_end ` set (good_records st ev f content 0)"

lemma layout_bounds:
  "r \<in> set (layout k ps) \<Longrightarrow> k < rec_end r \<and> rec_end r \<le> k + length (encode_records ps)"
  by (induction ps arbitrary: k) (force simp: record_header_size_def)+

lemma layout_sorted: "sorted_wrt (\<lambda>a b. rec_end a < rec_end b) (layout k ps)"
proof (induction ps arbitrary: k)
  case (Cons q ps)
  have "k + record_header_size + length q < rec_end y"
    if "y \<in> set (layout (k + record_header_size + length q) ps)" for y
    using layout_bounds [OF that] by simp
  with Cons show ?case by simp
qed simp

lemma layout_split:
  "layout k ps = xs @ r # ys \<Longrightarrow>
     \<exists>as bs. ps = as @ bs \<and> rec_end r = k + length (encode_records as) \<and>
       xs @ [r] = layout k as \<and> ys = layout (rec_end r) bs"
proof (induction ps arbitrary: k xs)
  case (Cons p ps)
  let ?k = "k + record_header_size + length p"
  show ?case
  proof (cases xs)
    case Nil
    with Cons.prems show ?thesis
      by (intro exI [of _ "[p]"] exI [of _ ps]) auto
  next
    case (Cons x xs')
    with Cons.prems have x: "x = (k, ?k, p)" and "layout ?k ps = xs' @ r # ys" by simp_all
    with Cons.IH obtain as bs where as: "ps = as @ bs" "rec_end r = ?k + length (encode_records as)"
      "xs' @ [r] = layout ?k as" "ys = layout (rec_end r) bs" by metis
    show ?thesis
      by (intro exI [of _ "p # as"] exI [of _ bs]) (use as x Cons in simp)
  qed
qed simp

text \<open>
  Reading from the end of a record yields the records after it, with the same outcome.
\<close>

lemma wal_records_from_boundary:
  assumes all: "wal_records_from f content 0 limit = (xs @ r # ys, stop)"
  shows "wal_records_from f content (rec_end r) limit = (ys, stop) \<and> 0 < rec_end r \<and> rec_end r \<le> length content"
proof -
  from all obtain ps rest where *: "content = encode_records ps @ rest" "list_all (good_payload limit) ps"
    "\<not> (\<exists>p. read_record limit rest = Frame_Ok p)" "xs @ r # ys = layout 0 ps"
    "stop = stop_at f limit (0 + length (encode_records ps)) rest"
    unfolding wal_records_from_def drop_0 by (rule wal_loop_elim)
  from layout_split [OF *(4) [symmetric]] obtain as bs where ab: "ps = as @ bs"
    "rec_end r = length (encode_records as)" "xs @ [r] = layout 0 as" "ys = layout (rec_end r) bs" by auto
  have "drop (rec_end r) content = encode_records bs @ rest" using * ab by simp
  then have "wal_records_from f content (rec_end r) limit =
      (layout (rec_end r) bs, stop_at f limit (rec_end r + length (encode_records bs)) rest)"
    using * ab wal_loop_encoded [of limit bs rest f "rec_end r"] by (simp add: wal_records_from_def)
  moreover have "r \<in> set (layout 0 as)" using ab(3) by (metis in_set_conv_decomp)
  then have "0 < rec_end r" using layout_bounds by blast
  ultimately show ?thesis using * ab by simp
qed

lemma wal_records_sorted: "sorted_wrt (\<lambda>a b. rec_end a < rec_end b) (fst (wal_records_from f content k limit))"
  using wal_loop_decompose [of "drop k content" limit f k] layout_sorted
  unfolding wal_records_from_def by (metis fst_conv)

lemma good_records_sorted: "sorted_wrt (\<lambda>a b. rec_end a < rec_end b) (good_records st ev f content k)"
proof -
  let ?rs = "fst (wal_records_from f content k (max_wal_record_bytes st))"
  have "sorted_wrt (\<lambda>a b. rec_end a < rec_end b) (takeWhile (parses ev f) ?rs @ dropWhile (parses ev f) ?rs)"
    by (simp only: takeWhile_dropWhile_id wal_records_sorted)
  then show ?thesis unfolding good_records_def sorted_wrt_append by blast
qed

lemma filter_sorted_upto:
  assumes "sorted_wrt (\<lambda>a b. g a < (g b :: nat)) (xs @ r # ys)"
  shows "filter (\<lambda>x. g x \<le> g r) (xs @ r # ys) = xs @ [r]"
proof -
  have "\<forall>x \<in> set xs. g x \<le> g r" "\<forall>y \<in> set ys. \<not> g y \<le> g r"
    using assms by (auto simp: sorted_wrt_append)
  then have "filter (\<lambda>x. g x \<le> g r) xs = xs" "filter (\<lambda>x. g x \<le> g r) ys = []"
    by (simp_all only: filter_id_conv filter_empty_conv)
  then show ?thesis by simp
qed

text \<open>At the end of a good record the segment splits.\<close>

lemma good_records_split:
  assumes G: "good_records st ev f content 0 = xs @ r # ys"
  shows "good_records st ev f content (rec_end r) = ys"
    and "filter (\<lambda>x. rec_end x \<le> rec_end r) (good_records st ev f content 0) = xs @ [r]"
    and "0 < rec_end r" and "rec_end r \<le> length content"
proof -
  obtain rs stop where rs: "wal_records_from f content 0 (max_wal_record_bytes st) = (rs, stop)" by fastforce
  define vs where "vs = dropWhile (parses ev f) rs"
  have rs_eq: "rs = xs @ r # ys @ vs"
    using G takeWhile_dropWhile_id [of "parses ev f" rs] by (simp add: good_records_def rs vs_def)
  note b = wal_records_from_boundary [OF rs [unfolded rs_eq]]
  have ok: "parses ev f x" if "x \<in> set (xs @ [r])" for x
  proof -
    have "x \<in> set (takeWhile (parses ev f) rs)" using G that by (simp add: good_records_def rs) blast
    then show ?thesis using set_takeWhileD by fast
  qed
  have "takeWhile (parses ev f) ((xs @ [r]) @ (ys @ vs)) = (xs @ [r]) @ takeWhile (parses ev f) (ys @ vs)"
    using ok by (rule takeWhile_append2)
  moreover have "takeWhile (parses ev f) ((xs @ [r]) @ (ys @ vs)) = (xs @ [r]) @ ys"
    using G by (simp add: good_records_def rs rs_eq)
  ultimately have "takeWhile (parses ev f) (ys @ vs) = ys" by (simp only: same_append_eq)
  then show "good_records st ev f content (rec_end r) = ys" using b by (simp add: good_records_def)
  show "filter (\<lambda>x. rec_end x \<le> rec_end r) (good_records st ev f content 0) = xs @ [r]"
    using good_records_sorted [of st ev f content 0] unfolding G by (rule filter_sorted_upto)
  show "0 < rec_end r" "rec_end r \<le> length content" using b by blast+
qed

lemma rows_upto_end:
  assumes "good_records st ev f content 0 = xs @ r # ys"
  shows "rows_upto st ev f content (rec_end r) = concat (map (record_rows ev f) (xs @ [r]))"
  unfolding rows_upto_def good_records_split(2) [OF assms] by (rule refl)

lemma boundary_0 [simp]: "boundary st ev f content 0"
  by (simp add: boundary_def)

lemma rows_upto_0 [simp]: "rows_upto st ev f content 0 = []"
proof -
  have "\<not> rec_end r \<le> 0" if "r \<in> set (good_records st ev f content 0)" for r
    using that good_records_split(3) by (fastforce dest: split_list)
  then show ?thesis by (simp add: rows_upto_def filter_empty_conv del: le_zero_eq)
qed

lemma boundaryE:
  assumes "boundary st ev f content p" "p \<noteq> 0"
  obtains xs r ys where "good_records st ev f content 0 = xs @ r # ys" "p = rec_end r"
  using assms by (auto simp: boundary_def dest: split_list)

lemma boundary_le: "boundary st ev f content p \<Longrightarrow> p \<le> length content"
  by (cases "p = 0") (auto elim: boundaryE dest: good_records_split(4))

lemma rows_split:
  assumes "boundary st ev f content p"
  shows "rows_upto st ev f content p @ rows_after st ev f content p = rows_after st ev f content 0"
proof (cases "p = 0")
  case False
  with assms obtain xs r ys where G: "good_records st ev f content 0 = xs @ r # ys" "p = rec_end r"
    by (rule boundaryE)
  then show ?thesis
    by (simp add: rows_upto_end [OF G(1)] rows_after_def good_records_split(1) [OF G(1)])
qed simp

text \<open>Records read from a boundary end at boundaries.\<close>

lemma boundary_step:
  assumes "boundary st ev f content p" "good_records st ev f content p = xs @ r # ys"
  shows "boundary st ev f content (rec_end r)" and "p < rec_end r"
    and "rows_upto st ev f content (rec_end r) =
      rows_upto st ev f content p @ concat (map (record_rows ev f) (xs @ [r]))"
proof -
  have "boundary st ev f content (rec_end r) \<and> p < rec_end r \<and> rows_upto st ev f content (rec_end r) =
      rows_upto st ev f content p @ concat (map (record_rows ev f) (xs @ [r]))"
  proof (cases "p = 0")
    case True
    then show ?thesis
      using assms(2) by (auto simp: boundary_def rows_upto_end good_records_split(3))
  next
    case False
    with assms(1) obtain as q bs where G: "good_records st ev f content 0 = as @ q # bs" "p = rec_end q"
      by (rule boundaryE)
    then have bs: "bs = xs @ r # ys" using assms(2) good_records_split(1) [OF G(1)] by simp
    then have G': "good_records st ev f content 0 = (as @ q # xs) @ r # ys" using G by simp
    have "p < rec_end r"
      using good_records_sorted [of st ev f content 0] by (simp add: G' G(2) sorted_wrt_append)
    then show ?thesis
      using G' rows_upto_end [OF G(1)] rows_upto_end [OF G'] G(2) by (auto simp: boundary_def)
  qed
  then show "boundary st ev f content (rec_end r)" "p < rec_end r"
    "rows_upto st ev f content (rec_end r) =
      rows_upto st ev f content p @ concat (map (record_rows ev f) (xs @ [r]))" by blast+
qed

lemma rows_upto_mono:
  "p \<le> q \<Longrightarrow> mset (rows_upto st ev f content p) \<subseteq># mset (rows_upto st ev f content q)"
proof -
  assume "p \<le> q"
  have "mset (concat (map g (filter (\<lambda>r. rec_end r \<le> p) rs))) \<subseteq>#
      mset (concat (map g (filter (\<lambda>r. rec_end r \<le> q) rs)))" for g and rs :: "wal_record list"
    using \<open>p \<le> q\<close> by (induction rs) (auto intro: subset_mset.add_mono subset_mset.add_increasing)
  then show ?thesis unfolding rows_upto_def .
qed

section \<open>Accounting\<close>

text \<open>
  The log has every byte the gateway ever appended, by segment, also of the segments that are
  deleted since.  Given a position in each segment, the rows up to there over all segments.
\<close>

type_synonym wal_log = "(string, byte list) table"

definition log_bytes :: "wal_log \<Rightarrow> string \<Rightarrow> byte list" where
  "log_bytes log f = (case map_of log f of Some content \<Rightarrow> content | None \<Rightarrow> [])"

definition rows_at :: "settings \<Rightarrow> env \<Rightarrow> wal_log \<Rightarrow> (string \<Rightarrow> nat) \<Rightarrow> span_row multiset" where
  "rows_at st ev log g = (\<Sum>f \<in> set (keys log). mset (rows_upto st ev f (log_bytes log f) (g f)))"

definition log_covers :: "wal_log \<Rightarrow> world \<Rightarrow> bool" where
  "log_covers log w \<longleftrightarrow> (\<forall>f content. map_of (wal_dir w) f = Some content \<longrightarrow> map_of log f = Some content)"

text \<open>How far a segment has been read: the offset of the batch, or the one in the database.\<close>

definition position :: "mstate \<Rightarrow> string \<Rightarrow> nat" where
  "position = (\<lambda>(w, b) f. case map_of (batch_offsets b) f of
     Some off \<Rightarrow> off | None \<Rightarrow> offset_of (control w) f)"

text \<open>
  The invariant of a run.  \<open>lost\<close> are the rows that an earlier run has passed over.  The
  offsets in the database are never behind the visible rows, and the visible rows with those of
  the batch are the rows up to the positions read.
\<close>

definition run_inv :: "settings \<Rightarrow> env \<Rightarrow> wal_log \<Rightarrow> span_row multiset \<Rightarrow> nat \<Rightarrow> mstate \<Rightarrow> bool" where
  "run_inv st ev log lost before = (\<lambda>(w, b).
     store_inv ev w \<and> log_covers log w \<and> distinct (keys (batch_offsets b)) \<and>
     (\<forall>f. offset_of (control w) f \<le> position (w, b) f \<and>
        boundary st ev f (log_bytes log f) (offset_of (control w) f) \<and>
        boundary st ev f (log_bytes log f) (position (w, b) f)) \<and>
     (\<exists>base. (\<forall>f. base f \<le> offset_of (control w) f) \<and> visible w + lost = rows_at st ev log base) \<and>
     visible w + mset (batch_rows b) + lost = rows_at st ev log (position (w, b)) \<and>
     size (visible w) = before + total_spans b)"

lemma rows_at_mono:
  assumes "\<And>f. g f \<le> h f"
  shows "rows_at st ev log g \<subseteq># rows_at st ev log h"
proof -
  have "(\<Sum>f \<in> A. mset (rows_upto st ev f (log_bytes log f) (g f))) \<subseteq>#
      (\<Sum>f \<in> A. mset (rows_upto st ev f (log_bytes log f) (h f)))" if "finite A" for A
    using that by (induction A) (auto intro!: subset_mset.add_mono rows_upto_mono assms)
  then show ?thesis unfolding rows_at_def by simp
qed

lemma rows_at_update:
  assumes "f \<in> set (keys log)" "\<And>h. h \<noteq> f \<Longrightarrow> g' h = g h"
    and "rows_upto st ev f (log_bytes log f) (g' f) = rows_upto st ev f (log_bytes log f) (g f) @ rows"
  shows "rows_at st ev log g' = rows_at st ev log g + mset rows"
proof -
  have "rows_at st ev log g' = mset (rows_upto st ev f (log_bytes log f) (g' f)) +
      (\<Sum>h \<in> set (keys log) - {f}. mset (rows_upto st ev h (log_bytes log h) (g' h)))"
    unfolding rows_at_def using assms(1) by (intro sum.remove) auto
  also have "(\<Sum>h \<in> set (keys log) - {f}. mset (rows_upto st ev h (log_bytes log h) (g' h))) =
      (\<Sum>h \<in> set (keys log) - {f}. mset (rows_upto st ev h (log_bytes log h) (g h)))"
    using assms(2) by (intro sum.cong) auto
  also have "mset (rows_upto st ev f (log_bytes log f) (g' f)) + \<dots> =
      (mset (rows_upto st ev f (log_bytes log f) (g f)) +
        (\<Sum>h \<in> set (keys log) - {f}. mset (rows_upto st ev h (log_bytes log h) (g h)))) + mset rows"
    by (simp add: assms(3))
  also have "mset (rows_upto st ev f (log_bytes log f) (g f)) +
      (\<Sum>h \<in> set (keys log) - {f}. mset (rows_upto st ev h (log_bytes log h) (g h))) = rows_at st ev log g"
    unfolding rows_at_def using assms(1) by (intro sum.remove [symmetric]) auto
  finally show ?thesis .
qed

lemma rows_at_cong: "(\<And>f. g f = h f) \<Longrightarrow> rows_at st ev log g = rows_at st ev log h"
  by (simp add: rows_at_def)

text \<open>The offsets after the transaction of a batch.\<close>

lemma map_of_raise_offset:
  "map_of (raise_offset f off t) = (map_of t)(f \<mapsto> (case map_of t f of
     None \<Rightarrow> \<lparr>max_offset = off, is_fully_processed = False\<rparr>
   | Some old \<Rightarrow> old\<lparr>max_offset := max (max_offset old) off\<rparr>))"
  by (simp add: raise_offset_def map_of_upsert)

lemma map_of_raise_offsets:
  assumes "distinct (keys offs)"
  shows "map_of (fold (\<lambda>(f, off). raise_offset f off) offs t) g = (case map_of offs g of
     None \<Rightarrow> map_of t g
   | Some off \<Rightarrow> Some (case map_of t g of
       None \<Rightarrow> \<lparr>max_offset = off, is_fully_processed = False\<rparr>
     | Some old \<Rightarrow> old\<lparr>max_offset := max (max_offset old) off\<rparr>))"
  using assms
proof (induction offs arbitrary: t)
  case (Cons fo offs)
  obtain f off where fo: "fo = (f, off)" by (cases fo)
  with Cons.prems have "map_of offs f = None" "distinct (keys offs)" by (auto simp: map_of_eq_None_iff)
  with Cons.IH [of "raise_offset f off t"] show ?case
    by (auto simp: fo map_of_raise_offset split: option.splits)
qed simp

lemma offset_of_commit_batch:
  assumes "distinct (keys offs)"
  shows "offset_of (commit_batch fn n es offs db) f = (case map_of offs f of
     None \<Rightarrow> offset_of db f | Some off \<Rightarrow> max (offset_of db f) off)"
  using assms
  by (simp add: offset_of_def commit_batch_def map_of_raise_offsets split: option.splits)

lemma commit_batch_events [simp]:
  "wal_corruption_events (commit_batch fn n es offs db) = wal_corruption_events db"
  by (simp add: commit_batch_def)

section \<open>The invariant through a run\<close>

text \<open>What a flush does to the invariant; the positions stay what they are.\<close>

definition keeps_rest :: "mstate \<Rightarrow> mstate \<Rightarrow> bool" where
  "keeps_rest = (\<lambda>(w, b) (w', b'). wal_dir w' = wal_dir w \<and> lifecycle_lock w' = lifecycle_lock w \<and>
     set (wal_corruption_events (control w)) \<subseteq> set (wal_corruption_events (control w')) \<and>
     (\<forall>f. offset_of (control w) f \<le> offset_of (control w') f))"

lemma keeps_rest_refl [simp]: "keeps_rest s s"
  by (simp add: keeps_rest_def case_prod_unfold)

lemma keeps_rest_trans: "keeps_rest s t \<Longrightarrow> keeps_rest t u \<Longrightarrow> keeps_rest s u"
  unfolding keeps_rest_def case_prod_unfold by (auto intro: order_trans)

lemma flush_current_inv:
  assumes inv: "run_inv st ev log lost before (w, b)" and names: "unique_names ev"
    and rows: "batch_rows b \<noteq> []" and run: "flush_current ev (w, b) = (r, (w', b'))"
  shows "run_inv st ev log lost before (w', b') \<and> position (w', b') = position (w, b) \<and>
    keeps_rest (w, b) (w', b') \<and>
    (if list_all row_fits (batch_rows b)
     then r = Inr () \<and> batch_rows b' = [] \<and> batch_offsets b' = [] \<and>
       (\<forall>f. offset_of (control w') f = position (w, b) f) \<and>
       visible w' + lost = rows_at st ev log (offset_of (control w'))
     else r = Inl (arrow_error ev) \<and> b' = b \<and> control w' = control w)"
proof -
  let ?es = "map (\<lambda>(f, off, _). (f, off, '''')) (batch_entries b)"
  let ?fn = "batch_filename ev (ticks w)"
  obtain q u where q: "flush_batch ev (batch_rows b) ?es (batch_offsets b) w = (q, u)" by fastforce
  have inv_w: "store_inv ev w" and cov: "log_covers log w" and dist: "distinct (keys (batch_offsets b))"
    and pos: "offset_of (control w) f \<le> position (w, b) f"
      "boundary st ev f (log_bytes log f) (offset_of (control w) f)"
      "boundary st ev f (log_bytes log f) (position (w, b) f)"
    and total: "visible w + mset (batch_rows b) + lost = rows_at st ev log (position (w, b))"
    and count: "size (visible w) = before + total_spans b" for f
    using inv by (simp_all add: run_inv_def)
  have c: "store_inv ev u \<and> wal_dir u = wal_dir w \<and> lifecycle_lock u = lifecycle_lock w \<and>
    (if list_all row_fits (batch_rows b)
     then q = Inr ?fn \<and> visible u = visible w + mset (batch_rows b) \<and>
       control u = commit_batch ?fn (length (batch_rows b)) ?es (batch_offsets b) (control w)
     else q = Inl (arrow_error ev) \<and> visible u = visible w \<and> control u = control w)"
    using flush_batch_cases [OF inv_w names q rows] .
  show ?thesis
  proof (cases "list_all row_fits (batch_rows b)")
    case True
    with c q run have w': "w' = u" "r = Inr ()" and b': "b' = \<lparr> batch_rows = [], batch_entries = [],
        batch_offsets = [], total_spans = total_spans b + length (batch_rows b) \<rparr>"
      by (auto simp: flush_current_def)
    have off: "offset_of (control u) f = position (w, b) f" for f
      using c True pos(1) [of f] dist
      by (cases "map_of (batch_offsets b) f")
        (simp_all add: offset_of_commit_batch position_def max_def del: map_of_eq_Some_iff)
    then have pos': "position (u, b') = position (w, b)" by (auto simp: position_def b')
    have vis: "visible u + lost = rows_at st ev log (position (w, b))"
      using c True total by (simp add: ac_simps)
    have "run_inv st ev log lost before (u, b')"
      unfolding run_inv_def prod.case
    proof (intro conjI)
      show "log_covers log u" using cov c by (simp add: log_covers_def)
      show "\<forall>f. offset_of (control u) f \<le> position (u, b') f \<and>
          boundary st ev f (log_bytes log f) (offset_of (control u) f) \<and>
          boundary st ev f (log_bytes log f) (position (u, b') f)"
        using pos off pos' by simp
      show "\<exists>base. (\<forall>f. base f \<le> offset_of (control u) f) \<and> visible u + lost = rows_at st ev log base"
        using vis off by (intro exI [of _ "position (w, b)"]) simp
      show "visible u + mset (batch_rows b') + lost = rows_at st ev log (position (u, b'))"
        using vis pos' by (simp add: b')
      show "size (visible u) = before + total_spans b'" using c True count by (simp add: b')
    qed (use c b' in simp_all)
    moreover have "keeps_rest (w, b) (u, b')" using c True off pos by (simp add: keeps_rest_def)
    moreover have "rows_at st ev log (offset_of (control u)) = rows_at st ev log (position (w, b))"
      using off by (rule rows_at_cong)
    ultimately show ?thesis using True w' pos' b' off vis by simp
  next
    case False
    with c q run have w': "w' = u" "r = Inl (arrow_error ev)" "b' = b" by (auto simp: flush_current_def)
    have cu: "control u = control w" using c False by simp
    then have "position (u, b) = position (w, b)"
      by (simp add: position_def fun_eq_iff split: option.split)
    with c cu False inv w' show ?thesis
      by (simp add: run_inv_def log_covers_def keeps_rest_def)
  qed
qed

text \<open>The batch after the rows of a record were added to it.\<close>

definition add_record :: "string \<Rightarrow> wal_record \<Rightarrow> span_row list \<Rightarrow> batch \<Rightarrow> batch" where
  "add_record f r rows b = b\<lparr> batch_rows := batch_rows b @ rows,
     batch_entries := batch_entries b @ map (\<lambda>_. (f, rec_start r, '''')) rows,
     batch_offsets := tbl_put f (rec_end r) (batch_offsets b) \<rparr>"

lemma process_record_cases:
  "process_record st ev f r (w, b) =
    (case rows_of ev (rec_payload r) f (rec_start r) of
       Inl e \<Rightarrow> (Inl e, (w, b))
     | Inr rows \<Rightarrow>
         if int (length (batch_rows b @ rows)) \<ge> materialize_batch_size st
         then flush_current ev (w, add_record f r rows b) else (Inr (), (w, add_record f r rows b)))"
  by (simp add: process_record_def add_record_def Let_def split: sum.split)

lemma position_add_record: "position (w, add_record f r rows b) = (position (w, b))(f := rec_end r)"
  by (auto simp: position_def add_record_def map_of_put)

lemma add_record_inv:
  assumes inv: "run_inv st ev log lost before (w, b)" and f: "f \<in> set (keys log)"
    and G: "good_records st ev f (log_bytes log f) (position (w, b) f) = r # rs"
    and rows: "rows_of ev (rec_payload r) f (rec_start r) = Inr rows"
  shows "run_inv st ev log lost before (w, add_record f r rows b)"
proof -
  let ?b = "add_record f r rows b" and ?c = "log_bytes log f"
  have bnd: "boundary st ev f ?c (position (w, b) f)" using inv by (simp add: run_inv_def)
  have step: "boundary st ev f ?c (rec_end r)" "position (w, b) f < rec_end r"
    "rows_upto st ev f ?c (rec_end r) = rows_upto st ev f ?c (position (w, b) f) @ rows"
    using boundary_step [OF bnd, of "[]" r rs] G rows by (simp_all add: record_rows_def)
  have "rows_at st ev log (position (w, ?b)) = rows_at st ev log (position (w, b)) + mset rows"
    by (rule rows_at_update [OF f]) (simp_all add: position_add_record step)
  moreover have "offset_of (control w) g \<le> position (w, ?b) g \<and>
      boundary st ev g (log_bytes log g) (position (w, ?b) g)" for g
  proof -
    have "offset_of (control w) g \<le> position (w, b) g" "boundary st ev g (log_bytes log g) (position (w, b) g)"
      using inv by (simp_all add: run_inv_def)
    then show ?thesis using step by (auto simp: position_add_record)
  qed
  moreover have "distinct (keys (batch_offsets ?b))" using inv by (simp add: run_inv_def add_record_def)
  moreover have "mset (batch_rows ?b) = mset (batch_rows b) + mset rows" "total_spans ?b = total_spans b"
    by (simp_all add: add_record_def)
  ultimately show ?thesis using inv by (simp add: run_inv_def) (metis union_assoc union_commute)
qed

lemma flush_current_offsets:
  "flush_current ev (w, b) = (r, (w', b')) \<Longrightarrow> batch_offsets b' = [] \<or> batch_offsets b' = batch_offsets b"
  by (auto simp: flush_current_def split: prod.splits sum.splits)

lemma process_record_inv:
  assumes inv: "run_inv st ev log lost before (w, b)" and names: "unique_names ev"
    and size: "0 < materialize_batch_size st" and f: "f \<in> set (keys log)"
    and recs: "fst (wal_records_from f (log_bytes log f) (position (w, b) f) (max_wal_record_bytes st)) = r # rs"
    and run: "process_record st ev f r (w, b) = (res, (w', b'))"
  shows "run_inv st ev log lost before (w', b') \<and> keeps_rest (w, b) (w', b') \<and>
    (\<forall>g. g \<noteq> f \<longrightarrow> position (w', b') g = position (w, b) g) \<and>
    (\<forall>g. g \<noteq> f \<and> map_of (batch_offsets b) g = None \<longrightarrow> map_of (batch_offsets b') g = None) \<and>
    (case res of
       Inr _ \<Rightarrow> parses ev f r \<and> position (w', b') f = rec_end r \<and>
         int (length (batch_rows b')) < materialize_batch_size st
     | Inl e \<Rightarrow> rows_of ev (rec_payload r) f (rec_start r) = Inl e \<and> w' = w \<and> b' = b \<or>
         e = arrow_error ev \<and> \<not> list_all row_fits (batch_rows b'))"
proof (cases "rows_of ev (rec_payload r) f (rec_start r)")
  case (Inl e)
  with run inv show ?thesis by (auto simp: process_record_cases)
next
  case (Inr rows)
  let ?b = "add_record f r rows b"
  have ok: "parses ev f r" using Inr by (simp add: parses_def)
  then have G: "good_records st ev f (log_bytes log f) (position (w, b) f) = r # takeWhile (parses ev f) rs"
    using recs by (simp add: good_records_def)
  have inv1: "run_inv st ev log lost before (w, ?b)" using add_record_inv [OF inv f G Inr] .
  have none: "g \<noteq> f \<and> map_of (batch_offsets b) g = None \<Longrightarrow> map_of (batch_offsets ?b) g = None" for g
    by (simp add: add_record_def map_of_put)
  have len: "batch_rows ?b = batch_rows b @ rows" by (simp add: add_record_def)
  show ?thesis
  proof (cases "int (length (batch_rows b @ rows)) \<ge> materialize_batch_size st")
    case True
    then have fl: "flush_current ev (w, ?b) = (res, (w', b'))" and ne: "batch_rows ?b \<noteq> []"
      using run Inr size len by (auto simp: process_record_cases)
    have offs: "map_of (batch_offsets b') g = None" if "g \<noteq> f \<and> map_of (batch_offsets b) g = None" for g
      using flush_current_offsets [OF fl] none [OF that] by auto
    from flush_current_inv [OF inv1 names ne fl] ok offs size show ?thesis
      by (auto simp: position_add_record keeps_rest_def split: if_splits)
  next
    case False
    then have "res = Inr ()" "w' = w" "b' = ?b" using run Inr by (simp_all add: process_record_cases)
    then show ?thesis using inv1 ok none False len by (simp add: position_add_record keeps_rest_def)
  qed
qed

text \<open>One step of the reader.\<close>

lemma wal_records_step:
  assumes "wal_records_from f content k limit = (r # rs, stop)"
  shows "wal_records_from f content (rec_end r) limit = (rs, stop)"
proof -
  from assms obtain ps rest where *: "drop k content = encode_records ps @ rest" "list_all (good_payload limit) ps"
    "\<not> (\<exists>p. read_record limit rest = Frame_Ok p)" "r # rs = layout k ps"
    "stop = stop_at f limit (k + length (encode_records ps)) rest"
    unfolding wal_records_from_def by (rule wal_loop_elim)
  then obtain p qs where ps: "ps = p # qs" by (cases ps) auto
  with * have r: "rec_end r = k + record_header_size + length p" "rs = layout (rec_end r) qs" by auto
  have "drop (rec_end r) content = drop (record_header_size + length p) (drop k content)"
    by (simp add: r ac_simps)
  also have "\<dots> = encode_records qs @ rest" by (simp add: *(1) ps)
  finally have "wal_records_from f content (rec_end r) limit = wal_loop f limit (rec_end r) (encode_records qs @ rest)"
    by (simp add: wal_records_from_def)
  also have "\<dots> = (rs, stop)"
    using * ps r wal_loop_encoded [of limit qs rest f "rec_end r"] by (simp add: add.assoc)
  finally show ?thesis .
qed

text \<open>The loop over the records of a segment, read from the position.\<close>

definition small :: "settings \<Rightarrow> mstate \<Rightarrow> bool" where
  "small st s \<longleftrightarrow> int (length (batch_rows (snd s))) < materialize_batch_size st"

definition exhausted :: "settings \<Rightarrow> env \<Rightarrow> wal_log \<Rightarrow> mstate \<Rightarrow> string \<Rightarrow> bool" where
  "exhausted st ev log s f \<longleftrightarrow> good_records st ev f (log_bytes log f) (position s f) = []"

definition others_kept :: "string \<Rightarrow> mstate \<Rightarrow> mstate \<Rightarrow> bool" where
  "others_kept f s s' \<longleftrightarrow> (\<forall>g. g \<noteq> f \<longrightarrow> position s' g = position s g \<and>
     (map_of (batch_offsets (snd s)) g = None \<longrightarrow> map_of (batch_offsets (snd s')) g = None))"

lemma others_kept_refl [simp]: "others_kept f s s"
  by (simp add: others_kept_def)

lemma others_kept_trans: "others_kept f s t \<Longrightarrow> others_kept f t u \<Longrightarrow> others_kept f s u"
  by (simp add: others_kept_def)

text \<open>Why a run over a segment ends with an exception.\<close>

definition raised :: "settings \<Rightarrow> env \<Rightarrow> wal_log \<Rightarrow> string \<Rightarrow> wal_record list \<Rightarrow>
    wal_corruption option \<Rightarrow> exn \<Rightarrow> mstate \<Rightarrow> bool" where
  "raised st ev log f rs stop e s \<longleftrightarrow>
     e = arrow_error ev \<and> batch_rows (snd s) \<noteq> [] \<and> \<not> list_all row_fits (batch_rows (snd s)) \<or>
     exhausted st ev log s f \<and> small st s \<and>
       ((\<exists>c. stop = Some c \<and> e = Wal_Corruption c \<and> list_all (parses ev f) rs) \<or>
        (\<exists>r \<in> set rs. rows_of ev (rec_payload r) f (rec_start r) = Inl e))"

lemma process_records_inv:
  assumes "run_inv st ev log lost before (w, b)" and "unique_names ev"
    and "0 < materialize_batch_size st" and "f \<in> set (keys log)" and "small st (w, b)"
    and "wal_records_from f (log_bytes log f) (position (w, b) f) (max_wal_record_bytes st) = (rs, stop)"
    and "process_records st ev f rs stop (w, b) = (res, s')"
  shows "run_inv st ev log lost before s' \<and> keeps_rest (w, b) s' \<and> others_kept f (w, b) s' \<and>
    (case res of Inr _ \<Rightarrow> exhausted st ev log s' f \<and> small st s' \<and> stop = None \<and> list_all (parses ev f) rs
     | Inl e \<Rightarrow> raised st ev log f rs stop e s')"
  using assms
proof (induction rs arbitrary: w b)
  case Nil
  then have "exhausted st ev log (w, b) f" by (simp add: exhausted_def good_records_def)
  with Nil show ?case
    by (auto simp: ret_def throw_def raised_def split: option.splits)
next
  case (Cons r rs)
  note inv = Cons.prems(1) and names = Cons.prems(2) and size = Cons.prems(3) and f = Cons.prems(4)
  have recs: "fst (wal_records_from f (log_bytes log f) (position (w, b) f) (max_wal_record_bytes st)) = r # rs"
    using Cons.prems(6) by simp
  obtain q w1 b1 where q: "process_record st ev f r (w, b) = (q, (w1, b1))"
    by (metis prod.collapse)
  note one = process_record_inv [OF inv names size f recs q]
  show ?case
  proof (cases q)
    case (Inl e)
    with q Cons.prems(7) have res: "res = Inl e" "s' = (w1, b1)" by (auto simp: bindE_def)
    have "raised st ev log f (r # rs) stop e (w1, b1)"
      using one Inl
    proof (elim conjE, simp, elim disjE)
      assume "rows_of ev (rec_payload r) f (rec_start r) = Inl e \<and> w1 = w \<and> b1 = b"
      moreover from this have "exhausted st ev log (w, b) f"
        using recs by (simp add: exhausted_def good_records_def parses_def)
      ultimately show ?thesis using Cons.prems(5) by (auto simp: raised_def)
    next
      assume "e = arrow_error ev \<and> \<not> list_all row_fits (batch_rows b1)"
      then show ?thesis by (auto simp: raised_def)
    qed
    with one res Inl show ?thesis by (auto simp: others_kept_def)
  next
    case (Inr x)
    then have run1: "process_records st ev f rs stop (w1, b1) = (res, s')"
      using q Cons.prems(7) by (simp add: bindE_def)
    from one Inr have one': "run_inv st ev log lost before (w1, b1)" "keeps_rest (w, b) (w1, b1)"
      "others_kept f (w, b) (w1, b1)" "parses ev f r" "position (w1, b1) f = rec_end r" "small st (w1, b1)"
      by (auto simp: others_kept_def small_def)
    have recs1: "wal_records_from f (log_bytes log f) (position (w1, b1) f) (max_wal_record_bytes st) = (rs, stop)"
      using wal_records_step [OF Cons.prems(6)] one'(5) by simp
    have more: "raised st ev log f rs stop e s' \<Longrightarrow> raised st ev log f (r # rs) stop e s'" for e
      using one'(4) by (auto simp: raised_def)
    from Cons.IH [OF one'(1) names size f one'(6) recs1 run1] one' more show ?thesis
      by (auto intro: keeps_rest_trans others_kept_trans split: sum.splits)
  qed
qed

lemma mark_sealed_inv:
  assumes inv: "run_inv st ev log lost before (w, b)" and start: "start \<le> offset_of (control w) f"
    and run: "mark_sealed active f file_size start (w, b) = (res, s')"
  shows "res = Inr () \<and> run_inv st ev log lost before s' \<and> keeps_rest (w, b) s' \<and>
    position s' = position (w, b) \<and> snd s' = b"
proof (cases "Some f \<noteq> active \<and> file_size = current_offset f start b")
  case False
  with run inv show ?thesis by (auto simp: mark_sealed_def updE_def)
next
  case True
  let ?t = "materialized_wal_offsets (control w)"
  let ?w = "w\<lparr>control := (control w)\<lparr>materialized_wal_offsets :=
            tbl_upsert f \<lparr>max_offset = file_size, is_fully_processed = True\<rparr>
              (\<lambda>old. old\<lparr>is_fully_processed := True\<rparr>) ?t\<rparr>\<rparr>"
  from True run have s': "s' = (?w, b)" "res = Inr ()" by (auto simp: mark_sealed_def updE_def)
  have off: "offset_of (control ?w) g =
      (if g = f \<and> map_of ?t f = None then position (w, b) f else offset_of (control w) g)" for g
  proof (cases "g = f \<and> map_of ?t f = None")
    case None: True
    then have "offset_of (control w) f = 0" by (simp add: offset_of_def)
    with start have "start = 0" by simp
    have "file_size = position (w, b) f"
      using True \<open>offset_of (control w) f = 0\<close> \<open>start = 0\<close>
      by (simp add: current_offset_def position_def split: option.splits)
    then show ?thesis using None by (simp add: offset_of_def map_of_upsert)
  next
    case False
    then show ?thesis by (auto simp: offset_of_def map_of_upsert split: option.splits)
  qed
  have le: "offset_of (control w) g \<le> position (w, b) g"
    and bnd: "boundary st ev g (log_bytes log g) (offset_of (control w) g)"
      "boundary st ev g (log_bytes log g) (position (w, b) g)" for g
    using inv by (simp_all add: run_inv_def)
  have pos: "position (?w, b) = position (w, b)"
    using off by (auto simp: position_def fun_eq_iff split: option.splits if_splits)
  have mono: "offset_of (control w) g \<le> offset_of (control ?w) g" for g
    unfolding off using le [of g] by auto
  have st: "store_inv ev ?w \<and> visible ?w = visible w"
    using inv store_inv_distinct(1) [of ev w] by (intro conserve_cong) (simp_all add: run_inv_def)
  have "run_inv st ev log lost before (?w, b)"
    unfolding run_inv_def prod.case
  proof (intro conjI)
    show "\<exists>base. (\<forall>f. base f \<le> offset_of (control ?w) f) \<and> visible ?w + lost = rows_at st ev log base"
    proof -
      obtain base where base: "base f \<le> offset_of (control w) f" "visible w + lost = rows_at st ev log base" for f
        using inv by (auto simp: run_inv_def)
      have "base f \<le> offset_of (control ?w) f" for f
        using base(1) mono by (rule order_trans)
      with base(2) st show ?thesis by (intro exI [of _ base]) simp
    qed
    show "\<forall>f. offset_of (control ?w) f \<le> position (?w, b) f \<and>
        boundary st ev f (log_bytes log f) (offset_of (control ?w) f) \<and>
        boundary st ev f (log_bytes log f) (position (?w, b) f)"
      unfolding pos off by (auto simp: le bnd)
    show "visible ?w + mset (batch_rows b) + lost = rows_at st ev log (position (?w, b))"
      unfolding pos using inv st by (simp add: run_inv_def)
  qed (use inv st in \<open>simp_all add: run_inv_def log_covers_def\<close>)
  moreover have "keeps_rest (w, b) (?w, b)" using mono by (simp add: keeps_rest_def)
  ultimately show ?thesis using s' pos by simp
qed

lemma record_corruption_inv:
  assumes inv: "run_inv st ev log lost before (w, b)"
    and w': "w' = w\<lparr>control := record_corruption f off msg sz (control w)\<rparr>"
  shows "run_inv st ev log lost before (w', b) \<and> keeps_rest (w, b) (w', b) \<and>
    position (w', b) = position (w, b) \<and> f \<in> set (map ce_source_file (wal_corruption_events (control w')))"
proof -
  have off: "offset_of (control w') = offset_of (control w)"
    by (simp add: fun_eq_iff offset_of_def w' record_corruption_def)
  then have pos: "position (w', b) = position (w, b)"
    by (simp add: position_def fun_eq_iff split: option.split)
  have "store_inv ev w' \<and> visible w' = visible w"
    using inv store_inv_distinct(1) [of ev w]
    by (intro conserve_cong) (simp_all add: run_inv_def w' record_corruption_def)
  then show ?thesis
    using inv off pos by (simp add: run_inv_def keeps_rest_def log_covers_def) (auto simp: w' record_corruption_def)
qed

lemma handle_corruption_inv:
  assumes inv: "run_inv st ev log lost before (w, b)" and names: "unique_names ev"
    and size: "0 < materialize_batch_size st"
    and run: "handle_corruption ev f sz start e (w, b) = (res, s')"
  shows "run_inv st ev log lost before s' \<and> keeps_rest (w, b) s' \<and> position s' = position (w, b) \<and>
    (\<forall>g. map_of (batch_offsets b) g = None \<longrightarrow> map_of (batch_offsets (snd s')) g = None) \<and>
    (case res of
       Inr _ \<Rightarrow> (batch_rows b \<noteq> [] \<longrightarrow> list_all row_fits (batch_rows b)) \<and> batch_rows (snd s') = [] \<and>
         f \<in> set (map ce_source_file (wal_corruption_events (control (fst s')))) \<and>
         \<lparr>ce_source_file = f, ce_offset = corruption_offset e (current_offset f start b), ce_reason = exn_message e\<rparr>
           \<in> set (wal_corruption_events (control (fst s')))
     | Inl e' \<Rightarrow> e' = arrow_error ev \<and> batch_rows b \<noteq> [] \<and> \<not> list_all row_fits (batch_rows b) \<and>
         snd s' = b)"
proof (cases "batch_rows b = []")
  case True
  then have "res = Inr ()" "s' = (w\<lparr>control := record_corruption f (corruption_offset e (current_offset f start b))
      (exn_message e) sz (control w)\<rparr>, b)"
    using run by (simp_all add: handle_corruption_def Let_def eff_simps)
  with record_corruption_inv [OF inv refl] True show ?thesis by (simp add: record_corruption_def)
next
  case False
  obtain q w1 b1 where q: "flush_current ev (w, b) = (q, (w1, b1))" by (metis prod.collapse)
  note fl = flush_current_inv [OF inv names False q]
  show ?thesis
  proof (cases q)
    case (Inl e')
    then have "res = Inl e'" "s' = (w1, b1)"
      using run q False by (simp_all add: handle_corruption_def Let_def bindE_def)
    with fl Inl False show ?thesis by (auto split: if_splits)
  next
    case (Inr x)
    let ?w2 = "w1\<lparr>control := record_corruption f (corruption_offset e (current_offset f start b))
      (exn_message e) sz (control w1)\<rparr>"
    have res: "res = Inr ()" "s' = (?w2, b1)"
      using run q False Inr by (simp_all add: handle_corruption_def Let_def bindE_def updE_def)
    from fl Inr have fl': "run_inv st ev log lost before (w1, b1)" "position (w1, b1) = position (w, b)"
      "keeps_rest (w, b) (w1, b1)" "list_all row_fits (batch_rows b)" "batch_rows b1 = []" "batch_offsets b1 = []"
      by (auto split: if_splits)
    from record_corruption_inv [OF fl'(1) refl] fl' res show ?thesis
      by (auto intro: keeps_rest_trans simp: record_corruption_def)
  qed
qed

lemma covers_bytes: "log_covers log w \<Longrightarrow> f \<in> set (keys (wal_dir w)) \<Longrightarrow>
  segment_bytes w f = log_bytes log f \<and> f \<in> set (keys log)"
  by (cases "map_of (wal_dir w) f")
    (auto simp: log_covers_def segment_bytes_def log_bytes_def map_of_eq_None_iff
      simp del: map_of_eq_Some_iff dest: map_of_SomeD, force dest: map_of_SomeD)

text \<open>What leaves the loop over the segments.\<close>

definition uncaught :: "env \<Rightarrow> exn \<Rightarrow> mstate \<Rightarrow> bool" where
  "uncaught ev e s \<longleftrightarrow>
     e = arrow_error ev \<and> \<not> list_all row_fits (batch_rows (snd s)) \<or>
     \<not> is_value_error e \<and> (\<exists>payload f k. rows_of ev payload f k = Inl e)"

lemma raised_uncaught: "raised st ev log f rs stop e s \<Longrightarrow> \<not> is_value_error e \<Longrightarrow> uncaught ev e s"
  by (auto simp: raised_def uncaught_def)

text \<open>The corruption the reader meets in a segment is in the table, with its exact offset.\<close>

definition reported :: "settings \<Rightarrow> env \<Rightarrow> string \<Rightarrow> byte list \<Rightarrow> nat \<Rightarrow> control_store \<Rightarrow> bool" where
  "reported st ev f content start db \<longleftrightarrow> (\<forall>rs stop.
     wal_records_from f content start (max_wal_record_bytes st) = (rs, stop) \<longrightarrow>
     (\<forall>c. stop = Some c \<and> list_all (parses ev f) rs \<longrightarrow>
        \<lparr>ce_source_file = f, ce_offset = wc_offset c, ce_reason = wal_corruption_message c\<rparr>
          \<in> set (wal_corruption_events db)) \<and>
     (stop \<noteq> None \<or> \<not> list_all (parses ev f) rs \<longrightarrow> f \<in> ce_source_file ` set (wal_corruption_events db)))"

lemma reported_mono:
  "reported st ev f c k db \<Longrightarrow> set (wal_corruption_events db) \<subseteq> set (wal_corruption_events db') \<Longrightarrow> reported st ev f c k db'"
  unfolding reported_def by blast

lemma process_file_inv:
  assumes inv: "run_inv st ev log lost before (w, b)" and names: "unique_names ev"
    and size: "0 < materialize_batch_size st" and sm: "small st (w, b)"
    and f: "f \<in> set (keys (wal_dir w))" and fresh: "map_of (batch_offsets b) f = None"
    and db0: "offset_of (control w) f = offset_of db0 f"
    and run: "process_file st ev db0 active f (w, b) = (res, s')"
  shows "run_inv st ev log lost before s' \<and> keeps_rest (w, b) s' \<and> others_kept f (w, b) s' \<and>
    (f \<in> set (map ce_source_file (wal_corruption_events db0)) \<longrightarrow> s' = (w, b)) \<and>
    (case res of
       Inr _ \<Rightarrow> small st s' \<and>
         (f \<in> set (map ce_source_file (wal_corruption_events db0)) \<or>
          exhausted st ev log s' f \<and> reported st ev f (segment_bytes w f) (offset_of db0 f) (control (fst s')))
     | Inl e \<Rightarrow> uncaught ev e s')"
proof -
  let ?c = "segment_bytes w f" and ?start = "offset_of db0 f"
  have cov: "log_covers log w" using inv by (simp add: run_inv_def)
  note c = covers_bytes [OF cov f]
  have pos: "position (w, b) f = ?start" using fresh db0 by (simp add: position_def)
  show ?thesis
  proof (cases "skip_file db0 f ?start (length ?c)")
    case True
    then have s': "res = Inr ()" "s' = (w, b)" using run by (simp_all add: process_file_def)
    have "exhausted st ev log (w, b) f \<and> reported st ev f ?c ?start (control w)" if "?start \<ge> length ?c"
    proof -
      have none: "wal_records_from f ?c ?start (max_wal_record_bytes st) = ([], None)"
        using that by (simp add: wal_records_from_def wal_loop_stop stop_at_def)
      then show ?thesis using c by (simp add: exhausted_def good_records_def pos reported_def)
    qed
    then show ?thesis using inv sm s' True by (auto simp: skip_file_def)
  next
    case False
    then have nq: "f \<notin> set (map ce_source_file (wal_corruption_events db0))" by (simp add: skip_file_def)
    obtain rs stop where recs: "wal_records_from f ?c ?start (max_wal_record_bytes st) = (rs, stop)" by fastforce
    obtain q w1 b1 where q: "process_records st ev f rs stop (w, b) = (q, (w1, b1))" by (metis prod.collapse)
    have pr: "run_inv st ev log lost before (w1, b1) \<and> keeps_rest (w, b) (w1, b1) \<and> others_kept f (w, b) (w1, b1) \<and>
      (case q of Inr _ \<Rightarrow> exhausted st ev log (w1, b1) f \<and> small st (w1, b1) \<and> stop = None \<and> list_all (parses ev f) rs
       | Inl e \<Rightarrow> raised st ev log f rs stop e (w1, b1))"
      using process_records_inv [OF inv names size conjunct2 [OF c] sm _ q] recs c pos by simp
    show ?thesis
    proof (cases q)
      case (Inr x)
      obtain m s2 where m: "mark_sealed active f (length ?c) ?start (w1, b1) = (m, s2)"
        by (metis prod.collapse)
      have "?start \<le> offset_of (control w1) f" using pr db0 by (simp add: keeps_rest_def) metis
      from pr Inr have inv1: "run_inv st ev log lost before (w1, b1)" by simp
      from mark_sealed_inv [OF inv1 \<open>?start \<le> _\<close> m]
      have mk: "m = Inr ()" "run_inv st ev log lost before s2" "keeps_rest (w1, b1) s2"
        "position s2 = position (w1, b1)" "snd s2 = b1" by simp_all
      have "res = Inr ()" "s' = s2"
        using run False recs q Inr m mk by (simp_all add: process_file_def try_except_def bindE_def)
      moreover have "reported st ev f ?c ?start (control (fst s2))"
        using pr Inr recs by (simp add: reported_def)
      ultimately show ?thesis using pr Inr mk nq
        by (auto simp: others_kept_def exhausted_def small_def intro: keeps_rest_trans)
    next
      case (Inl e)
      show ?thesis
      proof (cases "is_value_error e")
        case False': False
        then have "res = Inl e" "s' = (w1, b1)"
          using run False recs q Inl by (simp_all add: process_file_def try_except_def bindE_def)
        moreover from pr Inl have "raised st ev log f rs stop e (w1, b1)" by simp
        then have "uncaught ev e (w1, b1)" using False' by (rule raised_uncaught)
        ultimately show ?thesis using pr nq by simp
      next
        case True
        have h: "handle_corruption ev f (length ?c) ?start e (w1, b1) = (res, s')"
          using run False recs q Inl True by (simp add: process_file_def try_except_def bindE_def)
        from pr have inv1: "run_inv st ev log lost before (w1, b1)" by simp
        note hc = handle_corruption_inv [OF inv1 names size h]
        have r: "raised st ev log f rs stop e (w1, b1)" using pr Inl by simp
        have oth: "others_kept f (w, b) s'" using pr hc by (auto simp: others_kept_def)
        have keep: "keeps_rest (w, b) s'" using pr hc by (blast intro: keeps_rest_trans)
        show ?thesis
        proof (cases res)
          case (Inl e')
          then have "uncaught ev e' s'" using hc by (auto simp: uncaught_def)
          with hc Inl oth keep nq show ?thesis by simp
        next
          case (Inr x)
          then have "exhausted st ev log s' f" using r hc by (auto simp: raised_def exhausted_def)
          moreover have "reported st ev f ?c ?start (control (fst s'))"
            using r hc Inr recs
            by (auto simp: reported_def raised_def corruption_offset_def list_all_iff parses_def)
          ultimately show ?thesis using hc Inr oth keep size nq by (auto simp: small_def)
        qed
      qed
    qed
  qed
qed

lemma process_files_inv:
  assumes "run_inv st ev log lost before (w, b)" and "unique_names ev" and "0 < materialize_batch_size st"
    and "small st (w, b)" and "distinct fs" and "set fs \<subseteq> set (keys (wal_dir w))"
    and "\<forall>f \<in> set fs. map_of (batch_offsets b) f = None \<and> offset_of (control w) f = offset_of db0 f"
    and "process_files st ev db0 active fs (w, b) = (res, s')"
  shows "run_inv st ev log lost before s' \<and> keeps_rest (w, b) s' \<and>
    (\<forall>g. g \<notin> set fs \<or> g \<in> set (map ce_source_file (wal_corruption_events db0)) \<longrightarrow>
       position s' g = position (w, b) g) \<and>
    (case res of
       Inr _ \<Rightarrow> small st s' \<and> (\<forall>f \<in> set fs.
         f \<in> set (map ce_source_file (wal_corruption_events db0)) \<or>
         exhausted st ev log s' f \<and> reported st ev f (segment_bytes w f) (offset_of db0 f) (control (fst s')))
     | Inl e \<Rightarrow> uncaught ev e s')"
  using assms
proof (induction fs arbitrary: w b)
  case Nil
  then show ?case by (auto simp: ret_def)
next
  case (Cons f fs)
  note names = Cons.prems(2) and size = Cons.prems(3)
  obtain q w1 b1 where q: "process_file st ev db0 active f (w, b) = (q, (w1, b1))" by (metis prod.collapse)
  have one: "run_inv st ev log lost before (w1, b1) \<and> keeps_rest (w, b) (w1, b1) \<and> others_kept f (w, b) (w1, b1) \<and>
    (f \<in> set (map ce_source_file (wal_corruption_events db0)) \<longrightarrow> (w1, b1) = (w, b)) \<and>
    (case q of
       Inr _ \<Rightarrow> small st (w1, b1) \<and>
         (f \<in> set (map ce_source_file (wal_corruption_events db0)) \<or>
          exhausted st ev log (w1, b1) f \<and> reported st ev f (segment_bytes w f) (offset_of db0 f) (control (fst (w1, b1))))
     | Inl e \<Rightarrow> uncaught ev e (w1, b1))"
    using process_file_inv [OF Cons.prems(1) names size Cons.prems(4) _ _ _ q] Cons.prems(5-7) by simp
  show ?case
  proof (cases q)
    case (Inl e)
    then have "res = Inl e" "s' = (w1, b1)" using q Cons.prems(8) by (simp_all add: bindE_def)
    with one Inl show ?thesis by (auto simp: others_kept_def)
  next
    case (Inr x)
    then have run1: "process_files st ev db0 active fs (w1, b1) = (res, s')"
      using q Cons.prems(8) by (simp add: bindE_def)
    have rest: "\<forall>g \<in> set fs. map_of (batch_offsets b1) g = None \<and> offset_of (control w1) g = offset_of db0 g"
    proof
      fix g assume g: "g \<in> set fs"
      then have "g \<noteq> f" "map_of (batch_offsets b) g = None" "offset_of (control w) g = offset_of db0 g"
        using Cons.prems(5,7) by auto
      with one have "map_of (batch_offsets b1) g = None" "position (w1, b1) g = position (w, b) g"
        by (auto simp: others_kept_def)
      then show "map_of (batch_offsets b1) g = None \<and> offset_of (control w1) g = offset_of db0 g"
        using \<open>map_of (batch_offsets b) g = None\<close> \<open>offset_of (control w) g = offset_of db0 g\<close>
        by (simp add: position_def)
    qed
    have wd: "wal_dir w1 = wal_dir w" using one by (simp add: keeps_rest_def)
    have bytes: "segment_bytes w1 = segment_bytes w" by (simp add: segment_bytes_def fun_eq_iff wd)
    have prems: "run_inv st ev log lost before (w1, b1)" "small st (w1, b1)" "distinct fs"
      "set fs \<subseteq> set (keys (wal_dir w1))"
      using Cons.prems one Inr wd by simp_all
    note ih = Cons.IH [OF prems(1) names size prems(2-4) rest run1, unfolded bytes]
    have "position s' f = position (w1, b1) f" using ih Cons.prems(5) by simp
    then have "exhausted st ev log (w1, b1) f \<Longrightarrow> exhausted st ev log s' f" by (simp add: exhausted_def)
    moreover have "reported st ev f c k (control w1) \<Longrightarrow> reported st ev f c k (control (fst s'))" for c k
      by (erule reported_mono) (use ih in \<open>simp add: keeps_rest_def case_prod_unfold\<close>)
    moreover have "\<forall>g. g \<notin> set (f # fs) \<or> g \<in> set (map ce_source_file (wal_corruption_events db0)) \<longrightarrow>
        position s' g = position (w, b) g"
      using ih one by (auto simp: others_kept_def)
    moreover have "keeps_rest (w, b) s'" using ih one by (blast intro: keeps_rest_trans)
    ultimately show ?thesis using ih one Inr by (auto split: sum.splits)
  qed
qed

text \<open>
  The accounts of a world at rest: with the rows that were lost, the visible rows are those up
  to the offsets in the database, and each offset is the end of a record.
\<close>

definition accounted :: "settings \<Rightarrow> env \<Rightarrow> wal_log \<Rightarrow> span_row multiset \<Rightarrow> world \<Rightarrow> bool" where
  "accounted st ev log lost w \<longleftrightarrow>
     store_inv ev w \<and> log_covers log w \<and>
     (\<forall>f. boundary st ev f (log_bytes log f) (offset_of (control w) f)) \<and>
     visible w + lost = rows_at st ev log (offset_of (control w))"

lemma accounted_run_inv:
  assumes "accounted st ev log lost w"
  shows "run_inv st ev log lost (size (visible w)) (w, empty_batch)"
proof -
  have "position (w, empty_batch) = offset_of (control w)" by (simp add: position_def empty_batch_def)
  with assms show ?thesis
    unfolding run_inv_def accounted_def by (auto simp: empty_batch_def)
qed

text \<open>However a run ends, what is visible is accounted for, and nothing is visible twice.\<close>

lemma run_inv_accounted:
  assumes "run_inv st ev log lost before (w, b)"
  shows "\<exists>lost'. accounted st ev log (lost + lost') w"
proof -
  obtain base where base: "\<And>f. base f \<le> offset_of (control w) f" "visible w + lost = rows_at st ev log base"
    using assms by (auto simp: run_inv_def)
  then have "visible w + lost \<subseteq># rows_at st ev log (offset_of (control w))"
    by (simp add: rows_at_mono)
  then obtain lost' where "rows_at st ev log (offset_of (control w)) = (visible w + lost) + lost'"
    by (auto simp: mset_subset_eq_exists_conv)
  with assms show ?thesis
    by (intro exI [of _ lost']) (simp add: accounted_def run_inv_def ac_simps)
qed

text \<open>With an empty batch the accounts are settled.\<close>

lemma run_inv_settled:
  assumes inv: "run_inv st ev log lost before (w, b)" and rows: "batch_rows b = []"
  shows "accounted st ev log lost w \<and> size (visible w) = before + total_spans b \<and>
    rows_at st ev log (offset_of (control w)) = rows_at st ev log (position (w, b))"
proof -
  obtain base where base: "\<And>f. base f \<le> offset_of (control w) f" "visible w + lost = rows_at st ev log base"
    using inv by (auto simp: run_inv_def)
  have "\<And>f. offset_of (control w) f \<le> position (w, b) f" using inv by (simp add: run_inv_def)
  then have "rows_at st ev log (offset_of (control w)) \<subseteq># rows_at st ev log (position (w, b))"
    by (rule rows_at_mono)
  moreover have "rows_at st ev log base \<subseteq># rows_at st ev log (offset_of (control w))"
    using base(1) by (rule rows_at_mono)
  moreover have "rows_at st ev log (position (w, b)) = rows_at st ev log base"
    using inv rows base(2) by (simp add: run_inv_def)
  ultimately have "rows_at st ev log (offset_of (control w)) = rows_at st ev log (position (w, b))"
    "rows_at st ev log (offset_of (control w)) = visible w + lost"
    using base(2) by (simp_all add: subset_mset.antisym)
  with inv show ?thesis by (simp add: accounted_def run_inv_def)
qed

text \<open>Equal sums over pointwise smaller positions are equal at each segment.\<close>

lemma rows_at_eq_pointwise:
  assumes "\<And>f. g f \<le> h f" "rows_at st ev log g = rows_at st ev log h" "f \<in> set (keys log)"
  shows "mset (rows_upto st ev f (log_bytes log f) (g f)) = mset (rows_upto st ev f (log_bytes log f) (h f))"
proof -
  let ?r = "\<lambda>g f. mset (rows_upto st ev f (log_bytes log f) (g f))"
  have le: "?r g x \<subseteq># ?r h x" for x using assms(1) by (intro rows_upto_mono)
  have "(\<Sum>x \<in> set (keys log) - {f}. ?r g x) \<subseteq># (\<Sum>x \<in> set (keys log) - {f}. ?r h x)"
  proof -
    have "(\<Sum>x \<in> A. ?r g x) \<subseteq># (\<Sum>x \<in> A. ?r h x)" if "finite A" for A
      using that by (induction A) (auto intro!: subset_mset.add_mono le)
    then show ?thesis by simp
  qed
  moreover have "rows_at st ev log k = ?r k f + (\<Sum>x \<in> set (keys log) - {f}. ?r k x)" for k
    unfolding rows_at_def using assms(3) by (intro sum.remove) auto
  ultimately obtain x y where x: "?r h f = ?r g f + x"
    and "(?r g f + x) + ((\<Sum>x \<in> set (keys log) - {f}. ?r g x) + y) =
      ?r g f + (\<Sum>x \<in> set (keys log) - {f}. ?r g x)"
    using assms(2) le [of f] by (auto simp: mset_subset_eq_exists_conv)
  then have "x = {#}" by (simp add: ac_simps)
  with x show ?thesis by simp
qed

section \<open>A whole run\<close>

lemma accounted_lock [simp]:
  "accounted st ev log lost (w\<lparr>lifecycle_lock := l\<rparr>) = accounted st ev log lost w"
  by (simp add: accounted_def log_covers_def)

lemma accounted_orphans:
  assumes "accounted st ev log lost w" "cleanup_orphaned_parquet_files ev err w = (n, w')"
  shows "accounted st ev log lost w' \<and> visible w' = visible w"
  using assms cleanup_orphaned_same [OF assms(2)] cleanup_orphaned_conserves [OF _ assms(2)]
  by (simp add: accounted_def log_covers_def)

definition quarantined :: "control_store \<Rightarrow> string set" where
  "quarantined db = set (map ce_source_file (wal_corruption_events db))"

text \<open>The state after the loop over the segments and the final flush.\<close>

definition materialize_run :: "settings \<Rightarrow> env \<Rightarrow> world \<Rightarrow> (exn + unit) \<times> mstate" where
  "materialize_run st ev w =
    (let wal_files = sorted_wal_files (keys (wal_dir w)) in
     bindE (process_files st ev (control w) (active_wal_filename wal_files) wal_files)
       (\<lambda>_ s. if batch_rows (snd s) \<noteq> [] then flush_current ev s else (Inr (), s)) (w, empty_batch))"

lemma materialize_body_run:
  "materialize_body st ev a w =
    (let (_, w1) = cleanup_orphaned_parquet_files ev (manifest_error ev) w in
     if sorted_wal_files (keys (wal_dir w1)) = [] then (Inr 0, w1)
     else case materialize_run st ev w1 of
          (Inl e, (w, b)) \<Rightarrow> (Inl e, w)
        | (Inr _, (w, b)) \<Rightarrow>
            if auto_cleanup_wal st
            then (case cleanup_materialized_wal_files ev a w of
                    (Inl e, w) \<Rightarrow> (Inl e, w)
                  | (Inr _, w) \<Rightarrow> (Inr (total_spans b), w))
            else (Inr (total_spans b), w))"
  by (simp add: materialize_body_def materialize_run_def Let_def case_prod_unfold)

text \<open>
  The reasons for which a run raises: a row of a segment does not fit its column, or a payload
  makes the parser raise something that is not a \<open>ValueError\<close>.
\<close>

definition fatal :: "settings \<Rightarrow> env \<Rightarrow> wal_log \<Rightarrow> exn \<Rightarrow> bool" where
  "fatal st ev log e \<longleftrightarrow>
     e = arrow_error ev \<and> (\<exists>f \<in> set (keys log). \<exists>row \<in> set (rows_after st ev f (log_bytes log f) 0). \<not> row_fits row) \<or>
     \<not> is_value_error e \<and> (\<exists>payload f k. rows_of ev payload f k = Inl e)"

lemma uncaught_fatal:
  assumes inv: "run_inv st ev log lost before (w, b)" and e: "uncaught ev e (w, b)"
  shows "fatal st ev log e"
proof (cases "list_all row_fits (batch_rows b)")
  case False
  then obtain row where row: "row \<in> set (batch_rows b)" "\<not> row_fits row" by (auto simp: list_all_iff)
  have "row \<in># rows_at st ev log (position (w, b))"
    using inv row(1) unfolding run_inv_def prod.case by (metis set_mset_mset union_iff)
  then obtain f where f: "f \<in> set (keys log)" "row \<in> set (rows_upto st ev f (log_bytes log f) (position (w, b) f))"
    unfolding rows_at_def by (auto simp: set_mset_sum)
  have "boundary st ev f (log_bytes log f) (position (w, b) f)" using inv by (simp add: run_inv_def)
  from rows_split [OF this] f(2) have "row \<in> set (rows_after st ev f (log_bytes log f) 0)"
    by (metis Un_iff set_append)
  with f(1) row(2) e show ?thesis by (auto simp: fatal_def uncaught_def)
qed (use e in \<open>auto simp: fatal_def uncaught_def\<close>)

text \<open>
  What a run that returns does to a segment it does not skip for quarantine: nothing is left to
  read, and a corruption is reported.  A segment that is quarantined or not there keeps its
  offset.
\<close>

definition settled :: "settings \<Rightarrow> env \<Rightarrow> wal_log \<Rightarrow> world \<Rightarrow> world \<Rightarrow> string \<Rightarrow> bool" where
  "settled st ev log w w' f \<longleftrightarrow>
     rows_after st ev f (log_bytes log f) (offset_of (control w') f) = [] \<and>
     reported st ev f (segment_bytes w f) (offset_of (control w) f) (control w')"

definition untouched :: "world \<Rightarrow> world \<Rightarrow> bool" where
  "untouched w w' \<longleftrightarrow> quarantined (control w) \<subseteq> quarantined (control w') \<and> (\<forall>f.
     f \<notin> set (sorted_wal_files (keys (wal_dir w))) \<or> f \<in> quarantined (control w) \<longrightarrow>
     offset_of (control w') f = offset_of (control w) f)"

lemma materialize_run_spec:
  assumes acc: "accounted st ev log lost w" and names: "unique_names ev" and size: "0 < materialize_batch_size st"
    and dist: "distinct (keys (wal_dir w))" and run: "materialize_run st ev w = (res, (w', b))"
  shows "\<exists>lost'. accounted st ev log (lost + lost') w' \<and> wal_dir w' = wal_dir w \<and>
    lifecycle_lock w' = lifecycle_lock w \<and> (\<forall>f. offset_of (control w) f \<le> offset_of (control w') f) \<and> untouched w w' \<and>
    (case res of
       Inl e \<Rightarrow> fatal st ev log e
     | Inr _ \<Rightarrow> lost' = {#} \<and> size (visible w') = size (visible w) + total_spans b \<and>
         (\<forall>f \<in> set (sorted_wal_files (keys (wal_dir w))).
            f \<in> quarantined (control w) \<or> settled st ev log w w' f))"
proof -
  let ?fs = "sorted_wal_files (keys (wal_dir w))"
  have inv0: "run_inv st ev log lost (size (visible w)) (w, empty_batch)" using acc by (rule accounted_run_inv)
  obtain q w1 b1 where q: "process_files st ev (control w) (active_wal_filename ?fs) ?fs (w, empty_batch) = (q, (w1, b1))"
    by (metis prod.collapse)
  have sm: "small st (w, empty_batch)" using size by (simp add: small_def empty_batch_def)
  have sub: "set ?fs \<subseteq> set (keys (wal_dir w))" by auto
  have offs: "\<forall>f \<in> set ?fs. map_of (batch_offsets empty_batch) f = None \<and>
      offset_of (control w) f = offset_of (control w) f" by (simp add: empty_batch_def)
  have pf: "run_inv st ev log lost (size (visible w)) (w1, b1) \<and> keeps_rest (w, empty_batch) (w1, b1) \<and>
    (\<forall>g. g \<notin> set ?fs \<or> g \<in> quarantined (control w) \<longrightarrow> position (w1, b1) g = position (w, empty_batch) g) \<and>
    (case q of
       Inr _ \<Rightarrow> small st (w1, b1) \<and> (\<forall>f \<in> set ?fs. f \<in> quarantined (control w) \<or>
         exhausted st ev log (w1, b1) f \<and>
         reported st ev f (segment_bytes w f) (offset_of (control w) f) (control (fst (w1, b1))))
     | Inl e \<Rightarrow> uncaught ev e (w1, b1))"
    using process_files_inv [OF inv0 names size sm distinct_sorted_wal_files [OF dist] sub offs q]
    unfolding quarantined_def .
  have pos0: "position (w, empty_batch) = offset_of (control w)" by (simp add: position_def empty_batch_def)
  have unt: "untouched w u"
    if "run_inv st ev log lost (size (visible w)) (u, v)" "keeps_rest (w, empty_batch) (u, v)"
      "position (u, v) = position (w1, b1)" for u v
    unfolding untouched_def
  proof (intro conjI allI impI)
    show "quarantined (control w) \<subseteq> quarantined (control u)"
      using that(2) by (auto simp: keeps_rest_def quarantined_def)
    fix g assume "g \<notin> set ?fs \<or> g \<in> quarantined (control w)"
    then have "position (u, v) g = offset_of (control w) g" using pf pos0 that(3) by simp
    moreover have "offset_of (control u) g \<le> position (u, v) g" using that(1) by (simp add: run_inv_def)
    moreover have "offset_of (control w) g \<le> offset_of (control u) g" using that(2) by (simp add: keeps_rest_def)
    ultimately show "offset_of (control u) g = offset_of (control w) g" by simp
  qed
  show ?thesis
  proof (cases q)
    case (Inl e)
    then have "res = Inl e" "w' = w1" "b = b1"
      using run q by (simp_all add: materialize_run_def Let_def bindE_def)
    moreover obtain lost' where "accounted st ev log (lost + lost') w1" using pf run_inv_accounted by blast
    moreover have "fatal st ev log e" using pf Inl uncaught_fatal by auto
    moreover have "untouched w w1" using unt [of w1 b1] pf by simp
    ultimately show ?thesis using pf Inl by (intro exI [of _ lost']) (simp add: keeps_rest_def)
  next
    case (Inr x)
    have fl: "(if batch_rows b1 \<noteq> [] then flush_current ev (w1, b1) else (Inr (), (w1, b1))) = (res, (w', b))"
      using run q Inr by (simp add: materialize_run_def Let_def bindE_def)
    from pf have inv1: "run_inv st ev log lost (size (visible w)) (w1, b1)" by simp
    have f: "run_inv st ev log lost (size (visible w)) (w', b) \<and> position (w', b) = position (w1, b1) \<and>
        keeps_rest (w1, b1) (w', b) \<and> (case res of Inr _ \<Rightarrow> batch_rows b = []
          | Inl e \<Rightarrow> e = arrow_error ev \<and> batch_rows b \<noteq> [] \<and> \<not> list_all row_fits (batch_rows b))"
    proof (cases "batch_rows b1 = []")
      case True
      with fl inv1 show ?thesis by auto
    next
      case False
      with fl have "flush_current ev (w1, b1) = (res, (w', b))" by simp
      from flush_current_inv [OF inv1 names False this] False show ?thesis by (auto split: if_splits)
    qed
    have keep: "keeps_rest (w, empty_batch) (w', b)" using pf f by (blast intro: keeps_rest_trans)
    have untd: "untouched w w'" using unt [of w' b] f keep by simp
    show ?thesis
    proof (cases res)
      case (Inl e)
      moreover obtain lost' where "accounted st ev log (lost + lost') w'" using f run_inv_accounted by blast
      ultimately show ?thesis
        using f keep untd uncaught_fatal [of st ev log lost "size (visible w)" w' b e]
        by (intro exI [of _ lost']) (auto simp: keeps_rest_def uncaught_def)
    next
      case Inr': (Inr y)
      with f have rows: "batch_rows b = []" by simp
      from f have inv': "run_inv st ev log lost (size (visible w)) (w', b)" by simp
      note settled = run_inv_settled [OF inv' rows]
      have "rows_after st ev g (log_bytes log g) (offset_of (control w') g) = []"
        if g: "g \<in> set ?fs" and nq: "g \<notin> quarantined (control w)" for g
      proof -
        have bo: "boundary st ev g (log_bytes log g) (offset_of (control w') g)"
          and bp: "boundary st ev g (log_bytes log g) (position (w', b) g)"
          and le: "\<And>g. offset_of (control w') g \<le> position (w', b) g" using inv' by (simp_all add: run_inv_def)
        have "g \<in> set (keys log)"
          using covers_bytes [of log w g] sub g acc by (auto simp: accounted_def)
        with le settled have eq: "mset (rows_upto st ev g (log_bytes log g) (offset_of (control w') g)) =
            mset (rows_upto st ev g (log_bytes log g) (position (w', b) g))"
          by (intro rows_at_eq_pointwise) simp_all
        have "exhausted st ev log (w1, b1) g" using pf Inr g nq by auto
        then have "rows_after st ev g (log_bytes log g) (position (w', b) g) = []"
          using f by (simp add: exhausted_def rows_after_def)
        then have "rows_upto st ev g (log_bytes log g) (position (w', b) g) = rows_after st ev g (log_bytes log g) 0"
          using rows_split [OF bp] by simp
        then have "length (rows_upto st ev g (log_bytes log g) (offset_of (control w') g)) =
            length (rows_after st ev g (log_bytes log g) 0)"
          using eq by (metis mset_eq_length)
        then show ?thesis using arg_cong [OF rows_split [OF bo], of length] by simp
      qed
      moreover have "reported st ev g (segment_bytes w g) (offset_of (control w) g) (control w')"
        if "g \<in> set ?fs" "g \<notin> quarantined (control w)" for g
      proof -
        have "reported st ev g (segment_bytes w g) (offset_of (control w) g) (control w1)"
          using pf Inr that by auto
        then show ?thesis by (rule reported_mono) (use f in \<open>simp add: keeps_rest_def\<close>)
      qed
      ultimately have "\<forall>f \<in> set ?fs. f \<in> quarantined (control w) \<or> settled st ev log w w' f"
        by (auto simp: settled_def)
      with settled keep untd Inr' show ?thesis by (intro exI [of _ "{#}"]) (auto simp: keeps_rest_def)
    qed
  qed
qed

text \<open>
  Under the lock, by a thread that gets it: what the run delivers, and what the caller gets.
  With automatic cleanup the nested lock turns a run that would return into a failure.
\<close>

definition delivered :: "settings \<Rightarrow> world \<Rightarrow> exn + nat \<Rightarrow> exn + nat" where
  "delivered st w q =
    (case q of Inl e \<Rightarrow> Inl e
     | Inr n \<Rightarrow> if auto_cleanup_wal st \<and> sorted_wal_files (keys (wal_dir w)) \<noteq> []
         then Inl (Operational_Error ''database is locked'') else Inr n)"

lemma cleanup_taken:
  "lifecycle_lock w = lock_taken a l \<Longrightarrow>
     cleanup_materialized_wal_files ev a w = (Inl (Operational_Error ''database is locked''), w)"
  by (simp add: cleanup_materialized_wal_files_def with_lifecycle_lock_def enter_lock_taken)

lemma materialize_idle:
  assumes acc: "accounted st ev log lost w" and names: "unique_names ev" and size: "0 < materialize_batch_size st"
    and dist: "distinct (keys (wal_dir w))" and idle: "lock_idle a (lifecycle_lock w)"
    and run: "materialize st ev a w = (res, w')"
  shows "\<exists>q lost'. res = delivered st w q \<and> accounted st ev log (lost + lost') w' \<and> wal_dir w' = wal_dir w \<and>
    lifecycle_lock w' = lifecycle_lock w \<and> (\<forall>f. offset_of (control w) f \<le> offset_of (control w') f) \<and> untouched w w' \<and>
    (case q of
       Inl e \<Rightarrow> fatal st ev log e
     | Inr n \<Rightarrow> lost' = {#} \<and> size (visible w') = size (visible w) + n \<and>
         (\<forall>f \<in> set (sorted_wal_files (keys (wal_dir w))).
            f \<in> quarantined (control w) \<or> settled st ev log w w' f))"
proof -
  let ?l = "lock_taken a (lifecycle_lock w)"
  let ?u = "w\<lparr>lifecycle_lock := ?l\<rparr>"
  obtain n0 w0 where orph: "cleanup_orphaned_parquet_files ev (manifest_error ev) ?u = (n0, w0)" by fastforce
  have acc0: "accounted st ev log lost w0" and vis0: "visible w0 = visible w"
    using accounted_orphans [OF _ orph] acc by simp_all
  note same = cleanup_orphaned_same [OF orph]
  obtain r1 w1 where body: "materialize_body st ev a ?u = (r1, w1)" by fastforce
  have eqs: "control w0 = control w" "wal_dir w0 = wal_dir w" "lifecycle_lock w0 = ?l" using same by simp_all
  have main: "\<exists>q lost'. r1 = delivered st w q \<and> accounted st ev log (lost + lost') w1 \<and> wal_dir w1 = wal_dir w \<and>
      lifecycle_lock w1 = ?l \<and> (\<forall>f. offset_of (control w) f \<le> offset_of (control w1) f) \<and> untouched w w1 \<and>
      (case q of
         Inl e \<Rightarrow> fatal st ev log e
       | Inr n \<Rightarrow> lost' = {#} \<and> size (visible w1) = size (visible w) + n \<and>
           (\<forall>f \<in> set (sorted_wal_files (keys (wal_dir w))).
              f \<in> quarantined (control w) \<or> settled st ev log w w1 f))"
  proof (cases "sorted_wal_files (keys (wal_dir w)) = []")
    case True
    then have "r1 = Inr 0" "w1 = w0" using body orph eqs by (simp_all add: materialize_body_run)
    then show ?thesis using acc0 vis0 same True
      by (intro exI [of _ "Inr 0"] exI [of _ "{#}"]) (simp add: untouched_def delivered_def)
  next
    case False
    obtain q w2 b where q: "materialize_run st ev w0 = (q, (w2, b))" by (metis prod.collapse)
    let ?q = "case q of Inl e \<Rightarrow> Inl e | Inr _ \<Rightarrow> Inr (total_spans b)"
    have "distinct (keys (wal_dir w0))" using dist by (simp add: eqs)
    note spec = materialize_run_spec [OF acc0 names size this q, unfolded eqs]
    then have l2: "lifecycle_lock w2 = ?l" by blast
    have "r1 = delivered st w ?q" "w1 = w2"
      using body orph eqs q False cleanup_taken [OF l2]
      by (auto simp: materialize_body_run delivered_def split: sum.splits if_splits)
    moreover have set: "settled st ev log w0 u = settled st ev log w u" "untouched w0 u = untouched w u" for u
      by (simp_all add: settled_def untouched_def segment_bytes_def eqs fun_eq_iff)
    ultimately show ?thesis using spec unfolding vis0 set by (intro exI [of _ ?q]) (cases q; simp)
  qed
  then have keeps: "lifecycle_lock w1 = ?l" by blast
  have rw: "res = r1" "w' = w1\<lparr>lifecycle_lock := lifecycle_lock w\<rparr>"
    using run with_lock_idle [of a w "materialize_body st ev a", OF idle body keeps] by (simp_all add: materialize_def)
  have set: "settled st ev log w (w1\<lparr>lifecycle_lock := l\<rparr>) = settled st ev log w w1"
    "untouched w (w1\<lparr>lifecycle_lock := l\<rparr>) = untouched w w1" for l
    by (simp_all add: settled_def untouched_def fun_eq_iff)
  from main obtain q where "r1 = delivered st w q" and rest: "\<exists>lost'. accounted st ev log (lost + lost') w1 \<and> wal_dir w1 = wal_dir w \<and>
      lifecycle_lock w1 = ?l \<and> (\<forall>f. offset_of (control w) f \<le> offset_of (control w1) f) \<and> untouched w w1 \<and>
      (case q of
         Inl e \<Rightarrow> fatal st ev log e
       | Inr n \<Rightarrow> lost' = {#} \<and> size (visible w1) = size (visible w) + n \<and>
           (\<forall>f \<in> set (sorted_wal_files (keys (wal_dir w))).
              f \<in> quarantined (control w) \<or> settled st ev log w w1 f))" by blast
  then show ?thesis
    unfolding rw set by (intro exI [of _ q]) (cases q; auto)
qed

end
