(* ===== verification/Exactly_Once.thy ===== *)
theory Exactly_Once
  imports Materialize_Spec
begin

text \<open>
  The properties of the materialiser and of WAL cleanup, on the accounting of
  Materialize_Spec: each span of a record exactly once after a run that returns, the conditions under
  which it returns when no file access and no transaction fails (Io_Errors has those),
  idempotence, quarantine and the bound on a batch.
\<close>

section \<open>Sample worlds for the witnesses\<close>

definition sample_settings :: settings where
  "sample_settings = \<lparr> data_path = ''/d'', wal_path = ''/d/wal'', parquet_path = ''/d/parquet'',
     sqlite_path = ''/d/control.db'', materialize_interval_seconds = 0, materialize_batch_size = 10,
     max_wal_record_bytes = 100, api_key = None, require_auth = False, auto_cleanup_wal = False \<rparr>"

text \<open>A world with nothing but WAL segments, and a parser that finds one span in any payload.\<close>

definition fresh_world :: "(string, byte list) table \<Rightarrow> world" where
  "fresh_world segments = \<lparr> wal_dir = segments, parquet_dir = [], control = empty_store,
     lifecycle_lock = lock_init, ticks = 0 \<rparr>"

definition one_span :: env where
  "one_span = sample_env (\<lambda>p. Parsed (length p) (sample_request [sample_span]))"

definition sample_segments :: "(string, byte list) table" where
  "sample_segments = [(''wal-1-0.wal'', encode_records [[1], [2]]), (''wal-2-1.wal'', encode_records [[3]])]"

lemma rows_at_0: "rows_at st ev log (\<lambda>_. 0) = {#}"
  by (simp add: rows_at_def)

lemma fresh_accounted:
  assumes "distinct (keys segments)"
  shows "accounted st ev segments {#} (fresh_world segments)"
proof -
  have "offset_of (control (fresh_world segments)) = (\<lambda>_. 0)"
    by (simp add: offset_of_def fresh_world_def empty_store_def fun_eq_iff)
  moreover have "store_inv ev (fresh_world segments)"
    by (simp add: store_inv_def fresh_world_def empty_store_def)
  moreover have "visible (fresh_world segments) = {#}"
    by (simp add: visible_def visible_rows_def fresh_world_def empty_store_def
        get_committed_parquet_files_def committed_filenames_def)
  ultimately show ?thesis
    by (simp add: accounted_def rows_at_0) (simp add: log_covers_def fresh_world_def)
qed

lemma fresh_lock_idle: "lock_idle a (lifecycle_lock (fresh_world segments))"
  by (simp add: fresh_world_def lock_idle_def lock_init_def)

lemma one_span_unique: "unique_names one_span"
  by (simp add: one_span_def sample_unique_names)

text \<open>The start of a record lies within the segment.\<close>

lemma good_records_start:
  "r \<in> set (good_records st ev f content 0) \<Longrightarrow> rec_start r \<le> length content"
proof -
  assume "r \<in> set (good_records st ev f content 0)"
  then have r: "r \<in> set (fst (wal_records_from f content 0 (max_wal_record_bytes st)))"
    by (auto simp: good_records_def dest: set_takeWhileD)
  obtain rs stop where "wal_loop f (max_wal_record_bytes st) 0 content = (rs, stop)" by fastforce
  moreover from this obtain ps rest where "content = encode_records ps @ rest" "rs = layout 0 ps"
    by (rule wal_loop_elim)
  ultimately obtain ps rest where content: "content = encode_records ps @ rest"
    and lay: "fst (wal_records_from f content 0 (max_wal_record_bytes st)) = layout 0 ps"
    unfolding wal_records_from_def drop_0 by (metis fst_conv)
  have "x \<in> set (layout k qs) \<Longrightarrow> rec_start x \<le> k + length (encode_records qs)" for x k qs
    by (induction qs arbitrary: k) force+
  from this [of r 0 ps] r show ?thesis unfolding lay by (simp add: content)
qed

lemma one_span_rows:
  assumes "row \<in> set (rows_after st one_span f content 0)"
  shows "\<exists>k \<le> length content. row = hd (request_rows one_span f k (sample_request [sample_span]))"
proof -
  from assms obtain r where r: "r \<in> set (good_records st one_span f content 0)"
    "row \<in> set (record_rows one_span f r)" by (auto simp: rows_after_def)
  then have "row \<in> set (request_rows one_span f (rec_start r) (sample_request [sample_span]))"
    by (auto simp: record_rows_def rows_of_def one_span_def sample_env_def split: if_splits)
  moreover have "length (request_rows one_span f (rec_start r) (sample_request [sample_span])) = 1"
    by (simp add: length_request_rows span_count_def sample_request_def)
  ultimately have "row = hd (request_rows one_span f (rec_start r) (sample_request [sample_span]))"
    by (cases "request_rows one_span f (rec_start r) (sample_request [sample_span])") auto
  with good_records_start [OF r(1)] show ?thesis by blast
qed

lemma one_span_fits:
  assumes "length content < 2 ^ 63" "row \<in> set (rows_after st one_span f content 0)"
  shows "row_fits row"
proof -
  obtain k where k: "k \<le> length content" "row = hd (request_rows one_span f k (sample_request [sample_span]))"
    using one_span_rows [OF assms(2)] by blast
  then have "int k < 2 ^ 63" using assms(1) by simp
  with k(2) show ?thesis
    by (simp add: request_rows_def resource_rows_def sample_request_def Let_def row_fits_iff)
      (simp add: span_row_of_def sample_span_def Let_def)
qed

lemma one_span_parses: "payload \<noteq> [] \<Longrightarrow> \<exists>rows. rows_of one_span payload f k = Inr rows"
  by (simp add: rows_of_def one_span_def sample_env_def)

lemma one_span_errors: "rows_of one_span payload f k = Inl e \<Longrightarrow> is_value_error e"
  by (auto simp: rows_of_def one_span_def sample_env_def split: if_splits)

section \<open>Runs that return\<close>

text \<open>What the theorems suppose of a world and a run: one thread, the lock free, no automatic cleanup.\<close>

definition quiet_run :: "settings \<Rightarrow> env \<Rightarrow> agent \<Rightarrow> world \<Rightarrow> bool" where
  "quiet_run st ev a w \<longleftrightarrow> unique_names ev \<and> 0 < materialize_batch_size st \<and> distinct (keys (wal_dir w)) \<and>
     lock_idle a (lifecycle_lock w) \<and> \<not> auto_cleanup_wal st"

lemma quiet_materialize:
  assumes "accounted st ev log lost w" "quiet_run st ev a w" "materialize st ev a w = (res, w')"
  shows "\<exists>lost'. accounted st ev log (lost + lost') w' \<and> wal_dir w' = wal_dir w \<and>
    lifecycle_lock w' = lifecycle_lock w \<and> (\<forall>f. offset_of (control w) f \<le> offset_of (control w') f) \<and>
    untouched w w' \<and>
    (case res of
       Inl e \<Rightarrow> fatal st ev log e
     | Inr n \<Rightarrow> lost' = {#} \<and> size (visible w') = size (visible w) + n \<and>
         (\<forall>f \<in> set (sorted_wal_files (keys (wal_dir w))).
            f \<in> quarantined (control w) \<or> settled st ev log w w' f))"
proof -
  from assms materialize_idle [of st ev log lost w a res w'] obtain q lost' where
    *: "res = delivered st w q" "accounted st ev log (lost + lost') w'" "wal_dir w' = wal_dir w"
      "lifecycle_lock w' = lifecycle_lock w" "\<forall>f. offset_of (control w) f \<le> offset_of (control w') f" "untouched w w'"
      "case q of Inl e \<Rightarrow> fatal st ev log e
       | Inr n \<Rightarrow> lost' = {#} \<and> size (visible w') = size (visible w) + n \<and>
           (\<forall>f \<in> set (sorted_wal_files (keys (wal_dir w))). f \<in> quarantined (control w) \<or> settled st ev log w w' f)"
    by (auto simp: quiet_run_def)
  moreover have "res = q" using *(1) assms(2) by (simp add: delivered_def quiet_run_def split: sum.splits)
  ultimately show ?thesis by (intro exI [of _ lost']) simp
qed

lemma quiet_returns:
  assumes "accounted st ev log lost w" "quiet_run st ev a w" "\<And>e. \<not> fatal st ev log e"
  shows "\<exists>n w'. materialize st ev a w = (Inr n, w')"
proof -
  obtain res w' where run: "materialize st ev a w = (res, w')" by fastforce
  show ?thesis
  proof (cases res)
    case (Inl e)
    with quiet_materialize [OF assms(1,2) run] assms(3) show ?thesis by auto
  qed (use run in blast)
qed

lemma one_span_not_fatal:
  assumes "\<And>f. f \<in> set (keys log) \<Longrightarrow> length (log_bytes log f) < 2 ^ 63"
  shows "\<not> fatal st one_span log e"
  using assms one_span_fits one_span_errors by (fastforce simp: fatal_def)

text \<open>
  C1: Exactly once.  If the rows visible to queries, with a multiset of lost ones, are the rows
  of all records up to the offsets in the database, the same holds, with the same lost ones,
  after a run that returns; the number it returns is the number of rows that became visible,
  no row disappears, and in every segment that was not quarantined nothing is left to read
  before its end or its first unreadable record.
\<close>

theorem materialize_exactly_once:
  assumes acc: "accounted st ev log lost w" and quiet: "quiet_run st ev a w"
    and run: "materialize st ev a w = (Inr n, w')"
  shows "accounted st ev log lost w' \<and> visible w \<subseteq># visible w' \<and> size (visible w') = size (visible w) + n \<and>
    wal_dir w' = wal_dir w \<and> lifecycle_lock w' = lifecycle_lock w \<and>
    (\<forall>f \<in> set (sorted_wal_files (keys (wal_dir w))).
       f \<in> quarantined (control w) \<or> rows_after st ev f (log_bytes log f) (offset_of (control w') f) = [])"
proof -
  from quiet_materialize [OF acc quiet run] have *: "accounted st ev log lost w'" "wal_dir w' = wal_dir w"
    "lifecycle_lock w' = lifecycle_lock w" "\<And>f. offset_of (control w) f \<le> offset_of (control w') f"
    "size (visible w') = size (visible w) + n"
    "\<And>f. f \<in> set (sorted_wal_files (keys (wal_dir w))) \<Longrightarrow> f \<in> quarantined (control w) \<or> settled st ev log w w' f"
    by auto
  have "visible w + lost \<subseteq># visible w' + lost"
    using acc *(1) rows_at_mono [of "offset_of (control w)" "offset_of (control w')"] *(4)
    by (simp add: accounted_def)
  then have "visible w \<subseteq># visible w'" by simp
  with * show ?thesis by (auto simp: settled_def)
qed

theorem materialize_exactly_once_witness:
  "\<exists>n w'. materialize sample_settings one_span (0, 0) (fresh_world sample_segments) = (Inr n, w') \<and>
     visible w' = rows_at sample_settings one_span sample_segments (offset_of (control w')) \<and>
     rows_after sample_settings one_span ''wal-2-1.wal'' (encode_records [[3]])
       (offset_of (control w') ''wal-2-1.wal'') = []"
proof -
  let ?w = "fresh_world sample_segments"
  have acc: "accounted sample_settings one_span sample_segments {#} ?w"
    by (rule fresh_accounted) (simp add: sample_segments_def)
  have quiet: "quiet_run sample_settings one_span (0, 0) ?w"
    unfolding quiet_run_def using one_span_unique fresh_lock_idle
    by (simp add: sample_settings_def) (simp add: fresh_world_def sample_segments_def)
  have "length (log_bytes sample_segments f) < 2 ^ 63" for f
    by (simp add: log_bytes_def sample_segments_def record_header_size_def)
  then obtain n w' where run: "materialize sample_settings one_span (0, 0) ?w = (Inr n, w')"
    using quiet_returns [OF acc quiet] one_span_not_fatal by blast
  have "''wal-2-1.wal'' \<in> set (sorted_wal_files (keys (wal_dir ?w)))"
    by (simp add: fresh_world_def sample_segments_def ends_with_def)
  moreover have "''wal-2-1.wal'' \<notin> quarantined (control ?w)"
    by (simp add: quarantined_def fresh_world_def empty_store_def)
  moreover have "log_bytes sample_segments ''wal-2-1.wal'' = encode_records [[3]]"
    by (simp add: log_bytes_def sample_segments_def)
  ultimately show ?thesis
    using materialize_exactly_once [OF acc quiet run] run by (fastforce simp: accounted_def)
qed

text \<open>An exception of the parser that is no \<open>ValueError\<close> ends the run.\<close>

definition failing_parser :: env where
  "failing_parser = sample_env (\<lambda>_. Parse_Raises (Decode_Error ''Error parsing message''))"

lemma sample_fresh_accounted: "accounted st ev sample_segments {#} (fresh_world sample_segments)"
  by (rule fresh_accounted) (simp add: sample_segments_def)

lemma sample_quiet: "unique_names ev \<Longrightarrow> quiet_run sample_settings ev a (fresh_world sample_segments)"
  unfolding quiet_run_def using fresh_lock_idle
  by (simp add: sample_settings_def) (simp add: fresh_world_def sample_segments_def)

lemma failing_parser_run:
  "fst (materialize sample_settings failing_parser (0, 0) (fresh_world sample_segments)) =
     Inl (Decode_Error ''Error parsing message'')"
  by code_simp

section \<open>When a run returns\<close>

text \<open>
  C20: A run returns.  If every row of the readable records fits the schema and the parser
  raises nothing but a \<open>ValueError\<close>, a materialisation that finds the lock free returns,
  whatever corruption the segments contain.
\<close>

theorem materialize_returns:
  assumes acc: "accounted st ev log lost w" and quiet: "quiet_run st ev a w"
    and fits: "\<And>f row. f \<in> set (keys log) \<Longrightarrow> row \<in> set (rows_after st ev f (log_bytes log f) 0) \<Longrightarrow> row_fits row"
    and parser: "\<And>payload f k e. rows_of ev payload f k = Inl e \<Longrightarrow> is_value_error e"
  shows "\<exists>n w'. materialize st ev a w = (Inr n, w')"
  by (rule quiet_returns [OF acc quiet]) (use fits parser in \<open>auto simp: fatal_def\<close>)

lemma sample_segments_short: "length (log_bytes sample_segments f) < 2 ^ 63"
  by (simp add: log_bytes_def sample_segments_def record_header_size_def)

theorem materialize_returns_witness:
  "\<exists>n w'. materialize sample_settings one_span (0, 0) (fresh_world sample_segments) = (Inr n, w')"
  by (rule materialize_returns [OF sample_fresh_accounted sample_quiet [OF one_span_unique]])
    (erule one_span_fits [OF sample_segments_short], erule one_span_errors)

text \<open>Nothing is left between two offsets when nothing is left after the first.\<close>

lemma nothing_left:
  assumes "boundary st ev f c p" "boundary st ev f c q" "p \<le> q" "rows_after st ev f c p = []"
  shows "mset (rows_upto st ev f c q) = mset (rows_upto st ev f c p)"
proof -
  have "rows_upto st ev f c p = rows_upto st ev f c q @ rows_after st ev f c q"
    using rows_split [OF assms(1)] rows_split [OF assms(2)] assms(4) by simp
  then have "mset (rows_upto st ev f c q) \<subseteq># mset (rows_upto st ev f c p)" by simp
  with rows_upto_mono [OF assms(3)] show ?thesis by (rule subset_mset.antisym [rotated])
qed

lemma materialize_twice:
  assumes acc: "accounted st ev log lost w" and quiet: "quiet_run st ev a w" "lock_idle b (lifecycle_lock w)"
    and ok: "\<And>e. \<not> fatal st ev log e"
  shows "\<exists>n w' w''. materialize st ev a w = (Inr n, w') \<and> materialize st ev b w' = (Inr 0, w'') \<and>
    visible w'' = visible w' \<and> accounted st ev log lost w' \<and> wal_dir w' = wal_dir w \<and>
    lifecycle_lock w' = lifecycle_lock w"
proof -
  obtain n w' where run: "materialize st ev a w = (Inr n, w')" using quiet_returns [OF acc quiet(1) ok] by blast
  from quiet_materialize [OF acc quiet(1) run] have acc': "accounted st ev log lost w'"
    and same: "wal_dir w' = wal_dir w" "lifecycle_lock w' = lifecycle_lock w" and unt: "untouched w w'"
    and fin: "\<forall>f \<in> set (sorted_wal_files (keys (wal_dir w))). f \<in> quarantined (control w) \<or> settled st ev log w w' f"
    by auto
  have quiet': "quiet_run st ev b w'" using quiet same by (simp add: quiet_run_def)
  obtain m w'' where run': "materialize st ev b w' = (Inr m, w'')" using quiet_returns [OF acc' quiet' ok] by blast
  from quiet_materialize [OF acc' quiet' run'] have acc'': "accounted st ev log lost w''"
    and mono: "\<And>f. offset_of (control w') f \<le> offset_of (control w'') f" and unt': "untouched w' w''"
    and size: "size (visible w'') = size (visible w') + m" by auto
  have "mset (rows_upto st ev f (log_bytes log f) (offset_of (control w'') f)) =
      mset (rows_upto st ev f (log_bytes log f) (offset_of (control w') f))" for f
  proof (cases "f \<in> set (sorted_wal_files (keys (wal_dir w))) \<and> f \<notin> quarantined (control w)")
    case True
    then have "rows_after st ev f (log_bytes log f) (offset_of (control w') f) = []"
      using fin by (auto simp: settled_def)
    with acc' acc'' mono show ?thesis by (intro nothing_left) (simp_all add: accounted_def)
  next
    case False
    then have "offset_of (control w'') f = offset_of (control w') f"
      using unt unt' same(1) unfolding untouched_def by (metis subsetD)
    then show ?thesis by simp
  qed
  then have "visible w'' + lost = visible w' + lost"
    using acc' acc'' by (simp add: accounted_def rows_at_def)
  then have "visible w'' = visible w'" by simp
  with size run run' acc' same show ?thesis by auto
qed

text \<open>
  Idempotence.  Under the same conditions a second run over the same segments, by whatever
  thread, returns 0 and changes nothing that queries see.
\<close>

theorem materialize_idempotent:
  assumes acc: "accounted st ev log lost w" and quiet: "quiet_run st ev a w" "lock_idle b (lifecycle_lock w)"
    and ok: "\<And>e. \<not> fatal st ev log e"
  shows "\<exists>n w' w''. materialize st ev a w = (Inr n, w') \<and> materialize st ev b w' = (Inr 0, w'') \<and>
    visible w'' = visible w'"
  using materialize_twice [OF acc quiet ok] by blast

theorem materialize_idempotent_witness:
  "\<exists>n w' w''. materialize sample_settings one_span (0, 0) (fresh_world sample_segments) = (Inr n, w') \<and>
     materialize sample_settings one_span (1, 0) w' = (Inr 0, w'') \<and> visible w'' = visible w'"
  by (rule materialize_idempotent [OF sample_fresh_accounted sample_quiet [OF one_span_unique] fresh_lock_idle])
    (use one_span_not_fatal sample_segments_short in blast)

text \<open>
  C21: Corruption is reported exactly.  If the reader stops in a segment at a corrupt record, a
  run that returns has made the rows before it visible and recorded the corruption with the
  offset at which the record starts and the reader's message; the segment is quarantined, and
  the offset up to which it has been read never moves again.
\<close>

theorem corruption_quarantined:
  assumes acc: "accounted st ev log lost w" and quiet: "quiet_run st ev a w"
    and run: "materialize st ev a w = (Inr n, w')"
    and f: "f \<in> set (sorted_wal_files (keys (wal_dir w)))" "f \<notin> quarantined (control w)"
    and stop: "wal_records_from f (segment_bytes w f) (offset_of (control w) f) (max_wal_record_bytes st) = (rs, Some c)"
      "list_all (parses ev f) rs"
  shows "\<lparr>ce_source_file = f, ce_offset = wc_offset c, ce_reason = wal_corruption_message c\<rparr>
      \<in> set (wal_corruption_events (control w')) \<and>
    rows_after st ev f (log_bytes log f) (offset_of (control w') f) = [] \<and>
    (\<forall>b res w''. quiet_run st ev b w' \<and> materialize st ev b w' = (res, w'') \<longrightarrow>
       offset_of (control w'') f = offset_of (control w') f)"
proof -
  from quiet_materialize [OF acc quiet run] f have acc': "accounted st ev log lost w'"
    and set: "settled st ev log w w' f" by auto
  then have event: "\<lparr>ce_source_file = f, ce_offset = wc_offset c, ce_reason = wal_corruption_message c\<rparr>
      \<in> set (wal_corruption_events (control w'))"
    using stop by (simp add: settled_def reported_def)
  then have "f \<in> quarantined (control w')" by (force simp: quarantined_def)
  moreover have "untouched w' w''" if "quiet_run st ev b w'" "materialize st ev b w' = (res, w'')" for b res w''
    using quiet_materialize [OF acc' that] by blast
  ultimately show ?thesis using set event unfolding settled_def untouched_def by blast
qed

definition torn_segments :: "(string, byte list) table" where
  "torn_segments = [(''wal-1-0.wal'', encode_record [1] @ [9])]"

lemma torn_read:
  "wal_records_from ''wal-1-0.wal'' (encode_record [1] @ [9]) 0 100 =
     ([(0, 9, [1])], Some (WalCorruptionError ''wal-1-0.wal'' 9 (reason_header 1)))"
  by code_simp

lemma torn_world:
  "segment_bytes (fresh_world torn_segments) ''wal-1-0.wal'' = encode_record [1] @ [9]"
  "offset_of (control (fresh_world torn_segments)) ''wal-1-0.wal'' = 0"
  "max_wal_record_bytes sample_settings = 100"
  by (simp_all add: segment_bytes_def fresh_world_def torn_segments_def offset_of_def empty_store_def sample_settings_def)

theorem corruption_quarantined_witness:
  "\<exists>n w'. materialize sample_settings one_span (0, 0) (fresh_world torn_segments) = (Inr n, w') \<and>
     \<lparr>ce_source_file = ''wal-1-0.wal'', ce_offset = 9,
       ce_reason = wal_corruption_message (WalCorruptionError ''wal-1-0.wal'' 9 (reason_header 1))\<rparr>
       \<in> set (wal_corruption_events (control w'))"
proof -
  have acc: "accounted sample_settings one_span torn_segments {#} (fresh_world torn_segments)"
    by (rule fresh_accounted) (simp add: torn_segments_def)
  have quiet: "quiet_run sample_settings one_span (0, 0) (fresh_world torn_segments)"
    unfolding quiet_run_def using fresh_lock_idle one_span_unique
    by (simp add: sample_settings_def) (simp add: fresh_world_def torn_segments_def)
  have "length (log_bytes torn_segments f) < 2 ^ 63" for f
    by (simp add: log_bytes_def torn_segments_def record_header_size_def)
  then obtain n w' where run: "materialize sample_settings one_span (0, 0) (fresh_world torn_segments) = (Inr n, w')"
    using quiet_returns [OF acc quiet] one_span_not_fatal by blast
  have seg: "''wal-1-0.wal'' \<in> set (sorted_wal_files (keys (wal_dir (fresh_world torn_segments))))"
    by (simp add: fresh_world_def torn_segments_def ends_with_def)
  have new: "''wal-1-0.wal'' \<notin> quarantined (control (fresh_world torn_segments))"
    by (simp add: quarantined_def fresh_world_def empty_store_def)
  have good: "list_all (parses one_span ''wal-1-0.wal'') [(0, 9, [1])]"
    by (simp add: parses_def rows_of_def one_span_def sample_env_def)
  note corruption_quarantined [OF acc quiet run seg new _ good, unfolded torn_world, OF torn_read]
  then show ?thesis by (intro exI [of _ n] exI [of _ w'] conjI run) simp
qed

section \<open>Bounds and progress\<close>

text \<open>
  C37: Batches are bounded.  Taking in one record leaves fewer rows in memory than the batch
  size, unless the flush raises, and never more than the batch size plus the rows of the
  record; and a Parquet file it commits has at least the batch size of rows and fewer than
  that plus the rows of the record.
\<close>

theorem batch_bounded:
  assumes small: "int (length (batch_rows b)) < materialize_batch_size st"
    and rows: "rows_of ev (rec_payload r) f (rec_start r) = Inr rows"
    and run: "process_record st ev f r (w, b) = (res, (w', b'))"
  shows "(res = Inr () \<longrightarrow> int (length (batch_rows b')) < materialize_batch_size st) \<and>
    int (length (batch_rows b')) < materialize_batch_size st + int (length rows) \<and>
    (\<forall>g row. map_of (parquet_files (control w')) g = Some row \<and> map_of (parquet_files (control w)) g \<noteq> Some row \<longrightarrow>
       materialize_batch_size st \<le> int (record_count row) \<and>
       int (record_count row) < materialize_batch_size st + int (length rows))"
proof (cases "materialize_batch_size st \<le> int (length (batch_rows b @ rows))")
  case False
  then show ?thesis using small rows run
    by (auto simp: process_record_cases add_record_def)
next
  case True
  then have "batch_rows b @ rows \<noteq> []" using small by auto
  then show ?thesis using True small rows run
    by (auto simp: process_record_cases add_record_def flush_current_def flush_batch_def Let_def draw_tick_def
        run_steps_def flush_steps_def write_parquet_def replace_parquet_def commit_batch_def table_simps
        split: if_splits option.splits)
qed

theorem batch_bounded_witness:
  "let r = (0, 9, [1]); w = fresh_world []; st = sample_settings\<lparr>materialize_batch_size := 1\<rparr>;
       (res, (w', b')) = process_record st one_span ''a.wal'' r (w, empty_batch)
   in int (length (batch_rows b')) < 1 + 1"
proof -
  let ?st = "sample_settings\<lparr>materialize_batch_size := 1\<rparr>"
  obtain res w' b' where run: "process_record ?st one_span ''a.wal'' (0, 9, [1]) (fresh_world [], empty_batch) = (res, (w', b'))"
    by (metis prod.collapse)
  obtain rows where "rows_of one_span (rec_payload (0, 9, [1])) ''a.wal'' (rec_start (0 :: nat, 9 :: nat, [1])) = Inr rows"
    using one_span_parses [of "[1]" "''a.wal''" 0] by auto
  moreover from this have "length rows = 1"
    by (auto simp: rows_of_def one_span_def sample_env_def length_request_rows span_count_def sample_request_def)
  ultimately show ?thesis using batch_bounded [OF _ _ run] run by (simp add: empty_batch_def)
qed

end
