(* ===== verification/Retention.thy ===== *)
theory Retention
  imports Exactly_Once
begin

text \<open>
  The retention of WAL segments: what \<open>cleanup_materialized_wal_files\<close> deletes, when a segment
  is marked as fully processed, and the three places where the marks and the data disagree.
\<close>

section \<open>What the cleanup deletes\<close>

text \<open>The segments that the cleanup deletes.\<close>

definition deletable :: "env \<Rightarrow> world \<Rightarrow> string list" where
  "deletable ev w = filter (\<lambda>f. f \<in> fully_processed_files (control w) \<and> \<not> unlink_fails ev f)
     (butlast (sorted_wal_files (keys (wal_dir w))))"

lemma delete_segments_result:
  "delete_segments ev fm fs w = (ds, w') \<Longrightarrow>
     ds = filter (\<lambda>f. f \<in> fm \<and> \<not> unlink_fails ev f) fs \<and>
     wal_dir w' = filter (\<lambda>kv. fst kv \<notin> set ds) (wal_dir w) \<and>
     parquet_dir w' = parquet_dir w \<and> ticks w' = ticks w \<and> lifecycle_lock w' = lifecycle_lock w \<and>
     (\<exists>t. control w' = (control w)\<lparr>wal_file_lifecycle := t\<rparr>)"
proof (induction fs arbitrary: w ds w')
  case Nil
  then show ?case by (auto intro: exI [of _ "wal_file_lifecycle (control w)"])
next
  case (Cons f fs)
  obtain d w1 where d: "delete_segment ev fm f w = (d, w1)" by fastforce
  obtain e w2 where e: "delete_segments ev fm fs w1 = (e, w2)" by fastforce
  have step: "d = filter (\<lambda>f. f \<in> fm \<and> \<not> unlink_fails ev f) [f]"
    "wal_dir w1 = filter (\<lambda>kv. fst kv \<notin> set d) (wal_dir w)"
    "parquet_dir w1 = parquet_dir w" "ticks w1 = ticks w" "lifecycle_lock w1 = lifecycle_lock w"
    "\<exists>t. control w1 = (control w)\<lparr>wal_file_lifecycle := t\<rparr>"
    using d by (auto simp: delete_segment_def tbl_remove_def split: if_splits
        intro: exI [of _ "wal_file_lifecycle (control w)"])
  have "ds = d @ e" "w' = w2" using Cons.prems d e by simp_all
  with step Cons.IH [OF e] show ?case by (auto intro!: filter_cong)
qed

lemma deletable_sorted: "set (deletable ev w) \<subseteq> set (sorted_wal_files (keys (wal_dir w)))"
  by (auto simp: deletable_def simp del: set_sort dest: in_set_butlastD)

lemma wal_cleanup_body_result:
  assumes "wal_cleanup_body ev w = (r, w')"
  shows "r = Inr (deletable ev w) \<and>
     wal_dir w' = filter (\<lambda>kv. fst kv \<notin> set (deletable ev w)) (wal_dir w) \<and>
     parquet_dir w' = parquet_dir w \<and> ticks w' = ticks w \<and> lifecycle_lock w' = lifecycle_lock w \<and>
     (\<exists>t. control w' = (control w)\<lparr>wal_file_lifecycle := t\<rparr>)"
proof (cases "length (sorted_wal_files (keys (wal_dir w))) \<le> 1")
  case True
  then have "butlast (sorted_wal_files (keys (wal_dir w))) = []"
    by (cases "sorted_wal_files (keys (wal_dir w))") auto
  then show ?thesis using assms True
    by (auto simp: wal_cleanup_body_def deletable_def intro: exI [of _ "wal_file_lifecycle (control w)"])
next
  case False
  obtain ds w1 where "delete_segments ev (fully_processed_files (control w))
      (butlast (sorted_wal_files (keys (wal_dir w)))) w = (ds, w1)" by fastforce
  from delete_segments_result [OF this] this assms False show ?thesis
    by (simp add: wal_cleanup_body_def deletable_def)
qed

lemma cleanup_idle:
  assumes idle: "lock_idle a (lifecycle_lock w)" and run: "cleanup_materialized_wal_files ev a w = (r, w')"
  shows "r = Inr (deletable ev w) \<and>
     wal_dir w' = filter (\<lambda>kv. fst kv \<notin> set (deletable ev w)) (wal_dir w) \<and>
     parquet_dir w' = parquet_dir w \<and> lifecycle_lock w' = lifecycle_lock w \<and>
     (\<exists>t. control w' = (control w)\<lparr>wal_file_lifecycle := t\<rparr>)"
proof -
  let ?u = "w\<lparr>lifecycle_lock := lock_taken a (lifecycle_lock w)\<rparr>"
  obtain q w1 where body: "wal_cleanup_body ev ?u = (q, w1)" by fastforce
  note res = wal_cleanup_body_result [OF body]
  have del: "deletable ev ?u = deletable ev w" by (simp add: deletable_def)
  from res have "lifecycle_lock w1 = lock_taken a (lifecycle_lock w)" by simp
  from with_lock_idle [of a w "wal_cleanup_body ev", OF idle body this] run
  have "r = q" "w' = w1\<lparr>lifecycle_lock := lifecycle_lock w\<rparr>"
    by (simp_all add: cleanup_materialized_wal_files_def)
  with res del show ?thesis by simp
qed

text \<open>However the lock is, the accounts stay.\<close>

lemma accounted_drop_segments:
  assumes "accounted st ev log lost w" "wal_dir w' = filter (\<lambda>kv. P (fst kv)) (wal_dir w)"
    and "parquet_dir w' = parquet_dir w" "ticks w' = ticks w" "control w' = (control w)\<lparr>wal_file_lifecycle := t\<rparr>"
  shows "accounted st ev log lost w'"
proof -
  have "offset_of (control w') = offset_of (control w)"
    by (simp add: offset_of_def fun_eq_iff assms)
  moreover have "visible w' = visible w"
    by (simp add: visible_def visible_rows_def get_committed_parquet_files_def committed_filenames_def assms)
  ultimately show ?thesis using assms
    by (simp add: accounted_def store_inv_def log_covers_def map_of_filter_keys del: map_of_eq_Some_iff)
qed

lemma cleanup_accounted:
  assumes "accounted st ev log lost w" "cleanup_materialized_wal_files ev a w = (r, w')"
  shows "accounted st ev log lost w'"
  using assms(2) unfolding cleanup_materialized_wal_files_def
proof (rule with_lock_rule)
  show "accounted st ev log lost (w\<lparr>lifecycle_lock := l\<rparr>)" for l using assms(1) by simp
next
  fix l r1 w1 l'
  assume "wal_cleanup_body ev (w\<lparr>lifecycle_lock := l\<rparr>) = (r1, w1)"
  note wal_cleanup_body_result [OF this]
  moreover have "deletable ev (w\<lparr>lifecycle_lock := l\<rparr>) = deletable ev w" by (simp add: deletable_def)
  ultimately have "accounted st ev log lost w1"
    using assms(1) accounted_drop_segments [where P = "\<lambda>f. f \<notin> set (deletable ev w)" and w = w and w' = w1] by auto
  then show "accounted st ev log lost (w1\<lparr>lifecycle_lock := l'\<rparr>)" by simp
qed

text \<open>Deleting marked segments keeps the newest.\<close>

lemma active_drop:
  assumes D: "D \<subseteq> set (deletable ev w)" and dist: "distinct (keys (wal_dir w))"
    and w': "wal_dir w' = filter (\<lambda>kv. fst kv \<notin> D) (wal_dir w)"
  shows "active_wal_filename (sorted_wal_files (keys (wal_dir w'))) =
    active_wal_filename (sorted_wal_files (keys (wal_dir w)))"
proof -
  let ?fs = "sorted_wal_files (keys (wal_dir w))"
  have "keys (wal_dir w') = filter (\<lambda>f. f \<notin> D) (keys (wal_dir w))" by (simp add: w' filter_map comp_def)
  then have sorted: "sorted_wal_files (keys (wal_dir w')) = filter (\<lambda>f. f \<notin> D) ?fs"
    unfolding sorted_wal_files_def
    by (simp add: filter_sort) (metis (no_types, lifting) filter_filter filter_sort conj_commute)
  show ?thesis
  proof (cases "?fs = []")
    case False
    then have fs: "?fs = butlast ?fs @ [last ?fs]" by simp
    have "distinct ?fs" using dist by (rule distinct_sorted_wal_files)
    then have "last ?fs \<notin> set (butlast ?fs)" using fs by (metis distinct_append disjoint_iff list.set_intros(1))
    then have "last ?fs \<notin> D" using D by (auto simp: deletable_def)
    then have "filter (\<lambda>f. f \<notin> D) ?fs = filter (\<lambda>f. f \<notin> D) (butlast ?fs) @ [last ?fs]" by (subst fs) simp
    then show ?thesis using False by (simp add: active_wal_filename_def sorted)
  qed (simp add: active_wal_filename_def sorted)
qed

lemma wal_cleanup_idle:
  assumes idle: "lock_idle a (lifecycle_lock w)" and acc: "accounted st ev log lost w"
    and dist: "distinct (keys (wal_dir w))"
    and run: "cleanup_materialized_wal_files ev a w = (r, w')"
  shows "r = Inr (filter (\<lambda>f. f \<in> fully_processed_files (control w) \<and> \<not> unlink_fails ev f)
      (butlast (sorted_wal_files (keys (wal_dir w))))) \<and>
    (\<forall>f. map_of (wal_dir w') f = (if f \<in> set (deletable ev w) then None else map_of (wal_dir w) f)) \<and>
    active_wal_filename (sorted_wal_files (keys (wal_dir w'))) =
      active_wal_filename (sorted_wal_files (keys (wal_dir w))) \<and>
    visible w' = visible w \<and> accounted st ev log lost w'"
proof -
  note res = cleanup_idle [OF idle run]
  let ?D = "set (deletable ev w)"
  have "active_wal_filename (sorted_wal_files (keys (wal_dir w'))) = active_wal_filename (sorted_wal_files (keys (wal_dir w)))"
    using active_drop [OF order_refl dist] res by blast
  moreover have "\<forall>f. map_of (wal_dir w') f = (if f \<in> ?D then None else map_of (wal_dir w) f)"
    using res map_of_filter_keys [of "\<lambda>f. f \<notin> ?D" "wal_dir w"] by simp
  moreover have "visible w' = visible w"
    using res by (auto simp: visible_def visible_rows_def get_committed_parquet_files_def committed_filenames_def)
  ultimately show ?thesis
    using res cleanup_accounted [OF acc run] by (simp add: deletable_def)
qed

text \<open>
  C19: What cleanup deletes.  It deletes, in creation order, exactly the segments that are marked
  as fully processed and whose \<open>unlink\<close> works, never the newest one, and returns their names;
  the newest segment stays, no row that a query sees changes, and the accounts of the
  materialiser with them.
\<close>

theorem wal_cleanup_exact:
  assumes idle: "lock_idle a (lifecycle_lock w)" and acc: "accounted st ev log lost w"
    and dist: "distinct (keys (wal_dir w))"
    and run: "cleanup_materialized_wal_files ev a w = (r, w')"
  shows "r = Inr (filter (\<lambda>f. f \<in> fully_processed_files (control w) \<and> \<not> unlink_fails ev f)
      (butlast (sorted_wal_files (keys (wal_dir w))))) \<and>
    (\<forall>f. map_of (wal_dir w') f = (if f \<in> set (deletable ev w) then None else map_of (wal_dir w) f)) \<and>
    active_wal_filename (sorted_wal_files (keys (wal_dir w'))) =
      active_wal_filename (sorted_wal_files (keys (wal_dir w))) \<and>
    visible w' = visible w \<and> accounted st ev log lost w'"
  by (rule wal_cleanup_idle [OF assms])

text \<open>A sealed segment without records, which a run has marked, and the active one.\<close>

definition sealed_segments :: "(string, byte list) table" where
  "sealed_segments = [(''wal-1-0.wal'', []), (''wal-2-1.wal'', encode_record [3])]"

definition sealed_world :: world where
  "sealed_world = (fresh_world sealed_segments)\<lparr>control := empty_store\<lparr>materialized_wal_offsets :=
     [(''wal-1-0.wal'', \<lparr>max_offset = 0, is_fully_processed = True\<rparr>)]\<rparr>\<rparr>"

lemma sealed_world_accounted: "accounted st ev sealed_segments {#} sealed_world"
proof -
  have "accounted st ev sealed_segments {#} (fresh_world sealed_segments)"
    by (rule fresh_accounted) (simp add: sealed_segments_def)
  moreover have "offset_of (control sealed_world) = (\<lambda>_. 0)"
    "offset_of (control (fresh_world sealed_segments)) = (\<lambda>_. 0)"
    by (auto simp: offset_of_def fresh_world_def empty_store_def fun_eq_iff sealed_world_def)
  ultimately show ?thesis
    unfolding accounted_def
    by (simp add: sealed_world_def fresh_world_def empty_store_def store_inv_def log_covers_def visible_def
        visible_rows_def get_committed_parquet_files_def committed_filenames_def)
qed

theorem wal_cleanup_exact_witness:
  "\<exists>w'. cleanup_materialized_wal_files one_span (0, 0) sealed_world = (Inr [''wal-1-0.wal''], w') \<and>
     visible w' = visible sealed_world"
proof -
  obtain r w' where run: "cleanup_materialized_wal_files one_span (0, 0) sealed_world = (r, w')" by fastforce
  have idle: "lock_idle a (lifecycle_lock sealed_world)" for a
    using fresh_lock_idle [of a] by (simp add: sealed_world_def fresh_world_def)
  have dist: "distinct (keys (wal_dir sealed_world))"
    by (simp add: sealed_world_def fresh_world_def sealed_segments_def)
  have fs: "sorted_wal_files (keys (wal_dir sealed_world)) = [''wal-1-0.wal'', ''wal-2-1.wal'']"
    by code_simp
  have "fully_processed_files (control sealed_world) = {''wal-1-0.wal''}"
    by (simp add: fully_processed_files_def sealed_world_def)
  moreover note wal_cleanup_exact [OF idle sealed_world_accounted dist run, unfolded fs]
  ultimately show ?thesis using run by (simp add: one_span_def sample_env_def)
qed

section \<open>Automatic cleanup\<close>

text \<open>
  C33: Automatic cleanup never runs.  With the cleanup after materialisation switched on and at
  least one segment present, a run commits everything it read, exactly once, and then always
  raises: the cleanup enters the lifecycle lock a second time, on a second connection, and
  finds the database locked.  No segment is ever deleted, and the caller gets an error.
\<close>

theorem auto_cleanup_always_fails:
  assumes acc: "accounted st ev log lost w" and names: "unique_names ev" and size: "0 < materialize_batch_size st"
    and dist: "distinct (keys (wal_dir w))" and idle: "lock_idle a (lifecycle_lock w)"
    and auto: "auto_cleanup_wal st" "sorted_wal_files (keys (wal_dir w)) \<noteq> []"
    and ok: "\<And>e. \<not> fatal st ev log e"
  shows "\<exists>w'. materialize st ev a w = (Inl (Operational_Error ''database is locked''), w') \<and>
    accounted st ev log lost w' \<and> wal_dir w' = wal_dir w \<and> lifecycle_lock w' = lifecycle_lock w \<and>
    (\<forall>f \<in> set (sorted_wal_files (keys (wal_dir w))).
       f \<in> quarantined (control w) \<or> rows_after st ev f (log_bytes log f) (offset_of (control w') f) = [])"
proof -
  obtain res w' where run: "materialize st ev a w = (res, w')" by fastforce
  from materialize_idle [OF acc names size dist idle run] obtain q lost' where
    *: "res = delivered st w q" "accounted st ev log (lost + lost') w'" "wal_dir w' = wal_dir w"
      "lifecycle_lock w' = lifecycle_lock w"
      "case q of Inl e \<Rightarrow> fatal st ev log e
       | Inr n \<Rightarrow> lost' = {#} \<and> size (visible w') = size (visible w) + n \<and>
           (\<forall>f \<in> set (sorted_wal_files (keys (wal_dir w))). f \<in> quarantined (control w) \<or> settled st ev log w w' f)"
    by blast
  then obtain n where "q = Inr n" using ok by (cases q) auto
  with * run auto show ?thesis by (auto simp: delivered_def settled_def)
qed

theorem auto_cleanup_always_fails_witness:
  "\<exists>w'. materialize (sample_settings\<lparr>auto_cleanup_wal := True\<rparr>) one_span (0, 0) (fresh_world sample_segments) =
     (Inl (Operational_Error ''database is locked''), w') \<and> wal_dir w' = sample_segments"
proof -
  have "sorted_wal_files (keys (wal_dir (fresh_world sample_segments))) \<noteq> []"
    by (simp add: sorted_wal_files_def fresh_world_def sample_segments_def ends_with_def flip: length_greater_0_conv)
  from auto_cleanup_always_fails [of "sample_settings\<lparr>auto_cleanup_wal := True\<rparr>" one_span sample_segments "{#}"
      "fresh_world sample_segments" "(0, 0)", OF sample_fresh_accounted one_span_unique _ _ fresh_lock_idle _ this]
  show ?thesis using one_span_not_fatal sample_segments_short
    by (auto simp: sample_settings_def fresh_world_def) (auto simp: sample_segments_def)
qed

section \<open>A segment marked before its rows are committed\<close>

lemma layout_last:
  "ps \<noteq> [] \<Longrightarrow> layout k ps \<noteq> [] \<and> rec_end (last (layout k ps)) = k + length (encode_records ps)"
proof (induction ps arbitrary: k)
  case (Cons p ps)
  show ?case
  proof (cases "ps = []")
    case False
    with Cons.IH [of "k + record_header_size + length p"] show ?thesis
      by (simp add: record_header_size_def)
  qed (simp add: record_header_size_def)
qed simp

lemma read_to_end:
  assumes "wal_records_from f content 0 limit = (rs, None)"
  shows "(if rs = [] then 0 else rec_end (last rs)) = length content"
proof -
  from assms obtain ps rest where *: "content = encode_records ps @ rest"
    "\<not> (\<exists>p. read_record limit rest = Frame_Ok p)" "rs = layout 0 ps"
    "None = stop_at f limit (0 + length (encode_records ps)) rest"
    unfolding wal_records_from_def drop_0 by (rule wal_loop_elim)
  then have "rest = []" using stop_at_None_iff by metis
  with * layout_last [of ps 0] show ?thesis by (cases "ps = []") auto
qed

text \<open>Records whose rows find room in the batch.\<close>

lemma process_records_room:
  assumes "list_all (parses ev f) rs"
    and "int (length (batch_rows b @ concat (map (record_rows ev f) rs))) < materialize_batch_size st"
  shows "\<exists>b'. process_records st ev f rs None (w, b) = (Inr (), (w, b')) \<and>
    batch_rows b' = batch_rows b @ concat (map (record_rows ev f) rs) \<and>
    map_of (batch_offsets b') f = (if rs = [] then map_of (batch_offsets b) f else Some (rec_end (last rs)))"
  using assms
proof (induction rs arbitrary: b)
  case Nil
  then show ?case by (simp add: ret_def)
next
  case (Cons r rs)
  obtain rows where rows: "rows_of ev (rec_payload r) f (rec_start r) = Inr rows"
    using Cons.prems(1) by (auto simp: parses_def split: sum.splits)
  then have rr: "record_rows ev f r = rows" by (simp add: record_rows_def)
  let ?b = "add_record f r rows b"
  have step: "process_record st ev f r (w, b) = (Inr (), (w, ?b))"
    using Cons.prems(2) by (simp add: process_record_cases rows rr)
  have b: "batch_rows ?b = batch_rows b @ rows" "map_of (batch_offsets ?b) f = Some (rec_end r)"
    by (simp_all add: add_record_def map_of_put)
  obtain b' where "process_records st ev f rs None (w, ?b) = (Inr (), (w, b'))"
    "batch_rows b' = batch_rows ?b @ concat (map (record_rows ev f) rs)"
    "map_of (batch_offsets b') f = (if rs = [] then map_of (batch_offsets ?b) f else Some (rec_end (last rs)))"
    using Cons.IH [of ?b] Cons.prems b rr by (auto simp: add.assoc)
  then show ?case by (intro exI [of _ b']) (simp add: bindE_def step b rr)
qed

text \<open>
  C31: A sealed segment is marked before its rows are committed.  If a sealed segment that was
  not read before is read to its end and its rows find room in the current batch, the database
  says, before anything of it is flushed, that the segment is processed up to its size; its
  rows are in memory only.  A later failure or crash before the flush loses them: every run
  that starts from this database skips the segment, and the cleanup may delete it.
\<close>

theorem sealed_before_flush:
  assumes new: "map_of (materialized_wal_offsets (control w)) f = None" "map_of (batch_offsets b) f = None"
      "map_of (materialized_wal_offsets db0) f = None" "f \<notin> quarantined db0"
    and sealed: "Some f \<noteq> active"
    and clean: "wal_records_from f (segment_bytes w f) 0 (max_wal_record_bytes st) = (rs, None)"
      "list_all (parses ev f) rs"
    and room: "int (length (batch_rows b @ concat (map (record_rows ev f) rs))) < materialize_batch_size st"
  shows "\<exists>w' b'. process_file st ev db0 active f (w, b) = (Inr (), (w', b')) \<and>
    visible w' = visible w \<and> batch_rows b' = batch_rows b @ rows_after st ev f (segment_bytes w f) 0 \<and>
    skip_file (control w') f (offset_of (control w') f) (length (segment_bytes w f)) \<and>
    f \<in> fully_processed_files (control w')"
proof -
  let ?n = "length (segment_bytes w f)"
  obtain b' where b': "process_records st ev f rs None (w, b) = (Inr (), (w, b'))"
    "batch_rows b' = batch_rows b @ concat (map (record_rows ev f) rs)"
    "map_of (batch_offsets b') f = (if rs = [] then None else Some (rec_end (last rs)))"
    using process_records_room [OF clean(2) room, of w] new(2) by auto
  have cur: "current_offset f 0 b' = ?n"
    using read_to_end [OF clean(1)] b'(3) by (auto simp: current_offset_def split: if_splits)
  define w' where "w' = w\<lparr>control := (control w)\<lparr>materialized_wal_offsets :=
      tbl_upsert f \<lparr>max_offset = ?n, is_fully_processed = True\<rparr>
        (\<lambda>old. old\<lparr>is_fully_processed := True\<rparr>) (materialized_wal_offsets (control w))\<rparr>\<rparr>"
  have mark: "mark_sealed active f ?n 0 (w, b') = (Inr (), (w', b'))"
    using sealed cur by (simp add: mark_sealed_def updE_def w'_def)
  have off0: "offset_of db0 f = 0" using new(3) by (simp add: offset_of_def)
  have "f \<notin> fully_processed_files db0"
    using new(3) by (auto simp: fully_processed_files_def map_of_eq_None_iff rev_image_eqI)
  then have "\<not> skip_file db0 f 0 ?n" using new(4) by (simp add: skip_file_def quarantined_def)
  then have "process_file st ev db0 active f (w, b) = (Inr (), (w', b'))"
    using off0 clean(1) b'(1) mark by (simp add: process_file_def try_except_def bindE_def)
  moreover have look: "map_of (materialized_wal_offsets (control w')) f = Some \<lparr>max_offset = ?n, is_fully_processed = True\<rparr>"
    using new(1) by (simp add: w'_def map_of_upsert)
  have "f \<in> fully_processed_files (control w')"
    using map_of_SomeD [OF look] by (force simp: fully_processed_files_def)
  moreover have "offset_of (control w') f = ?n" using look by (simp add: offset_of_def)
  moreover have "visible w' = visible w"
    by (simp add: visible_def visible_rows_def get_committed_parquet_files_def committed_filenames_def w'_def)
  moreover have "rows_after st ev f (segment_bytes w f) 0 = concat (map (record_rows ev f) rs)"
    using clean by (simp add: rows_after_def good_records_def list_all_iff takeWhile_eq_all_conv [THEN iffD2])
  ultimately show ?thesis using b'(2) by (auto simp: skip_file_def)
qed

theorem sealed_before_flush_witness:
  "\<exists>w' b'. process_file sample_settings one_span empty_store (Some ''wal-2-1.wal'') ''wal-1-0.wal''
       (fresh_world sample_segments, empty_batch) = (Inr (), (w', b')) \<and>
     visible w' = visible (fresh_world sample_segments) \<and> ''wal-1-0.wal'' \<in> fully_processed_files (control w')"
proof -
  let ?w = "fresh_world sample_segments"
  have seg: "segment_bytes ?w ''wal-1-0.wal'' = encode_records [[1], [2]]"
    by (simp add: segment_bytes_def fresh_world_def sample_segments_def)
  have clean: "wal_records_from ''wal-1-0.wal'' (segment_bytes ?w ''wal-1-0.wal'') 0 (max_wal_record_bytes sample_settings) =
      ([(0, 9, [1]), (9, 18, [2])], None)"
    unfolding seg by code_simp
  have rows: "length (record_rows one_span ''wal-1-0.wal'' (k, l, [x])) = 1" for k l x
    by (simp add: record_rows_def rows_of_def one_span_def sample_env_def length_request_rows span_count_def sample_request_def)
  have good: "list_all (parses one_span ''wal-1-0.wal'') [(0, 9, [1]), (9, 18, [2])]"
    by (simp add: parses_def rows_of_def one_span_def sample_env_def)
  have room: "int (length (batch_rows empty_batch @ concat (map (record_rows one_span ''wal-1-0.wal'')
      [(0, 9, [1]), (9, 18, [2])]))) < materialize_batch_size sample_settings"
    by (simp add: rows empty_batch_def sample_settings_def)
  have new: "map_of (materialized_wal_offsets (control ?w)) f = None" "map_of (batch_offsets empty_batch) f = None"
    "map_of (materialized_wal_offsets empty_store) f = None" "f \<notin> quarantined empty_store" for f
    by (simp_all add: fresh_world_def empty_store_def quarantined_def empty_batch_def)
  have "Some ''wal-1-0.wal'' \<noteq> Some ''wal-2-1.wal''" by simp
  note sealed_before_flush [OF new this clean good room]
  then show ?thesis by (elim exE conjE) (intro exI conjI)
qed

section \<open>A segment that was read to its end while it was active\<close>

text \<open>A segment with bytes, all of them read, and no mark.\<close>

definition consumed :: "string \<Rightarrow> world \<Rightarrow> bool" where
  "consumed f w \<longleftrightarrow> segment_bytes w f \<noteq> [] \<and> length (segment_bytes w f) \<le> offset_of (control w) f \<and>
     map_option is_fully_processed (map_of (materialized_wal_offsets (control w)) f) = Some False \<and>
     distinct (keys (materialized_wal_offsets (control w)))"

text \<open>What a run over other segments keeps of it.\<close>

definition same_row :: "string \<Rightarrow> mstate \<Rightarrow> mstate \<Rightarrow> bool" where
  "same_row f = (\<lambda>(w, b) (w', b').
     (map_of (batch_offsets b) f = None \<longrightarrow> map_of (batch_offsets b') f = None \<and>
        map_of (materialized_wal_offsets (control w')) f = map_of (materialized_wal_offsets (control w)) f) \<and>
     (distinct (keys (materialized_wal_offsets (control w))) \<longrightarrow>
        distinct (keys (materialized_wal_offsets (control w')))) \<and>
     wal_dir w' = wal_dir w)"

lemma same_row_refl [simp]: "same_row f s s"
  by (simp add: same_row_def case_prod_unfold)

lemma same_row_trans [trans]: "same_row f s t \<Longrightarrow> same_row f t u \<Longrightarrow> same_row f s u"
  unfolding same_row_def case_prod_unfold by metis

lemma raise_offsets_other:
  "map_of offs f = None \<Longrightarrow> map_of (fold (\<lambda>(g, off). raise_offset g off) offs t) f = map_of t f"
  by (induction offs arbitrary: t) (auto simp: map_of_raise_offset split: if_splits)

lemma raise_offsets_distinct:
  "distinct (keys t) \<Longrightarrow> distinct (keys (fold (\<lambda>(g, off). raise_offset g off) offs t))"
  by (induction offs arbitrary: t) (auto simp: raise_offset_def)

lemma flush_current_row: "flush_current ev s = (r, s') \<Longrightarrow> same_row f s s'"
  by (cases s)
    (auto simp: flush_current_def flush_batch_def same_row_def Let_def draw_tick_def run_steps_def flush_steps_def
      write_parquet_def replace_parquet_def commit_batch_def raise_offsets_other raise_offsets_distinct
      split: if_splits option.splits prod.splits sum.splits)

lemma process_record_row:
  "g \<noteq> f \<Longrightarrow> process_record st ev g r (w, b) = (res, s') \<Longrightarrow> same_row f (w, b) s'"
proof -
  assume g: "g \<noteq> f" and run: "process_record st ev g r (w, b) = (res, s')"
  have add: "same_row f (w, b) (w, add_record g r rows b)" for rows
    using g by (simp add: same_row_def add_record_def map_of_put)
  from run show ?thesis
    by (auto simp: process_record_cases add split: sum.splits if_splits
        intro: same_row_trans [OF add flush_current_row])
qed

lemma process_records_row:
  "g \<noteq> f \<Longrightarrow> process_records st ev g rs stop (w, b) = (res, s') \<Longrightarrow> same_row f (w, b) s'"
proof (induction rs arbitrary: w b)
  case Nil
  then show ?case by (auto simp: ret_def throw_def split: option.splits)
next
  case (Cons r rs)
  obtain q w1 b1 where q: "process_record st ev g r (w, b) = (q, (w1, b1))" by (metis prod.collapse)
  note one = process_record_row [OF Cons.prems(1) q]
  show ?case
  proof (cases q)
    case (Inr x)
    then have "process_records st ev g rs stop (w1, b1) = (res, s')"
      using Cons.prems(2) q by (simp add: bindE_def)
    from same_row_trans [OF one Cons.IH [OF Cons.prems(1) this]] show ?thesis .
  qed (use Cons.prems(2) q one in \<open>simp add: bindE_def\<close>)
qed

lemma mark_sealed_row: "g \<noteq> f \<Longrightarrow> mark_sealed active g n k s = (r, s') \<Longrightarrow> same_row f s s'"
  by (cases s) (auto simp: mark_sealed_def updE_def same_row_def map_of_upsert split: if_splits)

lemma handle_corruption_row: "handle_corruption ev g n k e s = (r, s') \<Longrightarrow> same_row f s s'"
proof -
  assume run: "handle_corruption ev g n k e s = (r, s')"
  obtain w b where s: "s = (w, b)" by fastforce
  obtain q w1 b1 where q: "(if batch_rows b \<noteq> [] then flush_current ev else ret ()) (w, b) = (q, (w1, b1))"
    by (metis prod.collapse)
  then have one: "same_row f (w, b) (w1, b1)"
    by (auto simp: ret_def split: if_splits intro: flush_current_row)
  have "same_row f (w1, b1) s' \<or> s' = (w1, b1)"
    using run q by (auto simp: handle_corruption_def s bindE_def updE_def same_row_def record_corruption_def
        split: sum.splits)
  with one show ?thesis unfolding s by (auto intro: same_row_trans)
qed

lemma process_file_row:
  assumes "g \<noteq> f \<or> skip_file db0 f (offset_of db0 f) (length (segment_bytes w f))"
    and run: "process_file st ev db0 active g (w, b) = (res, s')"
  shows "same_row f (w, b) s'"
proof (cases "skip_file db0 g (offset_of db0 g) (length (segment_bytes w g))")
  case True
  with run show ?thesis by (simp add: process_file_def)
next
  case False
  with assms(1) have g: "g \<noteq> f" by auto
  obtain rs stop where recs: "wal_records_from g (segment_bytes w g) (offset_of db0 g) (max_wal_record_bytes st) = (rs, stop)"
    by fastforce
  obtain q w1 b1 where q: "process_records st ev g rs stop (w, b) = (q, (w1, b1))" by (metis prod.collapse)
  note one = process_records_row [OF g q]
  show ?thesis
  proof (cases q)
    case (Inl e)
    then show ?thesis using run False recs q one
      by (auto simp: process_file_def try_except_def bindE_def split: if_splits
          intro: same_row_trans handle_corruption_row)
  next
    case (Inr x)
    obtain m s2 where m: "mark_sealed active g (length (segment_bytes w g)) (offset_of db0 g) (w1, b1) = (m, s2)"
      by (metis prod.collapse)
    then have "m = Inr ()" by (simp add: mark_sealed_def updE_def split: prod.splits)
    then have "s' = s2" using run False recs q Inr m by (simp add: process_file_def try_except_def bindE_def)
    with one mark_sealed_row [OF g m] show ?thesis by (auto intro: same_row_trans)
  qed
qed

lemma process_files_row:
  assumes "skip_file db0 f (offset_of db0 f) (length (segment_bytes w f))"
    and "process_files st ev db0 active fs (w, b) = (res, s')"
  shows "same_row f (w, b) s'"
  using assms
proof (induction fs arbitrary: w b)
  case Nil
  then show ?case by (simp add: ret_def)
next
  case (Cons g fs)
  obtain q w1 b1 where q: "process_file st ev db0 active g (w, b) = (q, (w1, b1))" by (metis prod.collapse)
  have one: "same_row f (w, b) (w1, b1)" using process_file_row [OF _ q] Cons.prems(1) by blast
  then have "segment_bytes w1 f = segment_bytes w f" by (simp add: same_row_def segment_bytes_def)
  with one Cons q show ?case
    by (cases q) (auto simp: bindE_def intro: same_row_trans)
qed

lemma materialize_run_row:
  assumes "skip_file (control w) f (offset_of (control w) f) (length (segment_bytes w f))"
    and "materialize_run st ev w = (res, s')"
  shows "same_row f (w, empty_batch) s'"
proof -
  let ?fs = "sorted_wal_files (keys (wal_dir w))"
  obtain q w1 b1 where q: "process_files st ev (control w) (active_wal_filename ?fs) ?fs (w, empty_batch) = (q, (w1, b1))"
    by (metis prod.collapse)
  note one = process_files_row [OF assms(1) q]
  show ?thesis
  proof (cases q)
    case (Inl e)
    with assms(2) q one show ?thesis by (simp add: materialize_run_def Let_def bindE_def)
  next
    case (Inr x)
    then have "s' = (w1, b1) \<or> flush_current ev (w1, b1) = (res, s')"
      using assms(2) q by (auto simp: materialize_run_def Let_def bindE_def split: if_splits)
    with one show ?thesis by (auto intro: same_row_trans flush_current_row)
  qed
qed

lemma consumed_skipped: "consumed f w \<Longrightarrow> skip_file (control w) f (offset_of (control w) f) (length (segment_bytes w f))"
  by (simp add: consumed_def skip_file_def)

lemma consumed_same_row:
  assumes "consumed f w" "same_row f (w, empty_batch) (w', b')"
  shows "consumed f w'"
proof -
  have "map_of (materialized_wal_offsets (control w')) f = map_of (materialized_wal_offsets (control w)) f"
    "distinct (keys (materialized_wal_offsets (control w')))" "wal_dir w' = wal_dir w"
    using assms by (simp_all add: same_row_def consumed_def empty_batch_def)
  with assms(1) show ?thesis
    by (simp add: consumed_def segment_bytes_def offset_of_def del: map_of_eq_Some_iff)
qed

lemma consumed_lock [simp]: "consumed f (w\<lparr>lifecycle_lock := l\<rparr>) = consumed f w"
  by (simp add: consumed_def segment_bytes_def)

lemma consumed_unmarked: "consumed f w \<Longrightarrow> f \<notin> fully_processed_files (control w)"
  by (auto simp: consumed_def fully_processed_files_def)

lemma cleanup_consumed:
  assumes "consumed f w" "cleanup_materialized_wal_files ev a w = (r, w')"
  shows "consumed f w' \<and> (\<forall>ds. r = Inr ds \<longrightarrow> f \<notin> set ds)"
proof -
  have body: "consumed f w1 \<and> (\<forall>ds. r1 = Inr ds \<longrightarrow> f \<notin> set ds)"
    if "wal_cleanup_body ev (w\<lparr>lifecycle_lock := l\<rparr>) = (r1, w1)" for l r1 w1
  proof -
    note res = wal_cleanup_body_result [OF that]
    have not: "f \<notin> set (deletable ev (w\<lparr>lifecycle_lock := l\<rparr>))"
      using consumed_unmarked [OF assms(1)] by (simp add: deletable_def)
    then have "segment_bytes w1 f = segment_bytes w f"
      using res map_of_filter_keys [of "\<lambda>g. g \<notin> set (deletable ev (w\<lparr>lifecycle_lock := l\<rparr>))" "wal_dir w" f]
      by (simp add: segment_bytes_def)
    with res not assms(1) show ?thesis by (auto simp: consumed_def offset_of_def)
  qed
  show ?thesis
    using assms(2) body assms(1)
    by (auto simp: cleanup_materialized_wal_files_def with_lifecycle_lock_def split: prod.splits sum.splits)
qed

text \<open>
  C32: A segment read while active is never released.  A segment that was read to its end while
  it was the newest is skipped by every later run before the statement that marks sealed
  segments; no run, whatever it returns, marks it, and no cleanup deletes it, for as long as
  nothing is appended to it.
\<close>

theorem consumed_segment_stays:
  assumes consumed: "consumed f w"
    and step: "materialize st ev a w = (res, w') \<or> cleanup_materialized_wal_files ev a w = (deleted, w')"
  shows "consumed f w' \<and> f \<notin> fully_processed_files (control w') \<and> segment_bytes w' f \<noteq> []"
proof -
  have body: "consumed f w1" if "materialize_body st ev a (w\<lparr>lifecycle_lock := l\<rparr>) = (r, w1)" for l r w1
  proof -
    let ?u = "w\<lparr>lifecycle_lock := l\<rparr>"
    obtain n w0 where orph: "cleanup_orphaned_parquet_files ev (manifest_error ev) ?u = (n, w0)" by fastforce
    then have w0: "consumed f w0"
      using cleanup_orphaned_same [OF orph] consumed
      by (simp add: consumed_def segment_bytes_def del: map_of_eq_Some_iff)
    obtain q w2 b where q: "materialize_run st ev w0 = (q, (w2, b))" by (metis prod.collapse)
    have w2: "consumed f w2"
      using w0 materialize_run_row [OF consumed_skipped [OF w0] q] by (rule consumed_same_row)
    obtain d w3 where d: "cleanup_materialized_wal_files ev a w2 = (d, w3)" by fastforce
    have "w1 \<in> {w0, w2, w3}"
      using that orph q d by (auto simp: materialize_body_run split: if_splits sum.splits)
    with w0 w2 cleanup_consumed [OF w2 d] show ?thesis by auto
  qed
  have "consumed f w'"
    using step
  proof
    assume "materialize st ev a w = (res, w')"
    then show ?thesis unfolding materialize_def
      by (rule with_lock_rule) (use consumed body in auto)
  next
    assume "cleanup_materialized_wal_files ev a w = (deleted, w')"
    with cleanup_consumed [OF consumed] show ?thesis by blast
  qed
  then show ?thesis using consumed_unmarked by (auto simp: consumed_def)
qed

definition consumed_world :: world where
  "consumed_world = (fresh_world sample_segments)\<lparr>control := empty_store\<lparr>materialized_wal_offsets :=
     [(''wal-1-0.wal'', \<lparr>max_offset = 18, is_fully_processed = False\<rparr>)]\<rparr>\<rparr>"

theorem consumed_segment_stays_witness:
  "''wal-1-0.wal'' \<notin> fully_processed_files
     (control (snd (materialize sample_settings one_span (0, 0) consumed_world)))"
proof -
  have "consumed ''wal-1-0.wal'' consumed_world"
    by (simp add: consumed_def consumed_world_def fresh_world_def sample_segments_def segment_bytes_def offset_of_def
        record_header_size_def flip: length_greater_0_conv)
  from consumed_segment_stays [OF this, of sample_settings one_span "(0, 0)"
      "fst (materialize sample_settings one_span (0, 0) consumed_world)"]
  show ?thesis by (metis prod.collapse)
qed

end
