(* ===== verification/Run_Points.thy ===== *)
theory Run_Points
  imports Retention
begin

text \<open>
  Where a materialisation can be killed: the states its loops pass through between two records
  or segments, and within a flush.  At each of them the accounts of the specification hold, and
  no segment was marked that the run did not visit.
\<close>

definition active_segment :: "world \<Rightarrow> string option" where
  "active_segment w = active_wal_filename (sorted_wal_files (keys (wal_dir w)))"

section \<open>The marks of a run\<close>

text \<open>The segments that a run marks are among those it visits.\<close>

definition marked :: "(string, offset_row) table \<Rightarrow> string set" where
  "marked t = set (map fst (filter (\<lambda>(f, row). is_fully_processed row) t))"

lemma fully_processed_marked: "fully_processed_files db = marked (materialized_wal_offsets db)"
  by (simp add: fully_processed_files_def marked_def)

lemma marked_iff: "f \<in> marked t \<longleftrightarrow> (\<exists>row. (f, row) \<in> set t \<and> is_fully_processed row)"
  by (force simp: marked_def)

lemma marked_raise [simp]: "marked (raise_offset g off t) = marked t"
proof -
  have "marked (tbl_update g (\<lambda>old. old\<lparr>max_offset := max (max_offset old) off\<rparr>) t) = marked t"
    by (induction t) (auto simp: marked_def tbl_update_def)
  moreover have "marked (t @ [(g, \<lparr>max_offset = off, is_fully_processed = False\<rparr>)]) = marked t"
    by (simp add: marked_def)
  ultimately show ?thesis by (simp add: raise_offset_def tbl_upsert_def)
qed

lemma marked_raises [simp]: "marked (fold (\<lambda>(g, off). raise_offset g off) offs t) = marked t"
  by (induction offs arbitrary: t) auto

definition marks :: "string set \<Rightarrow> mstate \<Rightarrow> mstate \<Rightarrow> bool" where
  "marks F = (\<lambda>(w, b) (w', b'). fully_processed_files (control w') \<subseteq> fully_processed_files (control w) \<union> F)"

lemma marks_refl [simp]: "marks F s s"
  by (simp add: marks_def case_prod_unfold)

lemma marks_trans: "marks F s t \<Longrightarrow> marks G t u \<Longrightarrow> marks (F \<union> G) s u"
  unfolding marks_def case_prod_unfold by blast

lemma marks_mono: "marks F s t \<Longrightarrow> F \<subseteq> G \<Longrightarrow> marks G s t"
  unfolding marks_def case_prod_unfold by blast

lemma flush_current_marks: "flush_current ev s = (r, s') \<Longrightarrow> marks {} s s'"
  by (cases s)
    (auto simp: flush_current_def flush_batch_def marks_def fully_processed_marked Let_def draw_tick_def run_steps_def
      flush_steps_def write_parquet_def replace_parquet_def commit_batch_def
      split: if_splits option.splits prod.splits sum.splits)

lemma process_record_marks: "process_record st ev g r (w, b) = (res, s') \<Longrightarrow> marks {} (w, b) s'"
proof -
  assume run: "process_record st ev g r (w, b) = (res, s')"
  have same: "marks {} (w, b) t = marks {} (w, add_record g r rows b) t" for rows t
    by (simp add: marks_def case_prod_unfold)
  from run consider "s' = (w, b)" | rows where "s' = (w, add_record g r rows b)"
    | rows where "flush_current ev (w, add_record g r rows b) = (res, s')"
    by (auto simp: process_record_cases split: sum.splits if_splits)
  then show ?thesis
  proof cases
    case 2
    then show ?thesis by (simp add: marks_def)
  next
    case 3
    from flush_current_marks [OF this] show ?thesis using same [where rows = rows] by blast
  qed simp
qed

lemma process_records_marks: "process_records st ev g rs stop (w, b) = (res, s') \<Longrightarrow> marks {} (w, b) s'"
proof (induction rs arbitrary: w b)
  case Nil
  then show ?case by (auto simp: ret_def throw_def split: option.splits)
next
  case (Cons r rs)
  obtain q w1 b1 where q: "process_record st ev g r (w, b) = (q, (w1, b1))" by (metis prod.collapse)
  note one = process_record_marks [OF q]
  show ?case
  proof (cases q)
    case (Inr x)
    then have "process_records st ev g rs stop (w1, b1) = (res, s')"
      using Cons.prems q by (simp add: bindE_def)
    from marks_trans [OF one Cons.IH [OF this]] show ?thesis by simp
  qed (use Cons.prems q one in \<open>simp add: bindE_def\<close>)
qed

lemma mark_sealed_marks:
  "mark_sealed active g n k s = (r, s') \<Longrightarrow> marks (if Some g \<noteq> active then {g} else {}) s s'"
proof -
  assume run: "mark_sealed active g n k s = (r, s')"
  have one: "marked (tbl_upsert g row (\<lambda>old. old\<lparr>is_fully_processed := True\<rparr>) t) \<subseteq> insert g (marked t)" for row t
    by (auto simp: marked_iff tbl_upsert_def tbl_update_def split: if_splits)
  from run show ?thesis
    by (cases s) (auto simp: mark_sealed_def updE_def marks_def fully_processed_marked split: if_splits
        dest!: subsetD [OF one])
qed

lemma handle_corruption_marks: "handle_corruption ev g n k e s = (r, s') \<Longrightarrow> marks {} s s'"
proof -
  assume run: "handle_corruption ev g n k e s = (r, s')"
  obtain w b where s: "s = (w, b)" by fastforce
  obtain q w1 b1 where q: "(if batch_rows b \<noteq> [] then flush_current ev else ret ()) (w, b) = (q, (w1, b1))"
    by (metis prod.collapse)
  then have one: "marks {} (w, b) (w1, b1)"
    by (auto simp: ret_def split: if_splits dest: flush_current_marks)
  have "marks {} (w1, b1) s'"
    using run q by (auto simp: handle_corruption_def s bindE_def updE_def marks_def fully_processed_marked
        record_corruption_def split: sum.splits)
  with marks_trans [OF one this] show ?thesis unfolding s by simp
qed

definition may_mark :: "control_store \<Rightarrow> string option \<Rightarrow> string \<Rightarrow> string set" where
  "may_mark db0 active f = (if Some f \<noteq> active \<and> f \<notin> quarantined db0 then {f} else {})"

lemma process_file_marks:
  assumes run: "process_file st ev db0 active g (w, b) = (res, s')"
  shows "marks (may_mark db0 active g) (w, b) s'"
proof (cases "skip_file db0 g (offset_of db0 g) (length (segment_bytes w g))")
  case True
  with run show ?thesis by (simp add: process_file_def)
next
  case False
  then have nq: "g \<notin> quarantined db0" by (simp add: skip_file_def quarantined_def)
  obtain rs stop where recs: "wal_records_from g (segment_bytes w g) (offset_of db0 g) (max_wal_record_bytes st) = (rs, stop)"
    by fastforce
  obtain q w1 b1 where q: "process_records st ev g rs stop (w, b) = (q, (w1, b1))" by (metis prod.collapse)
  note one = process_records_marks [OF q]
  show ?thesis
  proof (cases q)
    case (Inl e)
    then have "s' = (w1, b1) \<or> (\<exists>r. handle_corruption ev g (length (segment_bytes w g)) (offset_of db0 g) e (w1, b1) = (r, s'))"
      using run False recs q by (auto simp: process_file_def try_except_def bindE_def split: if_splits)
    then have "marks {} (w1, b1) s'" by (auto dest: handle_corruption_marks)
    from marks_trans [OF one this] show ?thesis by (rule marks_mono) simp
  next
    case (Inr x)
    obtain m s2 where m: "mark_sealed active g (length (segment_bytes w g)) (offset_of db0 g) (w1, b1) = (m, s2)"
      by (metis prod.collapse)
    then have "m = Inr ()" by (simp add: mark_sealed_def updE_def split: prod.splits)
    then have "s' = s2" using run False recs q Inr m by (simp add: process_file_def try_except_def bindE_def)
    with marks_trans [OF one mark_sealed_marks [OF m]] nq show ?thesis by (simp add: may_mark_def)
  qed
qed

lemma process_files_marks:
  "process_files st ev db0 active fs (w, b) = (res, s') \<Longrightarrow> marks (\<Union> (may_mark db0 active ` set fs)) (w, b) s'"
proof (induction fs arbitrary: w b)
  case Nil
  then show ?case by (simp add: ret_def)
next
  case (Cons g fs)
  obtain q w1 b1 where q: "process_file st ev db0 active g (w, b) = (q, (w1, b1))" by (metis prod.collapse)
  note one = process_file_marks [OF q]
  show ?case
  proof (cases q)
    case (Inl e)
    with Cons.prems q have "s' = (w1, b1)" by (simp add: bindE_def)
    with one show ?thesis by (auto intro: marks_mono)
  next
    case (Inr x)
    then have "process_files st ev db0 active fs (w1, b1) = (res, s')" using Cons.prems q by (simp add: bindE_def)
    from marks_trans [OF one Cons.IH [OF this]] show ?thesis by simp
  qed
qed

lemma materialize_marks:
  assumes idle: "lock_idle a (lifecycle_lock w)" and run: "materialize st ev a w = (res, w')"
  shows "fully_processed_files (control w') \<subseteq> fully_processed_files (control w) \<union>
    {f \<in> set (sorted_wal_files (keys (wal_dir w))). active_segment w \<noteq> Some f \<and> f \<notin> quarantined (control w)}"
proof -
  let ?u = "w\<lparr>lifecycle_lock := lock_taken a (lifecycle_lock w)\<rparr>"
  obtain n0 w0 where orph: "cleanup_orphaned_parquet_files ev (manifest_error ev) ?u = (n0, w0)" by fastforce
  note same = cleanup_orphaned_same [OF orph]
  obtain q w2 b where q: "materialize_run st ev w0 = (q, (w2, b))" by (metis prod.collapse)
  obtain d w3 where d: "cleanup_materialized_wal_files ev a w2 = (d, w3)" by fastforce
  let ?files = "sorted_wal_files (keys (wal_dir w0))"
  have "marks (\<Union> (may_mark (control w0) (active_wal_filename ?files) ` set ?files)) (w0, empty_batch) (w2, b)"
  proof -
    obtain p w1 b1 where p: "process_files st ev (control w0) (active_wal_filename ?files) ?files (w0, empty_batch) = (p, (w1, b1))"
      by (metis prod.collapse)
    have "(w2, b) = (w1, b1) \<or> flush_current ev (w1, b1) = (q, (w2, b))"
      using q p by (cases p) (auto simp: materialize_run_def Let_def bindE_def split: if_splits)
    then have "marks {} (w1, b1) (w2, b)" by (auto dest: flush_current_marks)
    from marks_trans [OF process_files_marks [OF p] this] show ?thesis by simp
  qed
  then have two: "fully_processed_files (control w2) \<subseteq> fully_processed_files (control w) \<union>
      {f \<in> set (sorted_wal_files (keys (wal_dir w))). active_segment w \<noteq> Some f \<and> f \<notin> quarantined (control w)}"
    using same by (auto simp: marks_def may_mark_def active_segment_def split: if_splits)
  have three: "fully_processed_files (control w3) = fully_processed_files (control w2)"
    using d by (auto simp: cleanup_materialized_wal_files_def with_lifecycle_lock_def fully_processed_marked
        split: prod.splits sum.splits dest!: wal_cleanup_body_result)
  obtain r1 w1 where body: "materialize_body st ev a ?u = (r1, w1)" by fastforce
  then have "w1 \<in> {w0, w2, w3}"
    using orph q d by (auto simp: materialize_body_run split: if_splits sum.splits)
  moreover have "control w' = control w1"
    using run body idle by (auto simp: materialize_def with_lifecycle_lock_def enter_lock_idle)
  ultimately show ?thesis using two three same by auto
qed

section \<open>The points of a run\<close>

text \<open>
  What the materialiser has done when it dies: some segments of its list; or these and some
  records of the next one; or these and one more record, whose rows are in the batch.
\<close>

inductive run_point :: "settings \<Rightarrow> env \<Rightarrow> world \<Rightarrow> mstate \<Rightarrow> bool" for st ev w where
  point_files: "files = sorted_wal_files (keys (wal_dir w)) \<Longrightarrow>
    process_files st ev (control w) (active_wal_filename files) (take j files) (w, empty_batch) = (r, s) \<Longrightarrow>
    run_point st ev w s"
| point_records: "files = sorted_wal_files (keys (wal_dir w)) \<Longrightarrow>
    process_files st ev (control w) (active_wal_filename files) (take j files) (w, empty_batch) = (Inr (), s1) \<Longrightarrow>
    j < length files \<Longrightarrow> f = files ! j \<Longrightarrow>
    wal_records_from f (segment_bytes w f) (offset_of (control w) f) (max_wal_record_bytes st) = (rs, stop) \<Longrightarrow>
    \<not> skip_file (control w) f (offset_of (control w) f) (length (segment_bytes w f)) \<Longrightarrow>
    process_records st ev f (take i rs) None s1 = (r, s) \<Longrightarrow>
    run_point st ev w s"
| point_batch: "files = sorted_wal_files (keys (wal_dir w)) \<Longrightarrow>
    process_files st ev (control w) (active_wal_filename files) (take j files) (w, empty_batch) = (Inr (), s1) \<Longrightarrow>
    j < length files \<Longrightarrow> f = files ! j \<Longrightarrow>
    wal_records_from f (segment_bytes w f) (offset_of (control w) f) (max_wal_record_bytes st) = (rs, stop) \<Longrightarrow>
    \<not> skip_file (control w) f (offset_of (control w) f) (length (segment_bytes w f)) \<Longrightarrow>
    process_records st ev f (take i rs) None s1 = (Inr (), (w2, b2)) \<Longrightarrow>
    i < length rs \<Longrightarrow> rows_of ev (rec_payload (rs ! i)) f (rec_start (rs ! i)) = Inr rows \<Longrightarrow>
    run_point st ev w (w2, add_record f (rs ! i) rows b2)"

text \<open>The world that a kill after some steps of a flush of the batch leaves.\<close>

definition cut_flush :: "env \<Rightarrow> nat \<Rightarrow> span_row list \<Rightarrow> mstate \<Rightarrow> world" where
  "cut_flush ev k partial = (\<lambda>(w, b). run_steps (take k (flush_steps ev (ticks w) partial (batch_rows b)
     (map (\<lambda>(f, off, _). (f, off, '''')) (batch_entries b)) (batch_offsets b))) (draw_tick w))"

lemma records_prefix_inv:
  assumes "run_inv st ev log lost before (w, b)" and "unique_names ev"
    and "0 < materialize_batch_size st" and "f \<in> set (keys log)"
    and "wal_records_from f (log_bytes log f) (position (w, b) f) (max_wal_record_bytes st) = (rs, stop)"
    and "process_records st ev f (take i rs) None (w, b) = (res, s')"
  shows "run_inv st ev log lost before s' \<and> keeps_rest (w, b) s' \<and>
    (\<forall>u. res = Inr u \<longrightarrow>
       wal_records_from f (log_bytes log f) (position s' f) (max_wal_record_bytes st) = (drop i rs, stop))"
  using assms
proof (induction i arbitrary: rs w b)
  case 0
  then show ?case by (simp add: ret_def)
next
  case (Suc i)
  note inv = Suc.prems(1) and names = Suc.prems(2) and size = Suc.prems(3) and f = Suc.prems(4)
  show ?case
  proof (cases rs)
    case Nil
    with Suc.prems show ?thesis by (simp add: ret_def)
  next
    case (Cons r rs')
    have recs: "fst (wal_records_from f (log_bytes log f) (position (w, b) f) (max_wal_record_bytes st)) = r # rs'"
      using Suc.prems(5) Cons by simp
    obtain q w1 b1 where q: "process_record st ev f r (w, b) = (q, (w1, b1))" by (metis prod.collapse)
    note one = process_record_inv [OF inv names size f recs q]
    show ?thesis
    proof (cases q)
      case (Inl e)
      with q Suc.prems(6) Cons have "res = Inl e" "s' = (w1, b1)" by (auto simp: bindE_def)
      with one show ?thesis by simp
    next
      case (Inr x)
      then have run1: "process_records st ev f (take i rs') None (w1, b1) = (res, s')"
        using q Suc.prems(6) Cons by (simp add: bindE_def)
      from one Inr have one': "run_inv st ev log lost before (w1, b1)" "keeps_rest (w, b) (w1, b1)"
        "position (w1, b1) f = rec_end r" by auto
      have "wal_records_from f (log_bytes log f) (position (w1, b1) f) (max_wal_record_bytes st) = (rs', stop)"
        using wal_records_step [of f "log_bytes log f" "position (w, b) f"] Suc.prems(5) Cons one'(3) by simp
      from Suc.IH [OF one'(1) names size f this run1] one' Cons show ?thesis
        by (auto intro: keeps_rest_trans)
    qed
  qed
qed

lemma some_files_inv:
  assumes acc: "accounted st ev log lost w" and names: "unique_names ev" and size: "0 < materialize_batch_size st"
    and dist: "distinct (keys (wal_dir w))" and files: "files = sorted_wal_files (keys (wal_dir w))"
    and run: "process_files st ev (control w) active (take j files) (w, empty_batch) = (r, s)"
  shows "run_inv st ev log lost (size (visible w)) s \<and> keeps_rest (w, empty_batch) s \<and>
    (\<forall>g. g \<notin> set (take j files) \<longrightarrow> position s g = offset_of (control w) g)"
proof -
  have sm: "small st (w, empty_batch)" using size by (simp add: small_def empty_batch_def)
  have d: "distinct (take j files)" using distinct_sorted_wal_files [OF dist] by (simp add: files)
  have sub: "set (take j files) \<subseteq> set (keys (wal_dir w))" using set_take_subset [of j files] by (auto simp: files)
  have offs: "\<forall>f \<in> set (take j files). map_of (batch_offsets empty_batch) f = None \<and>
      offset_of (control w) f = offset_of (control w) f" by (simp add: empty_batch_def)
  have "position (w, empty_batch) g = offset_of (control w) g" for g by (simp add: position_def empty_batch_def)
  with process_files_inv [OF accounted_run_inv [OF acc] names size sm d sub offs run] show ?thesis by simp
qed

lemma run_point_inv:
  assumes acc: "accounted st ev log lost w" and names: "unique_names ev" and size: "0 < materialize_batch_size st"
    and dist: "distinct (keys (wal_dir w))" and point: "run_point st ev w s"
  shows "run_inv st ev log lost (size (visible w)) s \<and> keeps_rest (w, empty_batch) s"
proof -
  note some = some_files_inv [OF acc names size dist]
  have records: "f \<in> set (keys log) \<and> run_inv st ev log lost (size (visible w)) s' \<and> keeps_rest (w, empty_batch) s' \<and>
      (\<forall>u. res = Inr u \<longrightarrow> wal_records_from f (log_bytes log f) (position s' f) (max_wal_record_bytes st) = (drop i rs, stop))"
    if files: "files = sorted_wal_files (keys (wal_dir w))"
      and run: "process_files st ev (control w) (active_wal_filename files) (take j files) (w, empty_batch) = (Inr (), s1)"
      and j: "j < length files" and f: "f = files ! j"
      and recs: "wal_records_from f (segment_bytes w f) (offset_of (control w) f) (max_wal_record_bytes st) = (rs, stop)"
      and more: "process_records st ev f (take i rs) None s1 = (res, s')"
    for files j s1 f rs stop i res s'
  proof -
    have dfs: "distinct files" using distinct_sorted_wal_files [OF dist] by (simp add: files)
    then have new: "f \<notin> set (take j files)" using j by (simp add: f in_set_conv_nth nth_eq_iff_index_eq)
    have "f \<in> set files" using j f by simp
    then have "f \<in> set (keys (wal_dir w))" by (simp add: files)
    with acc have c: "segment_bytes w f = log_bytes log f \<and> f \<in> set (keys log)"
      by (intro covers_bytes) (simp_all add: accounted_def)
    note one = some [OF files run]
    obtain w1 b1 where s1: "s1 = (w1, b1)" by fastforce
    have inv1: "run_inv st ev log lost (size (visible w)) (w1, b1)" using one s1 by simp
    have "wal_records_from f (log_bytes log f) (position (w1, b1) f) (max_wal_record_bytes st) = (rs, stop)"
      using one new recs c s1 by simp
    from records_prefix_inv [OF inv1 names size conjunct2 [OF c] this more [unfolded s1]] one c s1 show ?thesis
      by (auto intro: keeps_rest_trans)
  qed
  from point show ?thesis
  proof cases
    case (point_files files j r)
    from some [OF this] show ?thesis by simp
  next
    case (point_records files j s1 f rs stop i r)
    from records [OF point_records(1-5,7)] show ?thesis by simp
  next
    case (point_batch files j s1 f rs stop i w2 b2 rows)
    note one = records [OF point_batch(2-6,8)]
    have ok: "parses ev f (rs ! i)" using point_batch(10) by (simp add: parses_def)
    have "drop i rs = rs ! i # drop (Suc i) rs" using point_batch(9) by (rule Cons_nth_drop_Suc [symmetric])
    with one have "fst (wal_records_from f (log_bytes log f) (position (w2, b2) f) (max_wal_record_bytes st)) =
        rs ! i # drop (Suc i) rs" by simp
    then have "good_records st ev f (log_bytes log f) (position (w2, b2) f) = rs ! i # takeWhile (parses ev f) (drop (Suc i) rs)"
      using ok by (simp add: good_records_def)
    from add_record_inv [OF _ _ this point_batch(10)] one
    have "run_inv st ev log lost (size (visible w)) (w2, add_record f (rs ! i) rows b2)" by blast
    then show ?thesis using one point_batch(1) by (simp add: keeps_rest_def)
  qed
qed

lemma run_point_marks:
  assumes "run_point st ev w s"
  shows "fully_processed_files (control (fst s)) \<subseteq> fully_processed_files (control w) \<union>
    {f \<in> set (sorted_wal_files (keys (wal_dir w))). active_segment w \<noteq> Some f}"
proof -
  have some: "marks {f \<in> set files. active_segment w \<noteq> Some f} (w, empty_batch) t"
    if "files = sorted_wal_files (keys (wal_dir w))"
      "process_files st ev (control w) (active_wal_filename files) (take j files) (w, empty_batch) = (r, t)" for files j r t
  proof (rule marks_mono [OF process_files_marks [OF that(2)]])
    show "\<Union> (may_mark (control w) (active_wal_filename files) ` set (take j files)) \<subseteq> {f \<in> set files. active_segment w \<noteq> Some f}"
      using set_take_subset [of j files] by (auto simp: may_mark_def active_segment_def that(1) split: if_splits)
  qed
  have more: "marks F (w, empty_batch) (w1, b1) \<Longrightarrow> process_records st ev f rs None (w1, b1) = (res, t) \<Longrightarrow>
      marks F (w, empty_batch) t" for F f rs res t w1 b1
    using marks_trans [of F "(w, empty_batch)" "(w1, b1)" "{}" t] process_records_marks by fastforce
  from assms show ?thesis
  proof cases
    case (point_files files j r)
    from some [OF this] point_files(1) show ?thesis by (cases s) (auto simp: marks_def)
  next
    case (point_records files j s1 f rs stop i r)
    obtain w1 b1 where s1: "s1 = (w1, b1)" by fastforce
    from more [OF some [OF point_records(1,2)[unfolded s1]] point_records(7)[unfolded s1]] point_records(1)
    show ?thesis by (cases s) (auto simp: marks_def)
  next
    case (point_batch files j s1 f rs stop i w2 b2 rows)
    obtain w1 b1 where s1: "s1 = (w1, b1)" by fastforce
    from more [OF some [OF point_batch(2,3)[unfolded s1]] point_batch(8)[unfolded s1]] point_batch(1,2)
    show ?thesis by (auto simp: marks_def)
  qed
qed

text \<open>A kill within a flush leaves the accounts as they were, or as the whole flush leaves them.\<close>

lemma cut_flush_accounted:
  assumes inv: "run_inv st ev log lost before (w, b)" and names: "unique_names ev"
    and w': "w' = cut_flush ev k partial (w, b)"
  shows "(\<exists>lost'. accounted st ev log (lost + lost') w') \<and> keeps_rest (w, b) (w', b) \<and>
    fully_processed_files (control w') = fully_processed_files (control w)"
proof -
  have inv_w: "store_inv ev w" and cov: "log_covers log w" and dist: "distinct (keys (batch_offsets b))"
    and pos: "offset_of (control w) f \<le> position (w, b) f" "boundary st ev f (log_bytes log f) (position (w, b) f)"
    and total: "visible w + mset (batch_rows b) + lost = rows_at st ev log (position (w, b))" for f
    using inv by (simp_all add: run_inv_def)
  note cut = flush_prefix [OF inv_w names w' [unfolded cut_flush_def prod.case]]
  show ?thesis
  proof (cases "k < 4")
    case True
    have same: "control w' = control w" using cut True by simp
    then have "position (w', b) = position (w, b)" by (simp add: position_def fun_eq_iff split: option.split)
    then have "run_inv st ev log lost before (w', b)" using inv cut True by (simp add: run_inv_def log_covers_def)
    from run_inv_accounted [OF this] show ?thesis using cut True by (simp add: keeps_rest_def)
  next
    case False
    have off: "offset_of (control w') f = position (w, b) f" for f
      using cut False pos(1) [of f] dist
      by (cases "map_of (batch_offsets b) f")
        (simp_all add: offset_of_commit_batch position_def max_def del: map_of_eq_Some_iff)
    then have "rows_at st ev log (offset_of (control w')) = rows_at st ev log (position (w, b))" by (rule rows_at_cong)
    then have "accounted st ev log (lost + {#}) w'"
      using cut False cov pos off total by (simp add: accounted_def log_covers_def ac_simps)
    moreover have "keeps_rest (w, b) (w', b)" using cut False off pos(1) by (simp add: keeps_rest_def)
    moreover have "fully_processed_files (control w') = fully_processed_files (control w)"
      using cut False by (simp add: fully_processed_marked commit_batch_def)
    ultimately show ?thesis by blast
  qed
qed

end
