(* ===== verification/Clean_Log.thy ===== *)
theory Clean_Log
  imports Run_Points
begin

text \<open>
  No false alarms: a run over segments whose records are whole and parse reports no corruption,
  whatever else happens to it.
\<close>

section \<open>What keeps the events\<close>

definition undisturbed :: "world \<Rightarrow> world \<Rightarrow> bool" where
  "undisturbed w w' \<longleftrightarrow> wal_dir w' = wal_dir w \<and>
     wal_corruption_events (control w') = wal_corruption_events (control w)"

lemma undisturbed_refl [simp]: "undisturbed w w"
  by (simp add: undisturbed_def)

lemma undisturbed_trans: "undisturbed u v \<Longrightarrow> undisturbed v w \<Longrightarrow> undisturbed u w"
  by (simp add: undisturbed_def)

lemma flush_current_undisturbed:
  "flush_current ev (w, b) = (r, (w', b')) \<Longrightarrow> undisturbed w w' \<and>
     (\<forall>e. r = Inl e \<longrightarrow> b' = b \<and> \<not> list_all row_fits (batch_rows b)) \<and>
     (\<not> list_all row_fits (batch_rows b) \<longrightarrow> r = Inl (arrow_error ev))"
  by (auto simp: flush_current_def flush_batch_def undisturbed_def Let_def draw_tick_def run_steps_def flush_steps_def
      write_parquet_def replace_parquet_def commit_batch_def split: if_splits option.splits prod.splits sum.splits)

lemma process_records_undisturbed:
  assumes "list_all (parses ev f) rs" "process_records st ev f rs None (w, b) = (res, (w', b'))"
  shows "undisturbed w w' \<and> (\<forall>e. res = Inl e \<longrightarrow> \<not> list_all row_fits (batch_rows b'))"
  using assms
proof (induction rs arbitrary: w b)
  case Nil
  then show ?case by (auto simp: ret_def)
next
  case (Cons r rs)
  obtain q w1 b1 where q: "process_record st ev f r (w, b) = (q, (w1, b1))" by (metis prod.collapse)
  have one: "undisturbed w w1 \<and> (\<forall>e. q = Inl e \<longrightarrow> \<not> list_all row_fits (batch_rows b1))"
    using q Cons.prems(1) flush_current_undisturbed
    by (fastforce simp: process_record_cases parses_def split: sum.splits if_splits)
  show ?case
  proof (cases q)
    case (Inr x)
    then have "process_records st ev f rs None (w1, b1) = (res, (w', b'))" using Cons.prems(2) q by (simp add: bindE_def)
    from Cons.IH [OF _ this] one Cons.prems(1) show ?thesis by (auto intro: undisturbed_trans)
  qed (use Cons.prems(2) q one in \<open>simp add: bindE_def\<close>)
qed

text \<open>A segment without damage from an offset on.\<close>

definition clean_from :: "settings \<Rightarrow> env \<Rightarrow> string \<Rightarrow> byte list \<Rightarrow> nat \<Rightarrow> bool" where
  "clean_from st ev f content k \<longleftrightarrow>
     (\<exists>rs. wal_records_from f content k (max_wal_record_bytes st) = (rs, None) \<and> list_all (parses ev f) rs)"

lemma process_file_undisturbed:
  assumes clean: "clean_from st ev f (segment_bytes w f) (offset_of db0 f)"
    and run: "process_file st ev db0 active f (w, b) = (res, (w', b'))"
  shows "undisturbed w w'"
proof (cases "skip_file db0 f (offset_of db0 f) (length (segment_bytes w f))")
  case True
  with run show ?thesis by (simp add: process_file_def)
next
  case False
  obtain rs where recs: "wal_records_from f (segment_bytes w f) (offset_of db0 f) (max_wal_record_bytes st) = (rs, None)"
    and ok: "list_all (parses ev f) rs" using clean by (auto simp: clean_from_def)
  obtain q w1 b1 where q: "process_records st ev f rs None (w, b) = (q, (w1, b1))" by (metis prod.collapse)
  note one = process_records_undisturbed [OF ok q]
  show ?thesis
  proof (cases q)
    case (Inr x)
    then have "undisturbed w1 w'"
      using run False recs q by (auto simp: process_file_def try_except_def bindE_def mark_sealed_def updE_def
          undisturbed_def Let_def split: if_splits)
    with one show ?thesis by (blast intro: undisturbed_trans)
  next
    case (Inl e)
    with one have unfit: "\<not> list_all row_fits (batch_rows b1)" by simp
    then have ne: "batch_rows b1 \<noteq> []" by auto
    obtain r2 w2 b2 where fl: "flush_current ev (w1, b1) = (r2, (w2, b2))" by (metis prod.collapse)
    note two = flush_current_undisturbed [OF fl]
    have "w' = w1 \<or> w' = w2"
      using run False recs q Inl fl two unfit ne
      by (auto simp: process_file_def try_except_def bindE_def handle_corruption_def Let_def split: if_splits)
    with one two show ?thesis by (blast intro: undisturbed_trans)
  qed
qed

lemma process_files_undisturbed:
  assumes "\<forall>f \<in> set fs. clean_from st ev f (segment_bytes w f) (offset_of db0 f)"
    and "process_files st ev db0 active fs (w, b) = (res, (w', b'))"
  shows "undisturbed w w'"
  using assms
proof (induction fs arbitrary: w b)
  case Nil
  then show ?case by (simp add: ret_def)
next
  case (Cons f fs)
  obtain q w1 b1 where q: "process_file st ev db0 active f (w, b) = (q, (w1, b1))" by (metis prod.collapse)
  have one: "undisturbed w w1" using process_file_undisturbed [OF _ q] Cons.prems(1) by simp
  then have bytes: "segment_bytes w1 = segment_bytes w" by (simp add: segment_bytes_def fun_eq_iff undisturbed_def)
  show ?case
  proof (cases q)
    case (Inr x)
    then have "process_files st ev db0 active fs (w1, b1) = (res, (w', b'))" using Cons.prems(2) q by (simp add: bindE_def)
    from Cons.IH [OF _ this] Cons.prems(1) one show ?thesis by (auto simp: bytes intro: undisturbed_trans)
  qed (use Cons.prems(2) q one in \<open>simp add: bindE_def\<close>)
qed

section \<open>A whole run\<close>

lemma cleanup_events:
  assumes "cleanup_materialized_wal_files ev a w = (r, w')"
  shows "wal_corruption_events (control w') = wal_corruption_events (control w)"
  using assms unfolding cleanup_materialized_wal_files_def
  by (rule with_lock_rule) (auto dest!: wal_cleanup_body_result)

lemma materialize_events:
  assumes idle: "lock_idle a (lifecycle_lock w)"
    and clean: "\<forall>f \<in> set (sorted_wal_files (keys (wal_dir w))). clean_from st ev f (segment_bytes w f) (offset_of (control w) f)"
    and run: "materialize st ev a w = (res, w')"
  shows "wal_corruption_events (control w') = wal_corruption_events (control w)"
proof -
  let ?u = "w\<lparr>lifecycle_lock := lock_taken a (lifecycle_lock w)\<rparr>"
  obtain n0 w0 where orph: "cleanup_orphaned_parquet_files ev (manifest_error ev) ?u = (n0, w0)" by fastforce
  note same = cleanup_orphaned_same [OF orph]
  obtain q w2 b where q: "materialize_run st ev w0 = (q, (w2, b))" by (metis prod.collapse)
  obtain d w3 where d: "cleanup_materialized_wal_files ev a w2 = (d, w3)" by fastforce
  let ?files = "sorted_wal_files (keys (wal_dir w0))"
  obtain p w1 b1 where p: "process_files st ev (control w0) (active_wal_filename ?files) ?files (w0, empty_batch) = (p, (w1, b1))"
    by (metis prod.collapse)
  have "segment_bytes w0 = segment_bytes w" using same by (simp add: segment_bytes_def fun_eq_iff)
  then have "undisturbed w0 w1" using process_files_undisturbed [OF _ p] clean same by simp
  moreover have "(w2, b) = (w1, b1) \<or> flush_current ev (w1, b1) = (q, (w2, b))"
    using q p by (cases p) (auto simp: materialize_run_def Let_def bindE_def split: if_splits)
  then have "undisturbed w1 w2" using flush_current_undisturbed by fastforce
  ultimately have two: "wal_corruption_events (control w2) = wal_corruption_events (control w)"
    using same by (simp add: undisturbed_def)
  obtain r1 w4 where body: "materialize_body st ev a ?u = (r1, w4)" by fastforce
  then have "w4 \<in> {w0, w2, w3}"
    using orph q d by (auto simp: materialize_body_run split: if_splits sum.splits)
  moreover have "control w' = control w4"
    using run body idle by (auto simp: materialize_def with_lifecycle_lock_def enter_lock_idle)
  ultimately show ?thesis using two same cleanup_events [OF d] by auto
qed

text \<open>A clean segment is clean from every boundary.\<close>

lemma clean_from_boundary:
  assumes clean: "clean_from st ev f content 0" and k: "boundary st ev f content k"
  shows "clean_from st ev f content k"
proof (cases "k = 0")
  case False
  obtain rs where rs: "wal_records_from f content 0 (max_wal_record_bytes st) = (rs, None)" "list_all (parses ev f) rs"
    using clean by (auto simp: clean_from_def)
  have "good_records st ev f content 0 = rs"
    using rs by (simp add: good_records_def takeWhile_eq_all_conv list_all_iff)
  with boundaryE [OF k False] obtain xs r ys where split: "rs = xs @ r # ys" "k = rec_end r" by metis
  from wal_records_from_boundary [OF rs(1) [unfolded split]] rs(2) show ?thesis
    by (auto simp: clean_from_def split)
qed (use clean in simp)

end
