(* ===== verification/Live_Run.thy ===== *)
theory Live_Run
  imports Run_Points
begin

text \<open>
  The gateway writes while a materialisation runs: nothing but the lifecycle lock orders the two
  processes, and the gateway does not take it.  A run lists the segments once and reads each when
  its turn comes, so that between two segments anything may have been appended, or a new segment
  opened; what is appended to a segment while it is read, the reader sees, or it does not.

  The log keeps every byte that was ever written, also of segments that were deleted since.
\<close>

section \<open>The gateway's part\<close>

record system =
  sys_log :: wal_log
  sys_world :: world
  sys_failed :: bool

definition put_segment :: "string \<Rightarrow> byte list \<Rightarrow> system \<Rightarrow> system" where
  "put_segment f content s = s\<lparr>sys_log := tbl_put f content (sys_log s),
     sys_world := (sys_world s)\<lparr>wal_dir := tbl_put f content (wal_dir (sys_world s))\<rparr>\<rparr>"

text \<open>
  \<open>WalWriter::append\<close> to the newest segment, or the part of it that is written by now, or when
  the disk is full or the gateway is killed; and \<open>open_new_segment\<close>.
\<close>

inductive wal_step :: "system \<Rightarrow> system \<Rightarrow> bool" where
  wal_append: "active_segment (sys_world s) = Some f \<Longrightarrow>
    wal_step s (put_segment f (segment_bytes (sys_world s) f @ encode_record payload) s)"
| wal_part: "active_segment (sys_world s) = Some f \<Longrightarrow>
    wal_step s (put_segment f (segment_bytes (sys_world s) f @ take n (drop k (encode_record payload))) s)"
| wal_open: "f \<notin> set (keys (sys_log s)) \<Longrightarrow> ends_with ''.wal'' f \<Longrightarrow>
    (\<forall>g \<in> set (keys (wal_dir (sys_world s))). parse_wal_key g < parse_wal_key f) \<Longrightarrow>
    wal_step s (put_segment f [] s)"

section \<open>The materialiser's part\<close>

text \<open>
  The states of a run that began in \<open>s0\<close>, after its orphan cleanup: the batch, and the segments
  of its list that are still to come.
\<close>

inductive live_reach :: "settings \<Rightarrow> env \<Rightarrow> system \<Rightarrow> system \<Rightarrow> batch \<Rightarrow> string list \<Rightarrow> bool" for st ev s0 where
  live_begin: "live_reach st ev s0 s0 empty_batch (sorted_wal_files (keys (wal_dir (sys_world s0))))"
| live_write: "live_reach st ev s0 s b fs \<Longrightarrow> wal_step s s' \<Longrightarrow> live_reach st ev s0 s' b fs"
| live_file: "live_reach st ev s0 s b (f # fs) \<Longrightarrow>
    process_file st ev (control (sys_world s0)) (active_segment (sys_world s0)) f (sys_world s, b) = (Inr u, (w, b')) \<Longrightarrow>
    live_reach st ev s0 (s\<lparr>sys_world := w\<rparr>) b' fs"

text \<open>How it ends: it returns after the last flush, it raises, or it is killed (\<open>None\<close>).\<close>

definition last_flush :: "env \<Rightarrow> (mstate, exn, unit) eff" where
  "last_flush ev s = (if batch_rows (snd s) \<noteq> [] then flush_current ev s else (Inr (), s))"

inductive live_end :: "settings \<Rightarrow> env \<Rightarrow> system \<Rightarrow> (exn + nat) option \<Rightarrow> system \<Rightarrow> bool" for st ev s0 where
  live_returns: "live_reach st ev s0 s b [] \<Longrightarrow> last_flush ev (sys_world s, b) = (Inr u, (w, b')) \<Longrightarrow>
    \<not> auto_cleanup_wal st \<Longrightarrow> live_end st ev s0 (Some (Inr (total_spans b'))) (s\<lparr>sys_world := w\<rparr>)"
| live_flush_raises: "live_reach st ev s0 s b [] \<Longrightarrow> last_flush ev (sys_world s, b) = (Inl e, (w, b')) \<Longrightarrow>
    live_end st ev s0 (Some (Inl e)) (s\<lparr>sys_world := w\<rparr>)"
| live_raises: "live_reach st ev s0 s b (f # fs) \<Longrightarrow>
    process_file st ev (control (sys_world s0)) (active_segment (sys_world s0)) f (sys_world s, b) = (Inl e, (w, b')) \<Longrightarrow>
    live_end st ev s0 (Some (Inl e)) (s\<lparr>sys_world := w\<rparr>)"
| live_killed: "live_reach st ev s0 s b fs \<Longrightarrow> live_end st ev s0 None s"
| live_killed_flush: "live_reach st ev s0 s b fs \<Longrightarrow> list_all row_fits (batch_rows b) \<Longrightarrow>
    live_end st ev s0 None (s\<lparr>sys_world := cut_flush ev k partial (sys_world s, b)\<rparr>)"

text \<open>A run that the gateway leaves alone is one of these.\<close>

lemma live_alone_files:
  assumes "live_reach st ev s0 s b (fs @ gs)"
    and "process_files st ev (control (sys_world s0)) (active_segment (sys_world s0)) fs (sys_world s, b) = (Inr u, (w, b'))"
  shows "live_reach st ev s0 (s\<lparr>sys_world := w\<rparr>) b' gs"
  using assms
proof (induction fs arbitrary: s b)
  case Nil
  then show ?case by (auto simp: ret_def)
next
  case (Cons f fs)
  obtain q w1 b1 where q: "process_file st ev (control (sys_world s0)) (active_segment (sys_world s0)) f (sys_world s, b) =
      (q, (w1, b1))" by (metis prod.collapse)
  with Cons.prems(2) obtain v where v: "q = Inr v" and rest:
    "process_files st ev (control (sys_world s0)) (active_segment (sys_world s0)) fs (w1, b1) = (Inr u, (w, b'))"
    by (cases q) (auto simp: bindE_def)
  from Cons.prems(1) have "live_reach st ev s0 s b (f # fs @ gs)" by simp
  from live_file [OF this q [unfolded v]] Cons.IH [of "s\<lparr>sys_world := w1\<rparr>" b1] rest show ?case by simp
qed

lemma live_alone:
  assumes "materialize_run st ev (sys_world s) = (Inr u, (w, b))" "\<not> auto_cleanup_wal st"
  shows "live_end st ev s (Some (Inr (total_spans b))) (s\<lparr>sys_world := w\<rparr>)"
proof -
  let ?fs = "sorted_wal_files (keys (wal_dir (sys_world s)))"
  obtain v w1 b1 where loop: "process_files st ev (control (sys_world s)) (active_segment (sys_world s)) ?fs
      (sys_world s, empty_batch) = (Inr v, (w1, b1))" and fl: "last_flush ev (w1, b1) = (Inr u, (w, b))"
    using assms(1) by (auto simp: materialize_run_def Let_def bindE_def active_segment_def last_flush_def
        split: prod.splits sum.splits)
  have "live_reach st ev s s empty_batch (?fs @ [])" using live_begin by simp
  from live_alone_files [OF this loop] have "live_reach st ev s (s\<lparr>sys_world := w1\<rparr>) b1 []" .
  from live_returns [OF this, of u w b] fl assms(2) show ?thesis by simp
qed

section \<open>Segments that grow\<close>

lemma good_records_append:
  "\<exists>extra'. good_records st ev f (content @ extra) 0 = good_records st ev f content 0 @ extra'"
proof -
  obtain rs stop where rs: "wal_loop f (max_wal_record_bytes st) 0 content = (rs, stop)" by fastforce
  then obtain ps rest where ps: "content = encode_records ps @ rest" "list_all (good_payload (max_wal_record_bytes st)) ps"
    "rs = layout 0 ps" by (rule wal_loop_elim)
  have "fst (wal_loop f (max_wal_record_bytes st) 0 (content @ extra)) =
      rs @ fst (wal_loop f (max_wal_record_bytes st) (length (encode_records ps)) (rest @ extra))"
    using wal_loop_records [OF ps(2), of f 0 "rest @ extra"] by (simp add: ps(1,3) case_prod_unfold Let_def)
  then have "fst (wal_records_from f (content @ extra) 0 (max_wal_record_bytes st)) =
      fst (wal_records_from f content 0 (max_wal_record_bytes st)) @
      fst (wal_loop f (max_wal_record_bytes st) (length (encode_records ps)) (rest @ extra))"
    by (simp add: wal_records_from_def rs)
  then show ?thesis by (simp add: good_records_def takeWhile_append) (metis append_Nil2 takeWhile_eq_all_conv)
qed

lemma boundary_append:
  assumes "boundary st ev f content p"
  shows "boundary st ev f (content @ extra) p \<and> rows_upto st ev f (content @ extra) p = rows_upto st ev f content p"
proof (cases "p = 0")
  case False
  obtain extra' where G: "good_records st ev f (content @ extra) 0 = good_records st ev f content 0 @ extra'"
    using good_records_append by blast
  from boundaryE [OF assms False] obtain xs r ys where
    split: "good_records st ev f content 0 = xs @ r # ys" and p: "p = rec_end r" by blast
  have "good_records st ev f (content @ extra) 0 = xs @ r # (ys @ extra')" by (simp add: G split)
  from rows_upto_end [OF this] rows_upto_end [OF split]
  have "rows_upto st ev f (content @ extra) p = rows_upto st ev f content p" by (simp add: p)
  moreover have "boundary st ev f (content @ extra) p" using assms G by (auto simp: boundary_def)
  ultimately show ?thesis by simp
qed simp

lemma rows_upto_append:
  assumes "boundary st ev f content p" "q \<le> p"
  shows "rows_upto st ev f (content @ extra) q = rows_upto st ev f content q"
proof (cases "p = 0")
  case False
  obtain extra' where G: "good_records st ev f (content @ extra) 0 = good_records st ev f content 0 @ extra'"
    using good_records_append by blast
  from boundaryE [OF assms(1) False] obtain xs r ys where
    split: "good_records st ev f content 0 = xs @ r # ys" and p: "p = rec_end r" by blast
  have "rec_end r < rec_end y" if "y \<in> set extra'" for y
    using good_records_sorted [of st ev f "content @ extra" 0] that by (simp add: G split sorted_wrt_append)
  then have "filter (\<lambda>r. rec_end r \<le> q) extra' = []" using assms(2) p by (fastforce simp: filter_empty_conv)
  then show ?thesis by (simp add: rows_upto_def G)
qed (use assms(2) in simp)

lemma log_bytes_put: "log_bytes (tbl_put f content log) g = (if g = f then content else log_bytes log g)"
  by (simp add: log_bytes_def map_of_put)

text \<open>A segment that grows, or a new one, changes nothing of what was read.\<close>

lemma run_inv_put:
  assumes inv: "run_inv st ev log lost before (w, b)"
    and grown: "(map_of (wal_dir w) f = Some content \<and> content' = content @ extra) \<or> f \<notin> set (keys log)"
  shows "run_inv st ev (tbl_put f content' log) lost before (w\<lparr>wal_dir := tbl_put f content' (wal_dir w)\<rparr>, b)"
proof -
  let ?log = "tbl_put f content' log" and ?p = "position (w, b)"
  let ?w = "w\<lparr>wal_dir := tbl_put f content' (wal_dir w)\<rparr>"
  have cov: "log_covers log w" using inv by (simp add: run_inv_def)
  have absent: "f \<notin> set (keys log) \<Longrightarrow> log_bytes log f = []"
    by (simp add: log_bytes_def map_of_eq_None_iff [THEN iffD2])
  have old: "\<exists>extra. content' = log_bytes log f @ extra"
  proof -
    have "map_of (wal_dir w) f = Some content \<Longrightarrow> log_bytes log f = content"
      using cov by (simp add: log_covers_def log_bytes_def del: map_of_eq_Some_iff)
    then show ?thesis using grown absent by auto
  qed
  have bnd: "boundary st ev g (log_bytes log g) (offset_of (control w) g)" "boundary st ev g (log_bytes log g) (?p g)" for g
    using inv by (simp_all add: run_inv_def)
  have bnd': "boundary st ev g (log_bytes ?log g) (offset_of (control w) g)" "boundary st ev g (log_bytes ?log g) (?p g)" for g
    using old bnd [of g] boundary_append [OF bnd(1) [of f]] boundary_append [OF bnd(2) [of f]] by (auto simp: log_bytes_put)
  have rows: "rows_at st ev ?log g = rows_at st ev log g" if le: "\<And>h. g h \<le> ?p h" for g
  proof -
    have new: "rows_upto st ev h (log_bytes ?log h) (g h) = rows_upto st ev h (log_bytes log h) (g h)" for h
      using old rows_upto_append [OF bnd(2) le, of f] by (auto simp: log_bytes_put)
    show ?thesis
    proof (cases "f \<in> set (keys log)")
      case True
      then have "set (keys ?log) = set (keys log)" unfolding set_keys_put by (rule insert_absorb)
      with new show ?thesis by (simp only: rows_at_def)
    next
      case False
      have "?p f = 0" using boundary_le [OF bnd(2) [of f]] absent [OF False] by simp
      then have zero: "rows_upto st ev f (log_bytes log f) (g f) = []" using le [of f] by simp
      have "set (keys ?log) = insert f (set (keys log))" by (rule set_keys_put)
      then have "rows_at st ev ?log g = (\<Sum>h \<in> insert f (set (keys log)). mset (rows_upto st ev h (log_bytes log h) (g h)))"
        using new by (simp only: rows_at_def)
      also have "\<dots> = rows_at st ev log g" using False zero by (simp add: rows_at_def)
      finally show ?thesis .
    qed
  qed
  have le: "offset_of (control w) g \<le> ?p g" for g using inv by (simp add: run_inv_def)
  obtain base where base: "\<And>g. base g \<le> offset_of (control w) g" "visible w + lost = rows_at st ev log base"
    using inv by (auto simp: run_inv_def)
  have "visible w + lost = rows_at st ev ?log base"
    using base rows [of base] le by (metis order_trans)
  moreover have "rows_at st ev ?log ?p = rows_at st ev log ?p" by (rule rows) simp
  moreover have "position (?w, b) = ?p" by (simp add: position_def fun_eq_iff split: option.split)
  moreover have "log_covers ?log ?w"
    using cov by (simp add: log_covers_def map_of_put del: map_of_eq_Some_iff)
  moreover have "visible ?w = visible w" by (simp add: visible_def visible_rows_def)
  moreover have "store_inv ev ?w = store_inv ev w" by (simp add: store_inv_def)
  ultimately show ?thesis using inv bnd' base(1) unfolding run_inv_def by auto
qed

lemma accounted_put:
  assumes acc: "accounted st ev log lost w"
    and grown: "(map_of (wal_dir w) f = Some content \<and> content' = content @ extra) \<or> f \<notin> set (keys log)"
  shows "accounted st ev (tbl_put f content' log) lost (w\<lparr>wal_dir := tbl_put f content' (wal_dir w)\<rparr>)"
  using run_inv_settled [OF run_inv_put [OF accounted_run_inv [OF acc] grown]] by (simp add: empty_batch_def)

lemma keys_put_old: "f \<in> set (keys t) \<Longrightarrow> keys (tbl_put f c t) = keys t"
  by (induction t) (auto simp: tbl_put_def)

lemma active_newest:
  assumes "f \<in> set names" "ends_with ''.wal'' f" "\<And>g. g \<in> set names \<Longrightarrow> g \<noteq> f \<Longrightarrow> parse_wal_key g < parse_wal_key f"
  shows "active_wal_filename (sorted_wal_files names) = Some f"
proof -
  let ?fs = "sorted_wal_files names"
  have f: "f \<in> set ?fs" using assms(1,2) by (simp add: sorted_wal_files_def)
  then have ne: "?fs \<noteq> []" by (metis empty_iff list.set(1))
  have "sorted (map parse_wal_key ?fs)" by (simp add: sorted_wal_files_def)
  moreover obtain i where i: "i < length ?fs" "?fs ! i = f" using f by (metis in_set_conv_nth)
  ultimately have "parse_wal_key f \<le> parse_wal_key (last ?fs)"
    using sorted_nth_mono [of "map parse_wal_key ?fs" i "length ?fs - 1"] ne by (simp add: last_conv_nth)
  moreover have "last ?fs \<in> set names" using last_in_set [OF ne] by (auto simp: sorted_wal_files_def)
  ultimately have "last ?fs = f" using assms(3) by (metis leD)
  with ne show ?thesis by (simp add: active_wal_filename_def)
qed

lemma active_in_dir: "active_segment w = Some f \<Longrightarrow> f \<in> set (keys (wal_dir w))"
proof -
  assume "active_segment w = Some f"
  then have "f \<in> set (sorted_wal_files (keys (wal_dir w)))"
    using last_in_set unfolding active_segment_def active_wal_filename_def by (metis option.distinct(1) option.inject)
  then show ?thesis by (simp del: set_map)
qed

lemma active_put: "active_segment (sys_world s) = Some f \<Longrightarrow> active_segment (sys_world (put_segment f c s)) = Some f"
  by (simp add: active_segment_def put_segment_def keys_put_old active_in_dir [unfolded active_segment_def] del: set_map)

section \<open>What the gateway can change\<close>

text \<open>
  Since the run began: segments only grew or appeared, and those that were sealed are what they
  were.
\<close>

definition grown :: "system \<Rightarrow> system \<Rightarrow> bool" where
  "grown s0 s \<longleftrightarrow> (let w0 = sys_world s0; w = sys_world s in
     sys_failed s = sys_failed s0 \<and> lifecycle_lock w = lifecycle_lock w0 \<and> distinct (keys (wal_dir w)) \<and>
     (\<forall>f \<in> set (keys (wal_dir w)). ends_with ''.wal'' f) \<and>
     set (keys (wal_dir w0)) \<subseteq> set (keys (wal_dir w)) \<and> set (keys (sys_log s0)) \<subseteq> set (keys (sys_log s)) \<and>
     set (keys (sys_log s)) - set (keys (wal_dir w)) \<subseteq> set (keys (sys_log s0)) - set (keys (wal_dir w0)) \<and>
     (\<forall>f. \<exists>extra. log_bytes (sys_log s) f = log_bytes (sys_log s0) f @ extra) \<and>
     (\<forall>f \<in> set (keys (sys_log s0)). active_segment w0 \<noteq> Some f \<longrightarrow>
        active_segment w \<noteq> Some f \<and> log_bytes (sys_log s) f = log_bytes (sys_log s0) f))"

lemma grown_refl:
  "distinct (keys (wal_dir (sys_world s))) \<Longrightarrow> (\<forall>f \<in> set (keys (wal_dir (sys_world s))). ends_with ''.wal'' f) \<Longrightarrow>
     grown s s"
  by (simp add: grown_def del: set_map)

lemma wal_step_put:
  assumes "wal_step s s'" "log_covers (sys_log s) (sys_world s)"
  obtains f extra where "s' = put_segment f (log_bytes (sys_log s) f @ extra) s"
    "f \<in> set (keys (wal_dir (sys_world s))) \<and> active_segment (sys_world s) = Some f \<or>
     f \<notin> set (keys (sys_log s)) \<and> ends_with ''.wal'' f \<and>
       (\<forall>g \<in> set (keys (wal_dir (sys_world s))). parse_wal_key g < parse_wal_key f)"
proof -
  have open_bytes: "segment_bytes (sys_world s) f = log_bytes (sys_log s) f" if "active_segment (sys_world s) = Some f" for f
    using covers_bytes [OF assms(2) active_in_dir [OF that]] by blast
  from assms(1) show thesis
  proof cases
    case (wal_append f payload)
    with that [of f] open_bytes active_in_dir show thesis by metis
  next
    case (wal_part f n k payload)
    with that [of f] open_bytes active_in_dir show thesis by metis
  next
    case (wal_open f)
    then have "log_bytes (sys_log s) f = []" by (simp add: log_bytes_def map_of_eq_None_iff [THEN iffD2])
    with that [of f "[]"] wal_open show thesis by simp
  qed
qed

lemma active_opened:
  assumes "ends_with ''.wal'' f" "\<forall>g \<in> set (keys (wal_dir (sys_world s))). parse_wal_key g < parse_wal_key f"
  shows "active_segment (sys_world (put_segment f c s)) = Some f"
  unfolding active_segment_def
  by (rule active_newest) (use assms in \<open>auto simp: put_segment_def simp del: set_map\<close>)

lemma grown_wal_step:
  assumes g: "grown s0 s" and step: "wal_step s s'" and cov: "log_covers (sys_log s) (sys_world s)"
  shows "grown s0 s'"
proof -
  from wal_step_put [OF step cov] obtain f extra where s': "s' = put_segment f (log_bytes (sys_log s) f @ extra) s"
    and f: "f \<in> set (keys (wal_dir (sys_world s))) \<and> active_segment (sys_world s) = Some f \<or>
     f \<notin> set (keys (sys_log s)) \<and> ends_with ''.wal'' f \<and>
       (\<forall>g \<in> set (keys (wal_dir (sys_world s))). parse_wal_key g < parse_wal_key f)" by metis
  have wal: "ends_with ''.wal'' f" using f g by (auto simp: grown_def Let_def simp del: set_map)
  have act: "active_segment (sys_world s') = Some f" using f active_put active_opened by (auto simp: s' simp del: set_map)
  have keys: "set (keys (sys_log s')) = insert f (set (keys (sys_log s)))"
    "set (keys (wal_dir (sys_world s'))) = insert f (set (keys (wal_dir (sys_world s))))"
    by (simp_all add: s' put_segment_def del: set_map)
  have "distinct (keys (wal_dir (sys_world s)))" using g by (simp add: grown_def Let_def)
  then have dist: "distinct (keys (wal_dir (sys_world s')))" by (simp add: s' put_segment_def)
  have bytes: "log_bytes (sys_log s') h = (if h = f then log_bytes (sys_log s) f @ extra else log_bytes (sys_log s) h)" for h
    by (simp add: s' put_segment_def log_bytes_put)
  have sealed: "h \<noteq> f" if "h \<in> set (keys (sys_log s0))" "active_segment (sys_world s0) \<noteq> Some h" for h
    using that f g unfolding grown_def Let_def by blast
  have ext: "\<exists>extra. log_bytes (sys_log s') h = log_bytes (sys_log s0) h @ extra" for h
  proof -
    obtain x where "log_bytes (sys_log s) h = log_bytes (sys_log s0) h @ x"
      using g unfolding grown_def Let_def by blast
    then show ?thesis by (cases "h = f") (simp_all add: bytes)
  qed
  have old: "sys_failed s' = sys_failed s" "lifecycle_lock (sys_world s') = lifecycle_lock (sys_world s)"
    by (simp_all add: s' put_segment_def)
  show ?thesis
    using g ext sealed wal act dist unfolding grown_def Let_def keys old bytes by auto
qed

section \<open>The invariant of a live run\<close>

text \<open>All readable records that a segment had are before an offset.\<close>

definition caught_up :: "settings \<Rightarrow> env \<Rightarrow> wal_log \<Rightarrow> string \<Rightarrow> nat \<Rightarrow> bool" where
  "caught_up st ev log f p \<longleftrightarrow> (\<forall>r \<in> set (good_records st ev f (log_bytes log f) 0). rec_end r \<le> p)"

lemma nothing_after:
  assumes "boundary st ev f content p" "good_records st ev f content p = []" "r \<in> set (good_records st ev f content 0)"
  shows "rec_end r \<le> p"
proof (cases "p = 0")
  case False
  with assms(1) obtain xs q ys where G: "good_records st ev f content 0 = xs @ q # ys" "p = rec_end q"
    by (rule boundaryE)
  have "ys = []" using good_records_split(1) [OF G(1)] G(2) assms(2) by simp
  then show ?thesis using good_records_sorted [of st ev f content 0] assms(3)
    by (auto simp: G sorted_wrt_append)
qed (use assms in simp)

lemma exhausted_caught_up:
  assumes "boundary st ev f (log_bytes log f) (position s f)" "exhausted st ev log s f"
    and "log_bytes log f = log_bytes log0 f @ extra"
  shows "caught_up st ev log0 f (position s f)"
proof -
  obtain extra' where "good_records st ev f (log_bytes log f) 0 = good_records st ev f (log_bytes log0 f) 0 @ extra'"
    unfolding assms(3) using good_records_append by blast
  with nothing_after [OF assms(1)] assms(2) show ?thesis by (simp add: caught_up_def exhausted_def)
qed

definition live_inv :: "settings \<Rightarrow> env \<Rightarrow> system \<Rightarrow> span_row multiset \<Rightarrow> system \<Rightarrow> batch \<Rightarrow> string list \<Rightarrow> bool" where
  "live_inv st ev s0 lost s b fs \<longleftrightarrow> (let w0 = sys_world s0; w = sys_world s; db0 = control w0 in
     run_inv st ev (sys_log s) lost (size (visible w0)) (w, b) \<and> small st (w, b) \<and> grown s0 s \<and>
     (\<forall>f. offset_of db0 f \<le> offset_of (control w) f) \<and>
     (\<forall>f \<in> set fs. map_of (batch_offsets b) f = None \<and> offset_of (control w) f = offset_of db0 f) \<and>
     (\<exists>read. sorted_wal_files (keys (wal_dir w0)) = read @ fs \<and>
        (\<forall>f \<in> set read. f \<in> quarantined db0 \<or> caught_up st ev (sys_log s0) f (position (w, b) f)) \<and>
        marks {f \<in> set read. active_segment w0 \<noteq> Some f \<and> f \<notin> quarantined db0} (w0, empty_batch) (w, b)))"

lemma live_inv_begin:
  assumes acc: "accounted st ev (sys_log s) lost (sys_world s)" and size: "0 < materialize_batch_size st"
    and dir: "distinct (keys (wal_dir (sys_world s)))" "\<forall>f \<in> set (keys (wal_dir (sys_world s))). ends_with ''.wal'' f"
  shows "live_inv st ev s lost s empty_batch (sorted_wal_files (keys (wal_dir (sys_world s))))"
  using accounted_run_inv [OF acc] grown_refl [OF dir] size
  by (simp add: live_inv_def Let_def small_def) (simp add: empty_batch_def)

lemma live_inv_write:
  assumes inv: "live_inv st ev s0 lost s b fs" and step: "wal_step s s'"
  shows "live_inv st ev s0 lost s' b fs"
proof -
  have run: "run_inv st ev (sys_log s) lost (size (visible (sys_world s0))) (sys_world s, b)"
    and g: "grown s0 s" using inv by (simp_all add: live_inv_def Let_def)
  have cov: "log_covers (sys_log s) (sys_world s)" using run by (simp add: run_inv_def)
  from wal_step_put [OF step cov] obtain f extra where s': "s' = put_segment f (log_bytes (sys_log s) f @ extra) s"
    and f: "f \<in> set (keys (wal_dir (sys_world s))) \<or> f \<notin> set (keys (sys_log s))" by metis
  have "\<exists>c. map_of (wal_dir (sys_world s)) f = Some c \<and> log_bytes (sys_log s) f = c" if "f \<in> set (keys (wal_dir (sys_world s)))"
    using covers_bytes [OF cov that] that
    by (cases "map_of (wal_dir (sys_world s)) f") (auto simp: segment_bytes_def map_of_eq_None_iff simp del: map_of_eq_Some_iff)
  then have "run_inv st ev (sys_log s') lost (size (visible (sys_world s0))) (sys_world s', b)"
    using run_inv_put [OF run, of f _ "log_bytes (sys_log s) f @ extra" extra] f by (auto simp: s' put_segment_def)
  moreover have "control (sys_world s') = control (sys_world s)" by (simp add: s' put_segment_def)
  moreover from this have "position (sys_world s', b) = position (sys_world s, b)"
    by (simp add: position_def fun_eq_iff split: option.split)
  ultimately show ?thesis
    using inv grown_wal_step [OF g step cov] by (simp add: live_inv_def Let_def small_def marks_def)
qed

lemma grown_same_dir:
  "grown s0 s \<Longrightarrow> wal_dir w = wal_dir (sys_world s) \<Longrightarrow> lifecycle_lock w = lifecycle_lock (sys_world s) \<Longrightarrow>
     grown s0 (s\<lparr>sys_world := w\<rparr>)"
  by (simp add: grown_def Let_def active_segment_def)

lemma live_inv_file:
  assumes inv: "live_inv st ev s0 lost s b (f # fs)" and names: "unique_names ev" and size: "0 < materialize_batch_size st"
    and dist: "distinct (keys (wal_dir (sys_world s0)))"
    and run: "process_file st ev (control (sys_world s0)) (active_segment (sys_world s0)) f (sys_world s, b) = (res, (w, b'))"
  shows "run_inv st ev (sys_log s) lost (size (visible (sys_world s0))) (w, b') \<and> keeps_rest (sys_world s, b) (w, b') \<and>
    grown s0 (s\<lparr>sys_world := w\<rparr>) \<and>
    marks {f \<in> set (sorted_wal_files (keys (wal_dir (sys_world s0)))). active_segment (sys_world s0) \<noteq> Some f \<and>
      f \<notin> quarantined (control (sys_world s0))} (sys_world s0, empty_batch) (w, b') \<and>
    (case res of Inr _ \<Rightarrow> live_inv st ev s0 lost (s\<lparr>sys_world := w\<rparr>) b' fs | Inl e \<Rightarrow> uncaught ev e (w, b'))"
proof -
  let ?start = "sys_world s0" and ?w = "sys_world s" and ?db0 = "control (sys_world s0)"
  let ?files = "sorted_wal_files (keys (wal_dir ?start))"
  from inv obtain read where files: "?files = read @ f # fs"
    and past: "\<And>g. g \<in> set read \<Longrightarrow> g \<in> quarantined ?db0 \<or> caught_up st ev (sys_log s0) g (position (?w, b) g)"
    and marks: "marks {f \<in> set read. active_segment ?start \<noteq> Some f \<and> f \<notin> quarantined ?db0} (?start, empty_batch) (?w, b)"
    and inv0: "run_inv st ev (sys_log s) lost (size (visible ?start)) (?w, b)" and small: "small st (?w, b)" and g: "grown s0 s"
    and mono: "\<And>g. offset_of ?db0 g \<le> offset_of (control ?w) g"
    and fresh: "\<And>g. g \<in> set (f # fs) \<Longrightarrow> map_of (batch_offsets b) g = None \<and> offset_of (control ?w) g = offset_of ?db0 g"
    unfolding live_inv_def Let_def by blast
  have df: "distinct (read @ f # fs)" using distinct_sorted_wal_files [OF dist] by (simp add: files)
  have "f \<in> set ?files" by (simp add: files)
  then have "f \<in> set (keys (wal_dir ?w))" using g by (auto simp: grown_def Let_def)
  note one = process_file_inv [OF inv0 names size small this _ _ run]
  have one: "run_inv st ev (sys_log s) lost (size (visible ?start)) (w, b')" "keeps_rest (?w, b) (w, b')" "others_kept f (?w, b) (w, b')"
    "f \<in> quarantined ?db0 \<Longrightarrow> (w, b') = (?w, b)"
    "case res of Inr _ \<Rightarrow> small st (w, b') \<and> (f \<in> quarantined ?db0 \<or> exhausted st ev (sys_log s) (w, b') f)
     | Inl e \<Rightarrow> uncaught ev e (w, b')"
    using one fresh [of f] unfolding quarantined_def by (auto split: sum.splits)
  have g': "grown s0 (s\<lparr>sys_world := w\<rparr>)" using grown_same_dir [OF g] one(2) by (simp add: keeps_rest_def)
  have m1: "marks (may_mark ?db0 (active_segment ?start) f) (?w, b) (w, b')" by (rule process_file_marks [OF run])
  have m: "marks {g \<in> set (read @ [f]). active_segment ?start \<noteq> Some g \<and> g \<notin> quarantined ?db0} (?start, empty_batch) (w, b')"
    by (rule marks_mono [OF marks_trans [OF marks m1]]) (auto simp: may_mark_def split: if_splits)
  have "live_inv st ev s0 lost (s\<lparr>sys_world := w\<rparr>) b' fs" if res: "res = Inr u" for u
  proof -
    have rest: "map_of (batch_offsets b') h = None \<and> offset_of (control w) h = offset_of ?db0 h" if h: "h \<in> set fs" for h
    proof -
      have "h \<noteq> f" using df h by auto
      then have "map_of (batch_offsets b') h = None" "position (w, b') h = position (?w, b) h"
        using one(3) fresh [of h] h by (simp_all add: others_kept_def)
      then show ?thesis using fresh [of h] h by (simp add: position_def)
    qed
    have ext: "\<exists>extra. log_bytes (sys_log s) f = log_bytes (sys_log s0) f @ extra"
      using g unfolding grown_def Let_def by blast
    have "boundary st ev f (log_bytes (sys_log s) f) (position (w, b') f)" using one(1) by (simp add: run_inv_def)
    then have "f \<in> quarantined ?db0 \<or> caught_up st ev (sys_log s0) f (position (w, b') f)"
      using exhausted_caught_up one(5) ext res by fastforce
    moreover have "g \<in> quarantined ?db0 \<or> caught_up st ev (sys_log s0) g (position (w, b') g)" if "g \<in> set read" for g
    proof -
      have "g \<noteq> f" using df that by auto
      then show ?thesis using past [OF that] one(3) by (simp add: others_kept_def)
    qed
    moreover have "offset_of ?db0 h \<le> offset_of (control w) h" for h
      using mono [of h] one(2) by (simp add: keeps_rest_def) (metis order_trans)
    ultimately show ?thesis
      using one(1,5) g' m rest res files unfolding live_inv_def Let_def
      by (simp add: small_def)
  qed
  moreover have "marks {f \<in> set ?files. active_segment ?start \<noteq> Some f \<and> f \<notin> quarantined ?db0} (?start, empty_batch) (w, b')"
    by (rule marks_mono [OF m]) (auto simp: files)
  ultimately show ?thesis using one g' by (auto split: sum.splits)
qed

lemma live_reach_inv:
  assumes "live_reach st ev s0 s b fs" and acc: "accounted st ev (sys_log s0) lost (sys_world s0)"
    and names: "unique_names ev" and size: "0 < materialize_batch_size st"
    and dir: "distinct (keys (wal_dir (sys_world s0)))" "\<forall>f \<in> set (keys (wal_dir (sys_world s0))). ends_with ''.wal'' f"
  shows "live_inv st ev s0 lost s b fs"
  using assms(1)
proof (induction rule: live_reach.induct)
  case live_begin
  show ?case by (rule live_inv_begin [OF acc size dir])
next
  case (live_write s b fs s')
  then show ?case by (blast intro: live_inv_write)
next
  case (live_file s b f fs u w b')
  from live_inv_file [OF live_file.IH names size dir(1) live_file.hyps(2)] show ?case by simp
qed

section \<open>How a live run ends\<close>

text \<open>
  Whatever its end, the accounts hold of the log as it is then; and a run that returns shows
  every row that was in its segments when it began.
\<close>

definition shown_since :: "settings \<Rightarrow> env \<Rightarrow> system \<Rightarrow> system \<Rightarrow> string \<Rightarrow> bool" where
  "shown_since st ev s0 s f \<longleftrightarrow> (let off = offset_of (control (sys_world s)) f in
     mset (rows_after st ev f (log_bytes (sys_log s0) f) 0) \<subseteq># mset (rows_upto st ev f (log_bytes (sys_log s) f) off) \<and>
     (active_segment (sys_world s0) \<noteq> Some f \<longrightarrow> rows_after st ev f (log_bytes (sys_log s) f) off = []))"

lemma caught_up_rows:
  assumes caught: "caught_up st ev log0 f p" and ext: "log_bytes log f = log_bytes log0 f @ extra"
  shows "mset (rows_after st ev f (log_bytes log0 f) 0) \<subseteq># mset (rows_upto st ev f (log_bytes log f) p)"
proof -
  let ?G = "good_records st ev f (log_bytes log0 f) 0"
  obtain extra' where G: "good_records st ev f (log_bytes log f) 0 = ?G @ extra'"
    unfolding ext using good_records_append by blast
  have "filter (\<lambda>r. rec_end r \<le> p) ?G = ?G" using caught by (simp add: caught_up_def filter_id_conv)
  then show ?thesis by (simp add: rows_upto_def rows_after_def G)
qed

lemma live_settled:
  assumes inv: "run_inv st ev log lost before (w, b)" and rows: "batch_rows b = []" and f: "f \<in> set (keys log)"
    and caught: "caught_up st ev log0 f (position (w, b) f)" and ext: "log_bytes log f = log_bytes log0 f @ extra"
  shows "mset (rows_after st ev f (log_bytes log0 f) 0) \<subseteq># mset (rows_upto st ev f (log_bytes log f) (offset_of (control w) f))"
    and "extra = [] \<Longrightarrow> rows_after st ev f (log_bytes log f) (offset_of (control w) f) = []"
proof -
  have le: "offset_of (control w) g \<le> position (w, b) g"
    and bnd: "boundary st ev f (log_bytes log f) (offset_of (control w) f)" for g
    using inv by (simp_all add: run_inv_def)
  have eq: "mset (rows_upto st ev f (log_bytes log f) (offset_of (control w) f)) =
      mset (rows_upto st ev f (log_bytes log f) (position (w, b) f))"
    using run_inv_settled [OF inv rows] le f by (intro rows_at_eq_pointwise) simp_all
  with caught_up_rows [OF caught ext]
  show sub: "mset (rows_after st ev f (log_bytes log0 f) 0) \<subseteq># mset (rows_upto st ev f (log_bytes log f) (offset_of (control w) f))"
    by simp
  assume "extra = []"
  then have same: "log_bytes log0 f = log_bytes log f" using ext by simp
  have "length (rows_after st ev f (log_bytes log f) 0) \<le> length (rows_upto st ev f (log_bytes log f) (offset_of (control w) f))"
    using size_mset_mono [OF sub] by (simp add: same)
  with arg_cong [OF rows_split [OF bnd], of length]
  have "length (rows_after st ev f (log_bytes log f) (offset_of (control w) f)) = 0" unfolding length_append by linarith
  then show "rows_after st ev f (log_bytes log f) (offset_of (control w) f) = []" by simp
qed

lemma last_flush_inv:
  assumes inv: "run_inv st ev log lost before (w, b)" and names: "unique_names ev"
    and run: "last_flush ev (w, b) = (r, (w', b'))"
  shows "run_inv st ev log lost before (w', b') \<and> position (w', b') = position (w, b) \<and> keeps_rest (w, b) (w', b') \<and>
    marks {} (w, b) (w', b') \<and> (\<forall>u. r = Inr u \<longrightarrow> batch_rows b' = [])"
proof (cases "batch_rows b = []")
  case True
  with run inv show ?thesis by (auto simp: last_flush_def)
next
  case False
  with run have fl: "flush_current ev (w, b) = (r, (w', b'))" by (simp add: last_flush_def)
  from flush_current_inv [OF inv names False fl] flush_current_marks [OF fl] show ?thesis by (auto split: if_splits)
qed

lemma marks_quiet: "marks F s t \<Longrightarrow> marks {} t u \<Longrightarrow> marks F s u"
  using marks_trans [of F s t "{}" u] by simp

lemma live_inv_facts:
  assumes "live_inv st ev s0 lost s b fs"
  shows "run_inv st ev (sys_log s) lost (size (visible (sys_world s0))) (sys_world s, b)" "grown s0 s"
    "offset_of (control (sys_world s0)) f \<le> offset_of (control (sys_world s)) f"
    "marks {f \<in> set (sorted_wal_files (keys (wal_dir (sys_world s0)))). active_segment (sys_world s0) \<noteq> Some f \<and>
      f \<notin> quarantined (control (sys_world s0))} (sys_world s0, empty_batch) (sys_world s, b)"
    "fs = [] \<Longrightarrow> f \<in> set (sorted_wal_files (keys (wal_dir (sys_world s0)))) \<Longrightarrow>
      f \<in> quarantined (control (sys_world s0)) \<or> caught_up st ev (sys_log s0) f (position (sys_world s, b) f)"
proof -
  from assms obtain read where read: "sorted_wal_files (keys (wal_dir (sys_world s0))) = read @ fs"
    "\<And>f. f \<in> set read \<Longrightarrow> f \<in> quarantined (control (sys_world s0)) \<or> caught_up st ev (sys_log s0) f (position (sys_world s, b) f)"
    "marks {f \<in> set read. active_segment (sys_world s0) \<noteq> Some f \<and> f \<notin> quarantined (control (sys_world s0))}
      (sys_world s0, empty_batch) (sys_world s, b)"
    unfolding live_inv_def Let_def by blast
  show "marks {f \<in> set (sorted_wal_files (keys (wal_dir (sys_world s0)))). active_segment (sys_world s0) \<noteq> Some f \<and>
      f \<notin> quarantined (control (sys_world s0))} (sys_world s0, empty_batch) (sys_world s, b)"
    by (rule marks_mono [OF read(3)]) (auto simp: read(1))
  show "fs = [] \<Longrightarrow> f \<in> set (sorted_wal_files (keys (wal_dir (sys_world s0)))) \<Longrightarrow>
      f \<in> quarantined (control (sys_world s0)) \<or> caught_up st ev (sys_log s0) f (position (sys_world s, b) f)"
    using read(1,2) by simp
qed (use assms in \<open>simp_all add: live_inv_def Let_def\<close>)

lemma live_end_result:
  assumes ended: "live_end st ev s0 r s'" and acc: "accounted st ev (sys_log s0) lost (sys_world s0)"
    and names: "unique_names ev" and size: "0 < materialize_batch_size st"
    and dir: "distinct (keys (wal_dir (sys_world s0)))" "\<forall>f \<in> set (keys (wal_dir (sys_world s0))). ends_with ''.wal'' f"
  shows "\<exists>lost'. accounted st ev (sys_log s') (lost + lost') (sys_world s') \<and> grown s0 s' \<and>
    (\<forall>f. offset_of (control (sys_world s0)) f \<le> offset_of (control (sys_world s')) f) \<and>
    fully_processed_files (control (sys_world s')) \<subseteq> fully_processed_files (control (sys_world s0)) \<union>
      {f \<in> set (keys (wal_dir (sys_world s0))). active_segment (sys_world s0) \<noteq> Some f \<and> f \<notin> quarantined (control (sys_world s0))} \<and>
    (\<forall>n. r = Some (Inr n) \<longrightarrow> lost' = {#} \<and> size (visible (sys_world s')) = size (visible (sys_world s0)) + n \<and>
       (\<forall>f \<in> set (keys (wal_dir (sys_world s0))). f \<in> quarantined (control (sys_world s0)) \<or> shown_since st ev s0 s' f))"
proof -
  let ?start = "sys_world s0" and ?db = "control (sys_world s0)"
  let ?files = "sorted_wal_files (keys (wal_dir ?start))"
  let ?F = "{f \<in> set ?files. active_segment ?start \<noteq> Some f \<and> f \<notin> quarantined ?db}"
  have files: "set ?files = set (keys (wal_dir ?start))" using dir(2) by (auto simp del: set_map)
  note reached = live_reach_inv [OF _ acc names size dir]
  let ?D = "{f \<in> set (keys (wal_dir ?start)). active_segment ?start \<noteq> Some f \<and> f \<notin> quarantined ?db}"
  have marked: "fully_processed_files (control w) \<subseteq> fully_processed_files ?db \<union> ?D"
    if "marks ?F (?start, empty_batch) (w, b)" for w b using that unfolding marks_def files by simp
  have finish: "\<exists>lost'. accounted st ev (sys_log s') (lost + lost') (sys_world s') \<and> grown s0 s' \<and>
      (\<forall>f. offset_of ?db f \<le> offset_of (control (sys_world s')) f) \<and>
      fully_processed_files (control (sys_world s')) \<subseteq> fully_processed_files ?db \<union> ?D"
    if "run_inv st ev (sys_log s') lost before (sys_world s', b)" "grown s0 s'"
      "\<And>f. offset_of ?db f \<le> offset_of (control (sys_world s')) f" "marks ?F (?start, empty_batch) (sys_world s', b)" for before b
    using that(2,3) marked [OF that(4)] run_inv_accounted [OF that(1)] by blast
  have quiet: "grown s0 (s\<lparr>sys_world := w\<rparr>)" "offset_of ?db f \<le> offset_of (control w) f"
    if "keeps_rest (sys_world s, b) (w, b')" "live_inv st ev s0 lost s b fs" for s b w b' fs f
  proof -
    show "grown s0 (s\<lparr>sys_world := w\<rparr>)"
      using grown_same_dir [OF live_inv_facts(2) [OF that(2)]] that(1) by (simp add: keeps_rest_def)
    show "offset_of ?db f \<le> offset_of (control w) f"
      using live_inv_facts(3) [OF that(2), of f] that(1) by (simp add: keeps_rest_def) (metis order_trans)
  qed
  from ended show ?thesis
  proof cases
    case (live_returns s b u w b')
    note inv = reached [OF live_returns(3)]
    note fl = last_flush_inv [OF live_inv_facts(1) [OF inv] names live_returns(4)]
    from fl have run: "run_inv st ev (sys_log s) lost (size (visible ?start)) (w, b')" and rows: "batch_rows b' = []" by blast+
    note g = quiet(1) [OF conjunct1 [OF conjunct2 [OF conjunct2 [OF fl]]] inv]
    have m: "marks ?F (?start, empty_batch) (w, b')"
      using marks_quiet [OF live_inv_facts(4) [OF inv]] fl by blast
    note settled = run_inv_settled [OF run rows]
    have "f \<in> quarantined ?db \<or> shown_since st ev s0 s' f" if f: "f \<in> set (keys (wal_dir ?start))" for f
    proof (cases "f \<in> quarantined ?db")
      case False
      obtain extra where ext: "log_bytes (sys_log s) f = log_bytes (sys_log s0) f @ extra"
        using live_inv_facts(2) [OF inv] unfolding grown_def Let_def by blast
      have log0: "f \<in> set (keys (sys_log s0))" using covers_bytes [of "sys_log s0" ?start f] f acc by (simp add: accounted_def del: set_map)
      then have log: "f \<in> set (keys (sys_log s))" using g by (auto simp: grown_def Let_def simp del: set_map)
      have "f \<in> set ?files" unfolding files by (rule f)
      from live_inv_facts(5) [OF inv refl this] have "caught_up st ev (sys_log s0) f (position (w, b') f)"
        using False fl by simp
      note res = live_settled [OF run rows log this ext]
      have "active_segment ?start \<noteq> Some f \<Longrightarrow> extra = []" using g log0 ext by (simp add: grown_def Let_def del: set_map)
      with res show ?thesis by (simp add: shown_since_def Let_def live_returns(2))
    qed simp
    moreover have "total_spans b' = n \<Longrightarrow> size (visible w) = size (visible ?start) + n" for n using settled by simp
    ultimately show ?thesis
      using settled g quiet(2) [OF conjunct1 [OF conjunct2 [OF conjunct2 [OF fl]]] inv] marked [OF m]
      by (intro exI [of _ "{#}"]) (simp add: live_returns(1,2) del: set_map)
  next
    case (live_flush_raises s b e w b')
    note inv = reached [OF live_flush_raises(3)]
    note fl = last_flush_inv [OF live_inv_facts(1) [OF inv] names live_flush_raises(4)]
    have "marks ?F (?start, empty_batch) (w, b')" using marks_quiet [OF live_inv_facts(4) [OF inv]] fl by blast
    with finish [of "size (visible ?start)" b'] fl quiet [OF conjunct1 [OF conjunct2 [OF conjunct2 [OF fl]]] inv] show ?thesis
      by (simp add: live_flush_raises(1,2) del: set_map)
  next
    case (live_raises s b f fs e w b')
    note inv = reached [OF live_raises(3)]
    note one = live_inv_file [OF inv names size dir(1) live_raises(4)]
    with finish [of "size (visible ?start)" b'] quiet [OF conjunct1 [OF conjunct2 [OF one]] inv] show ?thesis
      by (simp add: live_raises(1,2) del: set_map)
  next
    case (live_killed b fs)
    note inv = reached [OF this(2)]
    from finish [OF live_inv_facts(1,2) [OF inv] live_inv_facts(3,4) [OF inv]] show ?thesis
      by (simp add: live_killed(1) del: set_map)
  next
    case (live_killed_flush s b fs k partial)
    note inv = reached [OF live_killed_flush(3)]
    let ?w = "cut_flush ev k partial (sys_world s, b)"
    note cut = cut_flush_accounted [OF live_inv_facts(1) [OF inv] names refl, of k partial]
    have "marks ?F (?start, empty_batch) (?w, b)" using live_inv_facts(4) [OF inv] cut by (simp add: marks_def)
    note marked = marked [OF this]
    from cut obtain lost' where "accounted st ev (sys_log s) (lost + lost') ?w" by blast
    with marked quiet [OF conjunct1 [OF conjunct2 [OF cut]] inv] show ?thesis
      by (intro exI [of _ lost']) (simp add: live_killed_flush(1,2) del: set_map)
  qed
qed

text \<open>
  And it does end: as long as nothing in the log makes a run raise, the next segment is read, and
  the last flush returns.
\<close>

lemma live_continues:
  assumes inv: "live_inv st ev s0 lost s b (f # fs)" and names: "unique_names ev" and size: "0 < materialize_batch_size st"
    and dist: "distinct (keys (wal_dir (sys_world s0)))" and ok: "\<And>e. \<not> fatal st ev (sys_log s) e"
  shows "\<exists>u w b'. process_file st ev (control (sys_world s0)) (active_segment (sys_world s0)) f (sys_world s, b) = (Inr u, (w, b'))"
proof -
  obtain q w b' where q: "process_file st ev (control (sys_world s0)) (active_segment (sys_world s0)) f (sys_world s, b) =
      (q, (w, b'))" by (metis prod.collapse)
  note one = live_inv_file [OF inv names size dist q]
  show ?thesis
  proof (cases q)
    case (Inl e)
    with one have "uncaught ev e (w, b')" by simp
    from uncaught_fatal [OF conjunct1 [OF one] this] ok show ?thesis by blast
  qed (use q in blast)
qed

lemma live_finishes:
  assumes inv: "run_inv st ev log lost before (w, b)" and names: "unique_names ev" and ok: "\<And>e. \<not> fatal st ev log e"
  shows "\<exists>u w' b'. last_flush ev (w, b) = (Inr u, (w', b'))"
proof (cases "batch_rows b = []")
  case False
  obtain q w' b' where q: "flush_current ev (w, b) = (q, (w', b'))" by (metis prod.collapse)
  note fl = flush_current_inv [OF inv names False q]
  show ?thesis
  proof (cases "list_all row_fits (batch_rows b)")
    case True
    with fl q False show ?thesis by (auto simp: last_flush_def)
  next
    case unfit: False
    then have "uncaught ev (arrow_error ev) (w, b)" by (simp add: uncaught_def)
    from uncaught_fatal [OF inv this] ok show ?thesis by blast
  qed
qed (simp add: last_flush_def)

lemma live_completes:
  assumes "live_reach st ev s0 s b fs" and acc: "accounted st ev (sys_log s0) lost (sys_world s0)"
    and names: "unique_names ev" and size: "0 < materialize_batch_size st" and auto: "\<not> auto_cleanup_wal st"
    and dir: "distinct (keys (wal_dir (sys_world s0)))" "\<forall>f \<in> set (keys (wal_dir (sys_world s0))). ends_with ''.wal'' f"
    and ok: "\<And>e. \<not> fatal st ev (sys_log s) e"
  shows "\<exists>n s'. live_end st ev s0 (Some (Inr n)) s' \<and> sys_log s' = sys_log s"
  using assms(1,8)
proof (induction fs arbitrary: s b rule: list.induct)
  case Nil
  note inv = live_reach_inv [OF Nil(1) acc names size dir]
  from live_finishes [OF live_inv_facts(1) [OF inv] names Nil(2)] obtain u w b' where
    fl: "last_flush ev (sys_world s, b) = (Inr u, (w, b'))" by blast
  from live_returns [OF Nil(1) fl auto] show ?case by force
next
  case (Cons f fs)
  note inv = live_reach_inv [OF Cons.prems(1) acc names size dir]
  from live_continues [OF inv names size dir(1) Cons.prems(2)] obtain u w b' where
    "process_file st ev (control (sys_world s0)) (active_segment (sys_world s0)) f (sys_world s, b) = (Inr u, (w, b'))" by blast
  from Cons.IH [OF live_file [OF Cons.prems(1) this]] Cons.prems(2) show ?case by simp
qed

end
