(* ===== verification/Py_Number.thy ===== *)
theory Py_Number
  imports Complex_Main Prelude
begin

text \<open>
  The floating-point numbers of the analytics in backend/app/main.py: Python's division of
  integers and floats and \<open>round(x, digits)\<close>, on the exact rational value of a double (IEEE
  754, 53 bits, ties to even; the values are far from the limits of the exponent).
\<close>

function bit_count :: "int \<Rightarrow> int" where
  "bit_count n = (if n \<le> 0 then 0 else 1 + bit_count (n div 2))"
  by pat_completeness auto
termination by (relation "measure nat") auto

declare bit_count.simps [simp del]

definition round_even :: "rat \<Rightarrow> int" where
  "round_even q =
    (let n = floor q; frac = q - of_int n in
     if frac < 1 / 2 then n else if 1 / 2 < frac then n + 1 else if even n then n else n + 1)"

definition pow2 :: "int \<Rightarrow> rat" where
  "pow2 e = (if 0 \<le> e then 2 ^ nat e else 1 / 2 ^ nat (- e))"

text \<open>The exponent of a positive rational, and the double next to a rational.\<close>

definition exponent :: "rat \<Rightarrow> int" where
  "exponent q = (let (a, b) = quotient_of q; d = bit_count a - bit_count b
     in if pow2 d \<le> q then d else d - 1)"

definition double :: "rat \<Rightarrow> rat" where
  "double q =
    (if q = 0 then 0
     else let ulp = pow2 (exponent \<bar>q\<bar> - 52); v = of_int (round_even (\<bar>q\<bar> / ulp)) * ulp
       in if q < 0 then - v else v)"

text \<open>\<open>x / y\<close> on doubles (an integer operand below 2 to the 53 is one), and \<open>round(x, k)\<close>.\<close>

definition py_div :: "rat \<Rightarrow> rat \<Rightarrow> rat" where
  "py_div x y = double (x / y)"

definition py_round :: "rat \<Rightarrow> nat \<Rightarrow> rat" where
  "py_round x k = double (of_int (round_even (x * 10 ^ k)) / 10 ^ k)"

section \<open>Lemmas\<close>

lemma pow2_powi: "pow2 e = 2 powi e"
  by (simp add: pow2_def power_int_def field_simps)

lemma pow2_add: "pow2 (a + b) = pow2 a * pow2 b"
  by (simp add: pow2_powi power_int_add)

lemma pow2_pos [simp]: "0 < pow2 e"
  by (simp add: pow2_powi)

lemma pow2_mono: "a \<le> b \<Longrightarrow> pow2 a \<le> pow2 b"
  by (simp add: pow2_powi power_int_increasing)

lemma pow2_less_imp: "pow2 a < pow2 b \<Longrightarrow> a < b"
  using pow2_mono [of b a] by linarith

lemma bit_count_nonneg: "0 \<le> bit_count n"
  by (induction n rule: bit_count.induct) (simp add: bit_count.simps)

lemma bit_count_1: "bit_count 1 = 1"
  by code_simp

lemma bit_count_bounds: "0 < n \<Longrightarrow> pow2 (bit_count n - 1) \<le> of_int n \<and> of_int n < pow2 (bit_count n)"
proof (induction n rule: bit_count.induct)
  case (1 n)
  show ?case
  proof (cases "n = 1")
    case True
    then show ?thesis by (simp add: bit_count_1 pow2_def)
  next
    case False
    with 1 have ih: "pow2 (bit_count (n div 2) - 1) \<le> of_int (n div 2)" "of_int (n div 2) < pow2 (bit_count (n div 2))"
      by auto
    have bc: "bit_count n = bit_count (n div 2) + 1" using 1 by (simp add: bit_count.simps [of n])
    have two: "pow2 (k + 1) = 2 * pow2 k" for k by (simp add: pow2_powi power_int_add)
    have lo: "of_int (2 * (n div 2)) \<le> (of_int n :: rat)" and hi: "(of_int n :: rat) \<le> of_int (2 * (n div 2) + 1)"
      by (simp_all only: of_int_le_iff)
    obtain m where m: "bit_count (n div 2) = int m"
      using bit_count_nonneg [of "n div 2"] nonneg_int_cases by blast
    have "of_int (n div 2) < (of_int (2 ^ m) :: rat)" using ih(2) m by (simp add: pow2_def)
    then have "n div 2 + 1 \<le> 2 ^ m" by (simp only: of_int_less_iff)
    then have "2 * (n div 2) + 1 < 2 * 2 ^ m" by linarith
    then have "(of_int (2 * (n div 2) + 1) :: rat) < of_int (2 * 2 ^ m)" by (simp only: of_int_less_iff)
    moreover have "pow2 (bit_count n) = of_int (2 * 2 ^ m)" unfolding bc two m by (simp add: pow2_def)
    ultimately have "(of_int n :: rat) < pow2 (bit_count n)" using hi by (simp only:)
    moreover have "pow2 (bit_count n - 1) \<le> of_int n"
      using ih(1) lo two [of "bit_count (n div 2) - 1"] by (simp add: bc)
    ultimately show ?thesis by simp
  qed
qed

lemma exponent_bounds: "0 < q \<Longrightarrow> pow2 (exponent q) \<le> q \<and> q < pow2 (exponent q + 1)"
proof -
  assume q: "0 < q"
  obtain a b where ab: "quotient_of q = (a, b)" by fastforce
  then have b: "0 < b" and qab: "q = of_int a / of_int b"
    using quotient_of_denom_pos quotient_of_div by auto
  with q have a: "0 < a" by (simp add: zero_less_divide_iff)
  let ?A = "bit_count a" and ?B = "bit_count b"
  have A: "pow2 (?A - 1) \<le> of_int a" "of_int a < pow2 ?A" and B: "pow2 (?B - 1) \<le> of_int b" "of_int b < pow2 ?B"
    using bit_count_bounds a b by auto
  have bpos: "(0 :: rat) < of_int b" using b by simp
  have "of_int a < pow2 (?A - ?B + 1) * of_int b"
  proof -
    have "of_int a < pow2 (?A - ?B + 1) * pow2 (?B - 1)" using A(2) by (simp flip: pow2_add)
    also have "\<dots> \<le> pow2 (?A - ?B + 1) * of_int b" using B(1) by (simp add: less_imp_le)
    finally show ?thesis .
  qed
  then have hi: "q < pow2 (?A - ?B + 1)" using bpos by (simp add: qab field_simps)
  have "pow2 (?A - ?B - 1) * of_int b \<le> of_int a"
  proof -
    have "pow2 (?A - ?B - 1) * of_int b \<le> pow2 (?A - ?B - 1) * pow2 ?B"
      using B(2) by (intro mult_left_mono) (simp_all add: less_imp_le)
    also have "\<dots> \<le> of_int a" using A(1) by (simp flip: pow2_add)
    finally show ?thesis .
  qed
  then have lo: "pow2 (?A - ?B - 1) \<le> q" using bpos by (simp add: qab field_simps)
  show ?thesis using hi lo by (simp add: exponent_def ab Let_def)
qed

lemma round_even_nonneg: "0 \<le> q \<Longrightarrow> 0 \<le> round_even q"
  by (simp add: round_even_def Let_def)

lemma round_even_le: "q \<le> of_int n \<Longrightarrow> round_even q \<le> n"
proof -
  assume q: "q \<le> of_int n"
  then have n: "floor q \<le> n" by linarith
  show ?thesis
  proof (cases "floor q = n")
    case True
    then have "q = of_int n" using q by (metis of_int_floor_le order_antisym)
    then show ?thesis by (simp add: round_even_def)
  qed (use n in \<open>auto simp: round_even_def Let_def\<close>)
qed

text \<open>A share is rounded to a share.\<close>

lemma double_share: "0 \<le> q \<Longrightarrow> q \<le> 1 \<Longrightarrow> 0 \<le> double q \<and> double q \<le> 1"
proof (cases "q = 0 \<or> q = 1")
  case True
  moreover have "double 1 = 1" by code_simp
  moreover have "double 0 = 0" by (simp add: double_def)
  ultimately show ?thesis by auto
next
  case False
  assume "0 \<le> q" "q \<le> 1"
  with False have q: "0 < q" "q < 1" by auto
  let ?u = "pow2 (exponent q - 52)"
  note e = exponent_bounds [OF q(1)]
  have "pow2 (exponent q) < pow2 0" using e q(2) by (simp add: pow2_def)
  then have "exponent q < 0" by (rule pow2_less_imp)
  have p53: "pow2 53 = of_int (2 ^ 53)" by (simp add: pow2_def)
  have "exponent q + 1 = 53 + (exponent q - 52)" by simp
  then have u: "pow2 (exponent q + 1) = of_int (2 ^ 53) * ?u" by (simp only: pow2_add p53)
  have "q \<le> of_int (2 ^ 53) * ?u" using e unfolding u by (simp only: less_imp_le)
  then have "q / ?u \<le> of_int (2 ^ 53)" by (simp only: pos_divide_le_eq pow2_pos)
  then have "of_int (round_even (q / ?u)) \<le> (of_int (2 ^ 53) :: rat)"
    by (simp only: of_int_le_iff round_even_le)
  then have "of_int (round_even (q / ?u)) * ?u \<le> pow2 (exponent q + 1)"
    unfolding u by (rule mult_right_mono) (simp add: less_imp_le)
  also have "\<dots> \<le> pow2 0" using \<open>exponent q < 0\<close> by (intro pow2_mono) simp
  finally have "of_int (round_even (q / ?u)) * ?u \<le> 1" by (simp add: pow2_def)
  moreover have "0 \<le> of_int (round_even (q / ?u)) * ?u"
    using q(1) by (intro mult_nonneg_nonneg) (simp_all add: round_even_nonneg less_imp_le)
  ultimately show ?thesis using q by (simp add: double_def Let_def)
qed

lemma py_div_share: "a \<le> b \<Longrightarrow> 0 \<le> py_div (of_nat a) (of_nat b) \<and> py_div (of_nat a) (of_nat b) \<le> 1"
  unfolding py_div_def by (rule double_share) (simp_all add: divide_le_eq)

lemma py_round_share: "0 \<le> x \<Longrightarrow> x \<le> 1 \<Longrightarrow> 0 \<le> py_round x k \<and> py_round x k \<le> 1"
proof -
  assume x: "0 \<le> x" "x \<le> 1"
  have "round_even (x * 10 ^ k) \<le> 10 ^ k"
    using x(2) by (intro round_even_le) (simp add: mult_left_le_one_le mult_le_cancel_right2)
  then have "(of_int (round_even (x * 10 ^ k)) :: rat) \<le> of_int (10 ^ k)" by (simp only: of_int_le_iff)
  moreover have "0 \<le> round_even (x * 10 ^ k)" using x(1) by (intro round_even_nonneg) simp
  ultimately show ?thesis unfolding py_round_def by (intro double_share) (simp_all add: divide_le_eq)
qed

section \<open>Rounding errors\<close>

lemma round_even_error: "\<bar>of_int (round_even q) - q\<bar> \<le> 1 / 2"
proof -
  have "of_int \<lfloor>q\<rfloor> \<le> q" "q < of_int \<lfloor>q\<rfloor> + 1" by linarith+
  then show ?thesis by (auto simp: round_even_def Let_def)
qed

text \<open>A double is its exact value up to a relative error.\<close>

definition unit_roundoff :: rat where
  "unit_roundoff = 1 / 2 ^ 53"

lemma double_error: "\<bar>double q - q\<bar> \<le> \<bar>q\<bar> * unit_roundoff"
proof (cases "q = 0")
  case False
  let ?u = "pow2 (exponent \<bar>q\<bar> - 52)"
  let ?v = "of_int (round_even (\<bar>q\<bar> / ?u)) * ?u"
  have "\<bar>?v - \<bar>q\<bar>\<bar> = \<bar>of_int (round_even (\<bar>q\<bar> / ?u)) - \<bar>q\<bar> / ?u\<bar> * ?u"
  proof -
    have "?v - \<bar>q\<bar> = (of_int (round_even (\<bar>q\<bar> / ?u)) - \<bar>q\<bar> / ?u) * ?u"
      using less_imp_neq [OF pow2_pos [of "exponent \<bar>q\<bar> - 52"]] by (simp add: left_diff_distrib)
    then show ?thesis by (simp only: abs_mult abs_of_pos pow2_pos)
  qed
  also have "\<dots> \<le> 1 / 2 * ?u" by (intro mult_right_mono round_even_error) (simp add: less_imp_le)
  also have "\<dots> = pow2 (exponent \<bar>q\<bar>) * unit_roundoff"
  proof -
    have "pow2 (exponent \<bar>q\<bar>) = pow2 52 * ?u" by (simp flip: pow2_add)
    moreover have "pow2 52 = 2 ^ 52" by (simp add: pow2_def)
    ultimately show ?thesis by (simp add: unit_roundoff_def)
  qed
  also have "\<dots> \<le> \<bar>q\<bar> * unit_roundoff"
    using exponent_bounds [of "\<bar>q\<bar>"] False by (intro mult_right_mono) (simp_all add: unit_roundoff_def)
  finally have "\<bar>?v - \<bar>q\<bar>\<bar> \<le> \<bar>q\<bar> * unit_roundoff" .
  moreover have "\<bar>double q - q\<bar> = \<bar>?v - \<bar>q\<bar>\<bar>"
    using False by (cases "q < 0") (simp_all add: double_def Let_def abs_minus_commute)
  ultimately show ?thesis by simp
qed (simp add: double_def)

lemma double_factor: "\<exists>d. double q = q * (1 + d) \<and> \<bar>d\<bar> \<le> unit_roundoff"
proof (cases "q = 0")
  case False
  then have "double q = q * (1 + (double q - q) / q)" by (simp add: field_simps)
  moreover have "\<bar>(double q - q) / q\<bar> \<le> unit_roundoff"
    using double_error [of q] False by (simp add: abs_divide divide_le_eq mult.commute)
  ultimately show ?thesis by blast
next
  case True
  then show ?thesis by (intro exI [of _ 0]) (simp add: double_def unit_roundoff_def)
qed

text \<open>
  \<open>round(x, k)\<close> of a value near to \<open>y\<close> is \<open>y\<close> up to half a unit of the last digit, and a relative
  error in the 49th bit.
\<close>

definition rounded :: "nat \<Rightarrow> rat \<Rightarrow> rat \<Rightarrow> bool" where
  "rounded k x y \<longleftrightarrow> \<bar>x - y\<bar> \<le> 1 / (2 * 10 ^ k) + (\<bar>y\<bar> + 1) / 2 ^ 49"

lemma py_round_near:
  assumes near: "\<bar>x - y\<bar> \<le> \<bar>y\<bar> * (8 * unit_roundoff)"
  shows "rounded k (py_round x k) y"
  unfolding rounded_def
proof -
  let ?r = "of_int (round_even (x * 10 ^ k)) / 10 ^ k :: rat"
  have p: "(1 :: rat) \<le> 2 * 10 ^ k" using one_le_power [of "10 :: rat" k] by linarith
  have "?r - x = (of_int (round_even (x * 10 ^ k)) - x * 10 ^ k) / 10 ^ k" by (simp add: field_simps)
  then have "\<bar>?r - x\<bar> = \<bar>of_int (round_even (x * 10 ^ k)) - x * 10 ^ k\<bar> / 10 ^ k" by (simp add: abs_divide)
  also have "\<dots> \<le> (1 / 2) / 10 ^ k" by (intro divide_right_mono round_even_error) simp
  finally have r: "\<bar>?r - x\<bar> \<le> 1 / (2 * 10 ^ k)" by simp
  moreover have "1 / (2 * 10 ^ k) \<le> (1 :: rat)" using p by (simp add: divide_le_eq)
  ultimately have "\<bar>?r\<bar> \<le> \<bar>x\<bar> + 1" by linarith
  then have "\<bar>py_round x k - ?r\<bar> \<le> (\<bar>x\<bar> + 1) * unit_roundoff"
    using double_error [of ?r] mult_right_mono [of "\<bar>?r\<bar>" "\<bar>x\<bar> + 1" unit_roundoff]
    by (simp add: py_round_def unit_roundoff_def)
  moreover have "\<bar>x\<bar> \<le> \<bar>y\<bar> + \<bar>y\<bar> * (8 * unit_roundoff)" using near by linarith
  then have "(\<bar>x\<bar> + 1) * unit_roundoff \<le> (\<bar>y\<bar> + \<bar>y\<bar> * (8 * unit_roundoff) + 1) * unit_roundoff"
    by (intro mult_right_mono) (simp_all add: unit_roundoff_def)
  moreover have "(\<bar>y\<bar> + \<bar>y\<bar> * (8 * unit_roundoff) + 1) * unit_roundoff + \<bar>y\<bar> * (8 * unit_roundoff) \<le> (\<bar>y\<bar> + 1) / 2 ^ 49"
    using abs_ge_zero [of y] by (simp add: unit_roundoff_def field_simps)
  ultimately show "\<bar>py_round x k - y\<bar> \<le> 1 / (2 * 10 ^ k) + (\<bar>y\<bar> + 1) / 2 ^ 49" using r near by linarith
qed

lemma py_div_near: "\<bar>py_div x y - x / y\<bar> \<le> \<bar>x / y\<bar> * (8 * unit_roundoff)"
  using double_error [of "x / y"] by (simp add: py_div_def unit_roundoff_def)

lemma double_pos: "0 < q \<Longrightarrow> 0 < double q"
proof -
  assume "0 < q"
  moreover from this have "q * unit_roundoff < q" by (simp add: unit_roundoff_def)
  ultimately show ?thesis using double_error [of q] by (simp only: abs_of_pos)
qed

lemma double_nonpos: "q \<le> 0 \<Longrightarrow> double q \<le> 0"
  using double_error [of q] by (simp add: unit_roundoff_def)

text \<open>A rate: a number over a duration in units of which a second has \<open>c\<close>.\<close>

lemma rate_near:
  assumes s: "0 < s" and c: "0 < c"
  shows "\<bar>py_div (double n) (py_div (double s) c) - n / (s / c)\<bar> \<le> \<bar>n / (s / c)\<bar> * (8 * unit_roundoff)"
proof -
  obtain d1 where d1: "double n = n * (1 + d1)" "\<bar>d1\<bar> \<le> unit_roundoff" using double_factor by blast
  obtain d2 where d2: "double s = s * (1 + d2)" "\<bar>d2\<bar> \<le> unit_roundoff" using double_factor by blast
  obtain d3 where d3: "double (double s / c) = double s / c * (1 + d3)" "\<bar>d3\<bar> \<le> unit_roundoff" using double_factor by blast
  let ?q = "double n / double (double s / c)"
  obtain d4 where d4: "double ?q = ?q * (1 + d4)" "\<bar>d4\<bar> \<le> unit_roundoff" using double_factor by blast
  let ?y = "n / (s / c)"
  define a b where "a = (1 + d1) * (1 + d4)" and "b = (1 + d2) * (1 + d3)"
  have b: "1 - 3 * unit_roundoff \<le> b" and diff: "\<bar>a - b\<bar> \<le> 5 * unit_roundoff"
  proof -
    have prod: "\<bar>x * y\<bar> \<le> unit_roundoff / 4" if "\<bar>x\<bar> \<le> unit_roundoff" "\<bar>y\<bar> \<le> unit_roundoff" for x y
    proof -
      have "\<bar>x * y\<bar> \<le> unit_roundoff * unit_roundoff" unfolding abs_mult using that by (intro mult_mono) auto
      also have "\<dots> \<le> unit_roundoff / 4" by (simp add: unit_roundoff_def)
      finally show ?thesis .
    qed
    have "a = 1 + d1 + d4 + d1 * d4" "b = 1 + d2 + d3 + d2 * d3" by (simp_all add: a_def b_def algebra_simps)
    then show "1 - 3 * unit_roundoff \<le> b" "\<bar>a - b\<bar> \<le> 5 * unit_roundoff"
      using prod [OF d1(2) d4(2)] prod [OF d2(2) d3(2)] d1(2) d2(2) d3(2) d4(2) by linarith+
  qed
  have pos: "1 / 2 < b" using b by (simp add: unit_roundoff_def)
  then have "1 + d2 \<noteq> 0" "1 + d3 \<noteq> 0" by (auto simp: b_def)
  then have "py_div (double n) (py_div (double s) c) = ?y * (a / b)"
    unfolding py_div_def d4(1) unfolding d3(1) unfolding d2(1) d1(1) a_def b_def using s c by (simp add: mult.assoc mult.left_commute)
  then have "py_div (double n) (py_div (double s) c) - ?y = ?y * ((a - b) / b)"
    using pos by (simp only: right_diff_distrib diff_divide_distrib divide_self mult_1_right)
  then have eq: "\<bar>py_div (double n) (py_div (double s) c) - ?y\<bar> = \<bar>?y\<bar> * (\<bar>a - b\<bar> / b)"
    using pos by (simp only: abs_mult abs_divide abs_of_pos [of b])
  have le: "\<bar>a - b\<bar> / b \<le> 8 * unit_roundoff"
  proof -
    have "5 * unit_roundoff \<le> 8 * unit_roundoff * (1 - 3 * unit_roundoff)" by (simp add: unit_roundoff_def)
    also have "\<dots> \<le> 8 * unit_roundoff * b" using b by (intro mult_left_mono) (simp_all add: unit_roundoff_def)
    finally show ?thesis using diff pos by (simp add: divide_le_eq)
  qed
  show ?thesis unfolding eq by (rule mult_left_mono [OF le]) (rule abs_ge_zero)
qed

end
