(* ===== verification/Queries.thy ===== *)
theory Queries
  imports Otlp_Rows Py_Number
begin

text \<open>
  The analytical queries of backend/app/main.py as functions of the rows they read: the trace
  list, the spans of a trace, the overview and the metrics per model, each as the SQL states it
  and then as the Python code finishes it.

  What DuckDB computes by itself is the record \<open>duckdb\<close>: the order in which it scans rows and
  delivers groups, which SQL leaves open, the extraction from JSON, \<open>TRY_CAST\<close> to BIGINT,
  \<open>AVG\<close> and \<open>approx_quantile(\<dots>, 0.95)\<close>.
\<close>

record duckdb =
  scan_order :: "span_row list \<Rightarrow> span_row list"
  group_order :: "string list \<Rightarrow> string list"
  json_extract_string :: "string \<Rightarrow> string \<Rightarrow> string option"
  try_cast_bigint :: "string \<Rightarrow> int option"
  avg_double :: "int list \<Rightarrow> rat"
  approx_quantile :: "int list \<Rightarrow> int"
  query_error :: "exn option"

text \<open>What SQL promises: a scan delivers each row once, a grouping each value once.\<close>

definition sql_engine :: "duckdb \<Rightarrow> bool" where
  "sql_engine d \<longleftrightarrow> (\<forall>rows. mset (scan_order d rows) = mset rows) \<and>
     (\<forall>vs. distinct (group_order d vs) \<and> set (group_order d vs) = set vs)"

section \<open>Conditions and aggregates\<close>

text \<open>\<open>if project_id: WHERE project_id = ?\<close>, and the same for the service.\<close>

definition truthy :: "string option \<Rightarrow> bool" where
  "truthy s \<longleftrightarrow> s \<noteq> None \<and> s \<noteq> Some []"

definition where_project :: "string option \<Rightarrow> span_row list \<Rightarrow> span_row list" where
  "where_project project_id rows =
     (if truthy project_id then filter (\<lambda>r. row_project_id r = project_id) rows else rows)"

definition where_service :: "string option \<Rightarrow> span_row list \<Rightarrow> span_row list" where
  "where_service service rows =
     (if truthy service then filter (\<lambda>r. row_service_name r = service) rows else rows)"

definition not_null :: "'a option list \<Rightarrow> 'a list" where
  "not_null vs = List.map_filter (\<lambda>v. v) vs"

definition sql_max_text :: "string option list \<Rightarrow> string option" where
  "sql_max_text vs = (if not_null vs = [] then None else Some (fold max (not_null vs) (hd (not_null vs))))"

definition error_spans :: "span_row list \<Rightarrow> nat" where
  "error_spans rows = length (filter (\<lambda>r. row_status_code r = 2) rows)"

text \<open>\<open>name LIKE '%word%'\<close>\<close>

definition sql_contains :: "string \<Rightarrow> string \<Rightarrow> bool" where
  "sql_contains word text = list_ex (\<lambda>i. starts_with word (drop i text)) [0 ..< Suc (length text)]"

section \<open>The trace list\<close>

record trace_summary =
  tr_trace_id :: string
  tr_start_time_unix_nano :: int
  tr_end_time_unix_nano :: int
  tr_wall_clock_duration_ns :: int
  tr_aggregate_span_duration_ns :: int
  tr_span_count :: nat
  tr_service_name :: "string option"
  tr_services :: "string list"
  tr_project_id :: "string option"
  tr_error_count :: nat

definition summarize_trace :: "duckdb \<Rightarrow> span_row list \<Rightarrow> string \<Rightarrow> trace_summary" where
  "summarize_trace d rows trace_id =
    (let g = filter (\<lambda>r. row_trace_id r = trace_id) rows;
         first_start = Min (set (map row_start_time_unix_nano g));
         last_end = Max (set (map row_end_time_unix_nano g))
     in \<lparr> tr_trace_id = trace_id,
          tr_start_time_unix_nano = first_start,
          tr_end_time_unix_nano = last_end,
          tr_wall_clock_duration_ns = last_end - first_start,
          tr_aggregate_span_duration_ns = sum_list (map row_duration_ns g),
          tr_span_count = length g,
          tr_service_name = sql_max_text (map row_service_name g),
          tr_services = filter (\<lambda>s. s \<noteq> []) (group_order d (not_null (map row_service_name g))),
          tr_project_id = sql_max_text (map row_project_id g),
          tr_error_count = error_spans g \<rparr>)"

definition traces_query :: "duckdb \<Rightarrow> string option \<Rightarrow> string option \<Rightarrow> nat \<Rightarrow> span_row list \<Rightarrow> trace_summary list" where
  "traces_query d project_id service limit rows =
    (let selected = where_service service (where_project project_id rows)
     in take limit (sort_key (\<lambda>t. - tr_start_time_unix_nano t)
          (map (summarize_trace d selected) (group_order d (map row_trace_id selected)))))"

section \<open>One trace\<close>

definition trace_query :: "duckdb \<Rightarrow> string option \<Rightarrow> string \<Rightarrow> span_row list \<Rightarrow> span_row list" where
  "trace_query d project_id trace_id rows =
     sort_key row_start_time_unix_nano
       (scan_order d (where_project project_id (filter (\<lambda>r. row_trace_id r = trace_id) rows)))"

section \<open>Overview\<close>

definition gen_ai_model :: "duckdb \<Rightarrow> span_row \<Rightarrow> string option" where
  "gen_ai_model d r = json_extract_string d (row_attributes_json r) ''$.\"gen_ai.request.model\"''"

definition is_llm_request :: "duckdb \<Rightarrow> span_row \<Rightarrow> bool" where
  "is_llm_request d r \<longleftrightarrow>
     gen_ai_model d r \<noteq> None \<or>
     json_extract_string d (row_attributes_json r) ''$.\"gen_ai.system\"'' \<noteq> None \<or>
     sql_contains ''llm'' (row_name r) \<or> sql_contains ''generate'' (row_name r)"

text \<open>\<open>COALESCE(SUM(TRY_CAST(json_extract_string(attributes_json, path) AS BIGINT)), 0)\<close>\<close>

definition token_sum :: "duckdb \<Rightarrow> string \<Rightarrow> span_row list \<Rightarrow> int" where
  "token_sum d path rows = sum_list (not_null (map
     (\<lambda>r. Option.bind (json_extract_string d (row_attributes_json r) path) (try_cast_bigint d)) rows))"

record overview =
  ov_total_traces :: nat
  ov_total_spans :: nat
  ov_total_llm_requests :: nat
  ov_total_input_tokens :: int
  ov_total_output_tokens :: int
  ov_total_tokens :: int
  ov_unique_services :: "string list"
  ov_error_rate :: rat

definition empty_overview :: overview where
  "empty_overview = \<lparr> ov_total_traces = 0, ov_total_spans = 0, ov_total_llm_requests = 0,
     ov_total_input_tokens = 0, ov_total_output_tokens = 0, ov_total_tokens = 0,
     ov_unique_services = [], ov_error_rate = 0 \<rparr>"

definition overview_query :: "duckdb \<Rightarrow> string option \<Rightarrow> span_row list \<Rightarrow> overview" where
  "overview_query d project_id rows =
    (let selected = where_project project_id rows;
         total = length selected;
         input_tokens = token_sum d ''$.\"gen_ai.usage.input_tokens\"'' selected;
         output_tokens = token_sum d ''$.\"gen_ai.usage.output_tokens\"'' selected;
         services = group_order d (filter (\<lambda>s. s \<noteq> []) (not_null (map row_service_name selected)))
     in \<lparr> ov_total_traces = length (remdups (map row_trace_id selected)),
          ov_total_spans = total,
          ov_total_llm_requests = length (filter (is_llm_request d) selected),
          ov_total_input_tokens = input_tokens,
          ov_total_output_tokens = output_tokens,
          ov_total_tokens = input_tokens + output_tokens,
          ov_unique_services = filter (\<lambda>s. s \<noteq> []) services,
          ov_error_rate = py_round
            (if total > 0 then py_div (of_nat (error_spans selected)) (of_nat total) else 0) 4 \<rparr>)"

section \<open>Metrics per model\<close>

record model_row =
  md_model :: string
  md_request_count :: nat
  md_total_input_tokens :: int
  md_total_output_tokens :: int
  md_total_tokens :: int
  md_tokens_per_sec :: rat
  md_avg_latency_ms :: rat
  md_p95_latency_ms :: rat
  md_error_count :: nat
  md_error_rate :: rat

definition summarize_model :: "duckdb \<Rightarrow> span_row list \<Rightarrow> string \<Rightarrow> model_row" where
  "summarize_model d rows model =
    (let g = filter (\<lambda>r. gen_ai_model d r = Some model) rows;
         durations = map row_duration_ns g;
         request_count = length g;
         input_tokens = token_sum d ''$.\"gen_ai.usage.input_tokens\"'' g;
         output_tokens = token_sum d ''$.\"gen_ai.usage.output_tokens\"'' g;
         total_duration_sec = py_div (double (of_int (sum_list durations))) 1000000000
     in \<lparr> md_model = model,
          md_request_count = request_count,
          md_total_input_tokens = input_tokens,
          md_total_output_tokens = output_tokens,
          md_total_tokens = input_tokens + output_tokens,
          md_tokens_per_sec = (if total_duration_sec > 0
            then py_round (py_div (double (of_int output_tokens)) total_duration_sec) 2 else 0),
          md_avg_latency_ms = py_round (py_div (avg_double d durations) 1000000) 2,
          md_p95_latency_ms = py_round (py_div (of_int (approx_quantile d durations)) 1000000) 2,
          md_error_count = error_spans g,
          md_error_rate = (if request_count > 0
            then py_round (py_div (of_nat (error_spans g)) (of_nat request_count)) 4 else 0) \<rparr>)"

definition models_query :: "duckdb \<Rightarrow> string option \<Rightarrow> span_row list \<Rightarrow> model_row list" where
  "models_query d project_id rows =
    (let selected = filter (\<lambda>r. gen_ai_model d r \<noteq> None) (where_project project_id rows)
     in sort_key (\<lambda>m. - int (md_request_count m))
          (map (summarize_model d selected) (group_order d (not_null (map (gen_ai_model d) selected)))))"

section \<open>Grouping\<close>

text \<open>What every client of a grouping relies on: each value once, and none else.\<close>

locale grouping =
  fixes order :: "'k list \<Rightarrow> 'k list"
  assumes distinct_order: "distinct (order vs)"
    and set_order: "set (order vs) = set vs"
begin

text \<open>A sum over the rows is the sum over the groups of the sums over their rows.\<close>

lemma sum_groups:
  fixes h :: "'r \<Rightarrow> 'n :: comm_monoid_add"
  shows "(\<Sum>k \<leftarrow> order (map f rows). \<Sum>r \<leftarrow> filter (\<lambda>r. f r = k) rows. h r) = (\<Sum>r \<leftarrow> rows. h r)"
proof -
  have "(\<Sum>k \<leftarrow> ks. \<Sum>r \<leftarrow> filter (\<lambda>r. f r = k) rs. h r) = (\<Sum>r \<leftarrow> rs. h r)"
    if "distinct ks" "f ` set rs \<subseteq> set ks" for ks and rs :: "'r list"
    using that(2)
  proof (induction rs)
    case (Cons r rs)
    have "(\<Sum>k \<leftarrow> ks. \<Sum>x \<leftarrow> filter (\<lambda>x. f x = k) (r # rs). h x) =
        (\<Sum>k \<leftarrow> ks. (if f r = k then h r else 0) + (\<Sum>x \<leftarrow> filter (\<lambda>x. f x = k) rs. h x))"
      by (rule arg_cong [of _ _ sum_list]) (simp add: map_eq_conv)
    also have "\<dots> = (\<Sum>k \<leftarrow> ks. if f r = k then h r else 0) + (\<Sum>x \<leftarrow> rs. h x)"
      using Cons by (simp add: sum_list_addf)
    also have "(\<Sum>k \<leftarrow> ks. if f r = k then h r else 0) = h r"
      using that(1) Cons.prems by (simp add: sum_list_distinct_conv_sum_set)
    finally show ?case by simp
  qed simp
  then show ?thesis by (simp add: distinct_order set_order)
qed

lemma length_groups: "(\<Sum>k \<leftarrow> order (map f rows). length (filter (\<lambda>r. f r = k) rows)) = length rows"
  using sum_groups [where f = f and rows = rows and h = "\<lambda>_. 1 :: nat"] by (simp add: sum_list_triv)

lemma length_order: "length (order vs) = length (remdups vs)"
  by (metis distinct_card distinct_order set_order length_remdups_card_conv)

lemma group_nonempty: "k \<in> set (order (map f rows)) \<Longrightarrow> filter (\<lambda>r. f r = k) rows \<noteq> []"
  by (auto simp: set_order filter_empty_conv)

end

text \<open>\<open>COUNT(DISTINCT \<dots>)\<close> and the groups of DuckDB.\<close>

interpretation sql_distinct: grouping remdups
  by unfold_locales simp_all

lemma sql_engine_grouping: "sql_engine d \<Longrightarrow> grouping (group_order d)"
  by unfold_locales (auto simp: sql_engine_def)

section \<open>Lemmas\<close>

lemma set_not_null: "set (not_null vs) = {v. Some v \<in> set vs}"
  by (force simp: not_null_def map_filter_def)

lemma not_null_map_filter: "not_null (map f (filter (\<lambda>r. f r \<noteq> None) rows)) = not_null (map f rows)"
  by (induction rows) (auto simp: not_null_def map_filter_def)

lemma not_null_the: "(\<forall>r \<in> set rows. f r \<noteq> None) \<Longrightarrow> not_null (map f rows) = map (\<lambda>r. the (f r)) rows"
  by (induction rows) (auto simp: not_null_def map_filter_def)

lemma error_spans_le: "error_spans rows \<le> length rows"
  by (simp add: error_spans_def)

lemma error_spans_sum: "error_spans rows = (\<Sum>r \<leftarrow> rows. if row_status_code r = 2 then 1 else 0)"
  by (induction rows) (auto simp: error_spans_def)

lemma truthy_Some [simp]: "truthy (Some s) \<longleftrightarrow> s \<noteq> []"
  by (simp add: truthy_def)

lemma truthy_None [simp]: "\<not> truthy None"
  by (simp add: truthy_def)

lemma where_project_None [simp]: "where_project None rows = rows"
  by (simp add: where_project_def)

lemma where_project_own: "p \<noteq> [] \<Longrightarrow> where_project (Some p) rows = filter (\<lambda>r. row_project_id r = Some p) rows"
  by (simp add: where_project_def)

lemma where_project_idem: "where_project p (where_project p rows) = where_project p rows"
  by (simp add: where_project_def)

lemma where_commute: "where_project p (filter P rows) = filter P (where_project p rows)"
  by (auto simp: where_project_def intro: filter_cong)

lemma where_service_own: "filter P (where_service s rows) = where_service s (filter P rows)"
  by (auto simp: where_service_def intro: filter_cong)

section \<open>Properties\<close>

lemma summary_fields:
  "tr_trace_id (summarize_trace d rows t) = t"
  "tr_span_count (summarize_trace d rows t) = length (filter (\<lambda>r. row_trace_id r = t) rows)"
  "tr_error_count (summarize_trace d rows t) = error_spans (filter (\<lambda>r. row_trace_id r = t) rows)"
  by (simp_all add: summarize_trace_def Let_def)

lemma take_sorted_desc:
  "x \<in> set (take n (sort_key (\<lambda>t. - f t :: int) xs)) \<Longrightarrow> y \<in> set (drop n (sort_key (\<lambda>t. - f t) xs)) \<Longrightarrow> f y \<le> f x"
proof -
  let ?s = "sort_key (\<lambda>t. - f t) xs"
  assume x: "x \<in> set (take n ?s)" and y: "y \<in> set (drop n ?s)"
  have "sorted (map (\<lambda>t. - f t) (take n ?s @ drop n ?s))" by simp
  then have "\<forall>x \<in> set (take n ?s). \<forall>y \<in> set (drop n ?s). - f x \<le> - f y"
    by (simp only: map_append sorted_append set_map) blast
  with x y show ?thesis by fastforce
qed

text \<open>\<open>MAX\<close> of a text column: the greatest text, NULL only if there is none.\<close>

definition greatest_text :: "string option list \<Rightarrow> string option \<Rightarrow> bool" where
  "greatest_text vs s \<longleftrightarrow> s \<in> insert None (set vs) \<and> (s = None \<longrightarrow> set vs \<subseteq> {None}) \<and>
     (\<forall>v \<in> set vs. \<forall>a b. v = Some a \<and> s = Some b \<longrightarrow> a \<le> b)"

lemma fold_max: "fold max ys (x :: 'a :: linorder) \<in> insert x (set ys) \<and> (\<forall>y \<in> insert x (set ys). y \<le> fold max ys x)"
proof (induction ys arbitrary: x)
  case (Cons y ys)
  from Cons [of "max y x"] show ?case by (auto simp: max_def split: if_splits intro: order_trans)
qed simp

lemma sql_max_text_greatest: "greatest_text vs (sql_max_text vs)"
proof (cases "not_null vs")
  case Nil
  then have "v = None" if "v \<in> set vs" for v
    using that set_not_null [of vs] by (cases v) auto
  with Nil show ?thesis by (auto simp: greatest_text_def sql_max_text_def)
next
  case (Cons x xs)
  have set: "{v. Some v \<in> set vs} = insert x (set xs)" using set_not_null [of vs] Cons by simp
  have s: "sql_max_text vs = Some (fold max (x # xs) x)" using Cons by (simp add: sql_max_text_def)
  have "fold max (x # xs) x \<in> {v. Some v \<in> set vs}" "\<forall>y \<in> {v. Some v \<in> set vs}. y \<le> fold max (x # xs) x"
    unfolding set using fold_max [of "x # xs" x] by auto
  with s show ?thesis by (auto simp: greatest_text_def)
qed

text \<open>The figures of a trace.\<close>

definition trace_figures :: "span_row list \<Rightarrow> trace_summary \<Rightarrow> bool" where
  "trace_figures g t \<longleftrightarrow> tr_span_count t = length g \<and> tr_error_count t = error_spans g \<and>
     (\<forall>r \<in> set g. tr_start_time_unix_nano t \<le> row_start_time_unix_nano r \<and>
        row_end_time_unix_nano r \<le> tr_end_time_unix_nano t) \<and>
     (\<exists>r \<in> set g. row_start_time_unix_nano r = tr_start_time_unix_nano t) \<and>
     (\<exists>r \<in> set g. row_end_time_unix_nano r = tr_end_time_unix_nano t) \<and>
     tr_wall_clock_duration_ns t = tr_end_time_unix_nano t - tr_start_time_unix_nano t \<and>
     tr_aggregate_span_duration_ns t = (\<Sum>r \<leftarrow> g. row_duration_ns r) \<and>
     greatest_text (map row_service_name g) (tr_service_name t) \<and>
     greatest_text (map row_project_id g) (tr_project_id t) \<and>
     distinct (tr_services t) \<and> set (tr_services t) = {s. s \<noteq> [] \<and> Some s \<in> row_service_name ` set g}"

lemma summarize_trace_figures:
  assumes sql: "sql_engine d" and g: "g = filter (\<lambda>r. row_trace_id r = k) rows" "g \<noteq> []"
  shows "trace_figures g (summarize_trace d rows k)"
proof -
  have "Min (row_start_time_unix_nano ` set g) \<in> row_start_time_unix_nano ` set g"
    "Max (row_end_time_unix_nano ` set g) \<in> row_end_time_unix_nano ` set g"
    using g(2) by (auto intro: Min_in Max_in)
  moreover have "distinct (group_order d vs)" "set (group_order d vs) = set vs" for vs
    using sql by (auto simp: sql_engine_def)
  ultimately show ?thesis
    unfolding trace_figures_def summarize_trace_def Let_def g(1) [symmetric]
    by (auto simp: sql_max_text_greatest set_not_null)
qed

text \<open>
  C26: The trace list.  The list has at most the limit of traces, each at most once, newest
  first; a listed trace starts no earlier than one that is left out; and its figures are those of
  exactly the selected rows with its identifier, of which there is at least one: the numbers of
  spans and errors, the first start and the last end and the time between them, the sum of the
  durations, the services (each once), and the greatest service and project.
\<close>

theorem traces_query_spec:
  assumes sql: "sql_engine d"
    and rows: "selected = where_service service (where_project project_id rows)"
    and result: "ts = traces_query d project_id service limit rows"
  shows "length ts = min limit (length (remdups (map row_trace_id selected))) \<and>
    distinct (map tr_trace_id ts) \<and>
    sorted_wrt (\<lambda>a b. tr_start_time_unix_nano b \<le> tr_start_time_unix_nano a) ts \<and>
    (\<forall>t \<in> set ts. let g = filter (\<lambda>r. row_trace_id r = tr_trace_id t) selected in g \<noteq> [] \<and> trace_figures g t) \<and>
    (\<forall>r \<in> set selected. (\<forall>t \<in> set ts. tr_trace_id t \<noteq> row_trace_id r) \<longrightarrow>
       (\<forall>t \<in> set ts. \<exists>q \<in> set selected. row_trace_id q = row_trace_id r \<and>
          row_start_time_unix_nano q \<le> tr_start_time_unix_nano t))"
proof -
  define ks where "ks = group_order d (map row_trace_id selected)"
  define s where "s = sort_key (\<lambda>t. - tr_start_time_unix_nano t) (map (summarize_trace d selected) ks)"
  have ts: "ts = take limit s" by (simp add: result traces_query_def rows s_def ks_def Let_def)
  note g = sql_engine_grouping [OF sql]
  have ids: "mset (map tr_trace_id s) = mset ks"
    unfolding s_def mset_map mset_sort by (simp add: summary_fields multiset.map_comp comp_def)
  have "distinct ks" by (simp add: ks_def grouping.distinct_order [OF g])
  with ids have dist: "distinct (map tr_trace_id s)" by (metis distinct_count_atmost_1 mset_eq_setD)
  have len: "length s = length (remdups (map row_trace_id selected))"
    by (simp add: s_def ks_def grouping.length_order [OF g])
  have sorted: "sorted_wrt (\<lambda>a b. tr_start_time_unix_nano b \<le> tr_start_time_unix_nano a) s"
    using sorted_sort_key [of "\<lambda>t. - tr_start_time_unix_nano t" "map (summarize_trace d selected) ks"]
    by (simp only: s_def sorted_map neg_le_iff_le)
  have one: "let g = filter (\<lambda>r. row_trace_id r = tr_trace_id t) selected in g \<noteq> [] \<and> trace_figures g t" if t: "t \<in> set ts" for t
  proof -
    have "t \<in> set s" using t ts by (metis in_set_takeD)
    then obtain k where k: "k \<in> set ks" "t = summarize_trace d selected k" by (auto simp: s_def)
    have ne: "filter (\<lambda>r. row_trace_id r = k) selected \<noteq> []"
      using k(1) grouping.group_nonempty [OF g] by (simp add: ks_def)
    from summarize_trace_figures [OF sql refl ne] ne show ?thesis by (simp add: k(2) summary_fields)
  qed
  have rest: "\<exists>q \<in> set selected. row_trace_id q = row_trace_id r \<and> row_start_time_unix_nano q \<le> tr_start_time_unix_nano t"
    if r: "r \<in> set selected" "\<forall>t \<in> set ts. tr_trace_id t \<noteq> row_trace_id r" and t: "t \<in> set ts" for r t
  proof -
    let ?u = "summarize_trace d selected (row_trace_id r)" and ?g = "filter (\<lambda>q. row_trace_id q = row_trace_id r) selected"
    have "row_trace_id r \<in> set ks" using r(1) by (simp add: ks_def grouping.set_order [OF g])
    then have "?u \<in> set s" by (simp add: s_def)
    moreover have "?u \<notin> set ts" using r(2) summary_fields(1) by fastforce
    ultimately have "?u \<in> set (drop limit s)" unfolding ts by (metis Un_iff append_take_drop_id set_append)
    with t have le: "tr_start_time_unix_nano ?u \<le> tr_start_time_unix_nano t"
      unfolding ts s_def by (intro take_sorted_desc)
    have "Min (set (map row_start_time_unix_nano ?g)) \<in> set (map row_start_time_unix_nano ?g)"
      using r(1) by (intro Min_in) auto
    then obtain q where "q \<in> set ?g" "row_start_time_unix_nano q = tr_start_time_unix_nano ?u"
      by (auto simp: summarize_trace_def Let_def)
    with le show ?thesis by (intro bexI [of _ q]) auto
  qed
  have "distinct (map tr_trace_id ts)" using dist by (simp add: ts take_map [symmetric])
  moreover have "length ts = min limit (length (remdups (map row_trace_id selected)))" by (simp add: ts len)
  moreover have "sorted_wrt (\<lambda>a b. tr_start_time_unix_nano b \<le> tr_start_time_unix_nano a) ts"
    using sorted by (simp add: ts sorted_wrt_take)
  ultimately show ?thesis using one rest by blast
qed

text \<open>A DuckDB that keeps the order of the rows and reads no JSON, and two spans.\<close>

definition sample_duck :: duckdb where
  "sample_duck = \<lparr> scan_order = (\<lambda>rows. rows), group_order = remdups,
     json_extract_string = (\<lambda>text path. if path = ''$.\"gen_ai.request.model\"'' then Some ''m'' else None),
     try_cast_bigint = (\<lambda>_. None), avg_double = (\<lambda>_. 0), approx_quantile = (\<lambda>_. 0), query_error = None \<rparr>"

definition sample_spans :: "span_row list" where
  "sample_spans = request_rows (sample_env (\<lambda>p. Parsed 1 [])) ''a.wal'' 0
     (sample_request [sample_span, sample_span\<lparr>sp_status_code := 2, sp_end_time_unix_nano := 50\<rparr>])"

lemma sample_duck_engine: "sql_engine sample_duck"
  by (simp add: sql_engine_def sample_duck_def)

theorem traces_query_spec_witness:
  "length (traces_query sample_duck None None 100 sample_spans) = 1 \<and>
     distinct (map tr_trace_id (traces_query sample_duck None None 100 sample_spans))"
proof -
  have "remdups (map row_trace_id (where_service None (where_project None sample_spans))) = [''01'']"
    by code_simp
  with traces_query_spec [OF sample_duck_engine refl refl,
      where service = None and project_id = None and rows = sample_spans and limit = 100] show ?thesis by simp
qed

lemma sum_sorted: "(\<Sum>x \<leftarrow> sort_key f xs. h x) = (\<Sum>x \<leftarrow> xs. h x :: 'n :: comm_monoid_add)"
  by (metis mset_map mset_sort sum_mset_sum_list)

text \<open>Without a limit that cuts, the listed traces are the groups of all selected rows.\<close>

lemma traces_all:
  assumes "sql_engine d" "length rows \<le> n"
  shows "traces_query d project_id None n rows =
    sort_key (\<lambda>t. - tr_start_time_unix_nano t) (map (summarize_trace d (where_project project_id rows))
      (group_order d (map row_trace_id (where_project project_id rows))))"
proof -
  let ?sel = "where_project project_id rows"
  have "length ?sel \<le> length rows" by (simp add: where_project_def)
  then have "length (group_order d (map row_trace_id ?sel)) \<le> n"
    using grouping.length_order [OF sql_engine_grouping [OF assms(1)], of "map row_trace_id ?sel"]
      length_remdups_leq [of "map row_trace_id ?sel"] assms(2) by simp
  then show ?thesis by (simp add: traces_query_def where_service_def Let_def)
qed

text \<open>
  C28: The overview agrees with the trace list.  For the same project filter the numbers of
  traces and spans are those of the complete trace list, the error rate is the share of error
  spans the list shows, rounded, and lies between 0 and 1; the tokens add up and no more
  requests than spans are counted as calls of a model.
\<close>

theorem overview_agrees_with_traces:
  assumes sql: "sql_engine d" and all: "length rows \<le> n"
    and results: "ov = overview_query d project_id rows" "ts = traces_query d project_id None n rows"
  shows "ov_total_traces ov = length ts \<and>
    ov_total_spans ov = (\<Sum>t \<leftarrow> ts. tr_span_count t) \<and>
    ov_error_rate ov = py_round (if ts = [] then 0
      else py_div (of_nat (\<Sum>t \<leftarrow> ts. tr_error_count t)) (of_nat (ov_total_spans ov))) 4 \<and>
    0 \<le> ov_error_rate ov \<and> ov_error_rate ov \<le> 1 \<and>
    ov_total_tokens ov = ov_total_input_tokens ov + ov_total_output_tokens ov \<and>
    ov_total_llm_requests ov \<le> ov_total_spans ov"
proof -
  let ?sel = "where_project project_id rows" and ?ks = "group_order d (map row_trace_id (where_project project_id rows))"
  note g = sql_engine_grouping [OF sql]
  note ts = results(2) [unfolded traces_all [OF sql all]]
  have spans: "(\<Sum>t \<leftarrow> ts. tr_span_count t) = length ?sel"
    by (simp add: ts sum_sorted comp_def summary_fields grouping.length_groups [OF g])
  have errors: "(\<Sum>t \<leftarrow> ts. tr_error_count t) = error_spans ?sel"
    unfolding ts sum_sorted map_map comp_def summary_fields error_spans_sum
    by (rule grouping.sum_groups [OF g])
  have traces: "length ts = length (remdups (map row_trace_id ?sel))"
    by (simp add: ts grouping.length_order [OF g])
  have empty: "ts = [] \<longleftrightarrow> ?sel = []"
    using traces by (metis length_0_conv map_is_Nil_conv remdups_eq_nil_iff)
  have "0 \<le> ov_error_rate ov \<and> ov_error_rate ov \<le> 1"
    using py_div_share [OF error_spans_le, of ?sel]
    by (auto simp: results overview_query_def Let_def intro!: py_round_share [THEN conjunct1] py_round_share [THEN conjunct2])
  moreover have "ov_total_llm_requests ov \<le> ov_total_spans ov"
    by (simp add: results overview_query_def Let_def)
  ultimately show ?thesis using spans errors traces empty
    by (simp add: results overview_query_def Let_def)
qed

theorem overview_agrees_with_traces_witness:
  "ov_total_traces (overview_query sample_duck None sample_spans) =
     length (traces_query sample_duck None None 2 sample_spans)"
proof -
  have "length sample_spans = 2" by code_simp
  with overview_agrees_with_traces [OF sample_duck_engine _ refl refl, where rows = sample_spans and n = 2] show ?thesis by simp
qed

lemma token_sum_rows:
  "token_sum d path rows = (\<Sum>r \<leftarrow> rows.
     case Option.bind (json_extract_string d (row_attributes_json r) path) (try_cast_bigint d) of None \<Rightarrow> 0 | Some i \<Rightarrow> i)"
  by (induction rows) (auto simp: token_sum_def not_null_def map_filter_def split: option.splits)

text \<open>The figures of a model, up to the rounding of \<open>round\<close> and of the doubles.\<close>

definition model_figures :: "duckdb \<Rightarrow> span_row list \<Rightarrow> model_row \<Rightarrow> bool" where
  "model_figures d g m \<longleftrightarrow> (let durations = map row_duration_ns g in
     md_request_count m = length g \<and> md_error_count m = error_spans g \<and>
     md_total_input_tokens m = token_sum d ''$.\"gen_ai.usage.input_tokens\"'' g \<and>
     md_total_output_tokens m = token_sum d ''$.\"gen_ai.usage.output_tokens\"'' g \<and>
     md_total_tokens m = md_total_input_tokens m + md_total_output_tokens m \<and>
     rounded 4 (md_error_rate m) (of_nat (md_error_count m) / of_nat (md_request_count m)) \<and>
     rounded 2 (md_avg_latency_ms m) (avg_double d durations / 10 ^ 6) \<and>
     rounded 2 (md_p95_latency_ms m) (of_int (approx_quantile d durations) / 10 ^ 6) \<and>
     (if 0 < sum_list durations
      then rounded 2 (md_tokens_per_sec m) (of_int (md_total_output_tokens m) / (of_int (sum_list durations) / 10 ^ 9))
      else md_tokens_per_sec m = 0))"

lemma summarize_model_figures:
  assumes g: "g = filter (\<lambda>r. gen_ai_model d r = Some k) rows" "g \<noteq> []"
  shows "md_model (summarize_model d rows k) = k \<and> model_figures d g (summarize_model d rows k)"
proof -
  let ?S = "sum_list (map row_duration_ns g)"
  let ?sec = "py_div (double (of_int ?S)) 1000000000"
  have "0 < ?sec \<longleftrightarrow> 0 < ?S"
  proof (cases "0 < ?S")
    case True
    then have "0 < (of_int ?S :: rat)" by simp
    from double_pos [OF this] have "0 < double (of_int ?S) / 1000000000" by simp
    then have "0 < ?sec" unfolding py_div_def by (rule double_pos)
    with True show ?thesis by simp
  next
    case False
    then have "(of_int ?S :: rat) \<le> 0" by simp
    from double_nonpos [OF this] have "double (of_int ?S) / 1000000000 \<le> 0" by (simp add: divide_le_0_iff)
    from double_nonpos [OF this] False show ?thesis by (simp add: py_div_def)
  qed
  moreover have "rounded 2 (py_round (py_div (double (of_int n)) ?sec) 2) (of_int n / (of_int ?S / 10 ^ 9))" if "0 < ?S" for n
    by (rule py_round_near) (use rate_near [of "of_int ?S" "10 ^ 9" "of_int n"] that in simp)
  moreover have "rounded k (py_round (py_div x y) k) (x / y)" for k x y by (rule py_round_near [OF py_div_near])
  moreover from this [of 2 _ "10 ^ 6"] have "rounded 2 (py_round (py_div x 1000000) 2) (x / 10 ^ 6)" for x by simp
  ultimately show ?thesis using g(2)
    unfolding model_figures_def summarize_model_def Let_def g(1) [symmetric] by simp
qed

text \<open>
  C29: The metrics per model.  Each model is listed once, by falling number of requests, with at
  least one, and with the figures of exactly its rows: the requests, the tokens, the error spans;
  the error rate to four decimals, between 0 and 1; the mean and the 95 percent latency that
  DuckDB computes of their durations, in milliseconds to two decimals; and the output tokens per
  second of their total duration, to two decimals, or 0 when there is none.  The requests add up
  to the selected rows that name a model, which the overview all counts, and the tokens to theirs.
\<close>

theorem models_query_spec:
  assumes sql: "sql_engine d" and result: "ms = models_query d project_id rows"
    and named: "named = filter (\<lambda>r. gen_ai_model d r \<noteq> None) (where_project project_id rows)"
  shows "distinct (map md_model ms) \<and> sorted_wrt (\<lambda>a b. md_request_count b \<le> md_request_count a) ms \<and>
    (\<Sum>m \<leftarrow> ms. md_request_count m) = length named \<and>
    length named \<le> ov_total_llm_requests (overview_query d project_id rows) \<and>
    (\<Sum>m \<leftarrow> ms. md_total_tokens m) =
      token_sum d ''$.\"gen_ai.usage.input_tokens\"'' named + token_sum d ''$.\"gen_ai.usage.output_tokens\"'' named \<and>
    (\<forall>m \<in> set ms. 0 < md_request_count m \<and> 0 \<le> md_error_rate m \<and> md_error_rate m \<le> 1 \<and>
       model_figures d (filter (\<lambda>r. gen_ai_model d r = Some (md_model m)) named) m)"
proof -
  let ?model = "\<lambda>r. the (gen_ai_model d r)"
  define ks where "ks = group_order d (map ?model named)"
  note g = sql_engine_grouping [OF sql]
  have nn: "not_null (map (gen_ai_model d) named) = map ?model named"
    by (rule not_null_the) (simp add: named)
  have ms: "ms = sort_key (\<lambda>m. - int (md_request_count m)) (map (summarize_model d named) ks)"
    unfolding result models_query_def Let_def named [symmetric] nn ks_def by (rule refl)
  have grp: "filter (\<lambda>r. gen_ai_model d r = Some k) named = filter (\<lambda>r. ?model r = k) named" for k
    by (rule filter_cong) (auto simp: named)
  have ids: "mset (map md_model ms) = mset ks"
    unfolding ms mset_map mset_sort by (simp add: summarize_model_def Let_def multiset.map_comp comp_def)
  have "distinct ks" by (simp add: ks_def grouping.distinct_order [OF g])
  with ids have dist: "distinct (map md_model ms)" by (metis distinct_count_atmost_1 mset_eq_setD)
  have sorted: "sorted_wrt (\<lambda>a b. md_request_count b \<le> md_request_count a) ms"
    using sorted_sort_key [of "\<lambda>m. - int (md_request_count m)" "map (summarize_model d named) ks"]
    by (simp only: ms sorted_map neg_le_iff_le of_nat_le_iff)
  have count: "(\<Sum>m \<leftarrow> ms. md_request_count m) = length named"
    by (simp add: ms sum_sorted comp_def summarize_model_def Let_def grp ks_def grouping.length_groups [OF g])
  have tokens: "(\<Sum>k \<leftarrow> ks. token_sum d path (filter (\<lambda>r. ?model r = k) named)) = token_sum d path named" for path
    unfolding token_sum_rows ks_def by (rule grouping.sum_groups [OF g])
  have total: "(\<Sum>m \<leftarrow> ms. md_total_tokens m) =
      token_sum d ''$.\"gen_ai.usage.input_tokens\"'' named + token_sum d ''$.\"gen_ai.usage.output_tokens\"'' named"
    by (simp add: ms sum_sorted comp_def summarize_model_def Let_def grp sum_list_addf tokens)
  have le: "length named \<le> ov_total_llm_requests (overview_query d project_id rows)"
  proof -
    have "length (filter (\<lambda>r. gen_ai_model d r \<noteq> None) rs) \<le> length (filter (is_llm_request d) rs)" for rs
      by (induction rs) (auto simp: is_llm_request_def)
    then show ?thesis by (simp add: overview_query_def Let_def named)
  qed
  have one: "0 < md_request_count m \<and> 0 \<le> md_error_rate m \<and> md_error_rate m \<le> 1 \<and>
      model_figures d (filter (\<lambda>r. gen_ai_model d r = Some (md_model m)) named) m" if m: "m \<in> set ms" for m
  proof -
    from m obtain k where k: "k \<in> set ks" "m = summarize_model d named k" by (auto simp: ms)
    then have ne: "filter (\<lambda>r. gen_ai_model d r = Some k) named \<noteq> []"
      using grouping.group_nonempty [OF g] by (simp add: ks_def grp)
    have "0 \<le> py_round (py_div (of_nat (error_spans gs)) (of_nat (length gs))) 4 \<and>
        py_round (py_div (of_nat (error_spans gs)) (of_nat (length gs))) 4 \<le> 1" for gs
      using py_div_share [OF error_spans_le, of gs] by (intro py_round_share) simp_all
    then have "0 \<le> md_error_rate m \<and> md_error_rate m \<le> 1" by (simp add: k(2) summarize_model_def Let_def)
    moreover have "0 < md_request_count m" using ne by (simp add: k(2) summarize_model_def Let_def)
    ultimately show ?thesis using summarize_model_figures [OF refl ne] by (simp add: k(2))
  qed
  show ?thesis using dist sorted count total le one by blast
qed

theorem models_query_spec_witness:
  "(\<Sum>m \<leftarrow> models_query sample_duck None sample_spans. md_request_count m) = 2"
proof -
  have "length (filter (\<lambda>r. gen_ai_model sample_duck r \<noteq> None) (where_project None sample_spans)) = 2" by code_simp
  with models_query_spec [OF sample_duck_engine refl refl, of None sample_spans] show ?thesis by simp
qed

end
