(* ===== verification/Api.thy ===== *)
theory Api
  imports Materialize Queries
begin

text \<open>
  The HTTP API of backend/app/main.py: \<open>create_app\<close> with the authentication of callers, every
  endpoint, the handler of uncaught exceptions, and the start and background worker of
  \<open>lifespan\<close>.  An endpoint is a function of the caller's identity, the parameters of the request
  and the world; it returns its answer or the exception it raises.

  SHA-256, the size of a file on disk, DuckDB and what sqlite3 raises are parameters.
\<close>

section \<open>Exceptions and answers\<close>

text \<open>\<open>HTTPException(status_code, detail)\<close>, or any other exception.\<close>

datatype http_raise = Http_Exception nat string | Unhandled exn

type_synonym 'a answer = "http_raise + 'a"

text \<open>The response: FastAPI's for an \<open>HTTPException\<close>, \<open>global_exception_handler\<close> for the rest.\<close>

fun respond :: "nat \<Rightarrow> 'a answer \<Rightarrow> nat \<times> (string + 'a)" where
  "respond success (Inr content) = (success, Inr content)"
| "respond success (Inl (Http_Exception code detail)) = (code, Inl detail)"
| "respond success (Inl (Unhandled e)) = (500, Inl ''Internal server error'')"

record api_env =
  sha256_hex :: "byte list \<Rightarrow> string"
  sqlite_error :: "exn option"
  parquet_size :: "string \<Rightarrow> nat"
  duck :: duckdb

definition control_db :: "api_env \<Rightarrow> world \<Rightarrow> exn + control_store" where
  "control_db api w = (case sqlite_error api of Some e \<Rightarrow> Inl e | None \<Rightarrow> Inr (control w))"

section \<open>Authentication\<close>

record auth_identity =
  is_admin :: bool
  auth_project_id :: "string option"

text \<open>The token of a request: the header \<open>X-API-Key\<close>, else a bearer token.\<close>

definition bearer_token :: "string option \<Rightarrow> string option \<Rightarrow> string option" where
  "bearer_token x_api_key authorization =
     (if \<not> truthy x_api_key \<and> truthy authorization \<and> starts_with ''Bearer '' (the authorization)
      then Some (py_strip (drop 7 (the authorization))) else x_api_key)"

definition get_auth_identity :: "settings \<Rightarrow> api_env \<Rightarrow> string option \<Rightarrow> string option \<Rightarrow> world \<Rightarrow> auth_identity answer" where
  "get_auth_identity st api x_api_key authorization w =
    (let token = bearer_token x_api_key authorization;
         admin = \<lparr> is_admin = True, auth_project_id = None \<rparr>
     in if \<not> require_auth st \<and> \<not> truthy (api_key st) \<and> \<not> truthy token then Inr admin
        else let token = (if truthy token then Some (py_strip (the token)) else token)
        in if truthy (api_key st) \<and> truthy token \<and> token = api_key st then Inr admin
        else let matched_project = (if truthy token
                then verify_project_credential (sha256_hex api) (control_db api w) (the token) else None)
        in if truthy matched_project
           then Inr \<lparr> is_admin = False, auth_project_id = matched_project \<rparr>
           else if require_auth st \<or> truthy token \<or> truthy (api_key st)
           then Inl (Http_Exception 401 ''Invalid or missing API key'')
           else Inr admin)"

text \<open>
  The tenant guard at the head of the query endpoints: the project filter of a caller with a
  project key is that project.
\<close>

definition tenant_filter :: "auth_identity \<Rightarrow> string option \<Rightarrow> string option answer" where
  "tenant_filter auth project_id =
    (if \<not> is_admin auth
     then if truthy project_id \<and> project_id \<noteq> auth_project_id auth
          then Inl (Http_Exception 403 ''Cross-project access forbidden'')
          else Inr (auth_project_id auth)
     else Inr project_id)"

definition require_admin :: "auth_identity \<Rightarrow> unit answer" where
  "require_admin auth =
    (if \<not> is_admin auth then Inl (Http_Exception 403 ''Admin authorization required'') else Inr ())"

section \<open>Health and status\<close>

definition health :: "string answer" where
  "health = Inr ''ok''"

record system_report =
  rp_status :: string
  rp_segment_count :: nat
  rp_total_wal_bytes :: nat
  rp_fully_materialized_segments :: nat
  rp_file_count :: nat
  rp_total_parquet_bytes :: nat
  rp_total_corruption_events :: nat
  rp_recent_corruptions :: "corruption_row list"
  rp_projects_count :: nat

definition system_status :: "api_env \<Rightarrow> world \<Rightarrow> system_report answer" where
  "system_status api w =
    (let wal_files = filter (\<lambda>(f, _). ends_with ''.wal'' f) (wal_dir w);
         committed_files = get_committed_parquet_files (control_db api w) (parquet_dir w)
     in case control_db api w of
       Inl e \<Rightarrow> Inl (Http_Exception 500 ''Failed to retrieve system status'')
     | Inr db \<Rightarrow>
         (let total_corruptions = length (wal_corruption_events db) in Inr
          \<lparr> rp_status = (if total_corruptions = 0 then ''healthy'' else ''degraded''),
            rp_segment_count = length wal_files,
            rp_total_wal_bytes = (\<Sum>(_, content) \<leftarrow> wal_files. length content),
            rp_fully_materialized_segments =
              length (filter (\<lambda>(_, row). is_fully_processed row) (materialized_wal_offsets db)),
            rp_file_count = length committed_files,
            rp_total_parquet_bytes = (\<Sum>f \<leftarrow> committed_files. parquet_size api f),
            rp_total_corruption_events = total_corruptions,
            rp_recent_corruptions = take 10 (rev (wal_corruption_events db)),
            rp_projects_count = length (projects db) \<rparr>))"

section \<open>Operations on the storage\<close>

text \<open>\<open>except Exception as error: raise HTTPException(500, f"\<dots>: {str(error)}")\<close>\<close>

definition or_500 :: "string \<Rightarrow> (exn + 'a) \<times> world \<Rightarrow> 'a answer \<times> world" where
  "or_500 prefix = (\<lambda>(result, w).
    ((case result of Inl e \<Rightarrow> Inl (Http_Exception 500 (prefix @ exn_message e)) | Inr x \<Rightarrow> Inr x), w))"

definition run_materializer :: "settings \<Rightarrow> env \<Rightarrow> agent \<Rightarrow> (world, http_raise, nat) eff" where
  "run_materializer st ev a w = or_500 ''Materialization failed: '' (materialize st ev a w)"

definition run_compaction :: "env \<Rightarrow> agent \<Rightarrow> auth_identity \<Rightarrow> (world, http_raise, nat) eff" where
  "run_compaction ev a auth w =
    (case require_admin auth of
       Inl e \<Rightarrow> (Inl e, w)
     | Inr _ \<Rightarrow> or_500 ''Compaction failed: '' (compact_parquet_files ev a 20 w))"

definition run_wal_cleanup :: "env \<Rightarrow> agent \<Rightarrow> auth_identity \<Rightarrow> (world, http_raise, string list \<times> nat) eff" where
  "run_wal_cleanup ev a auth w =
    (case require_admin auth of
       Inl e \<Rightarrow> (Inl e, w)
     | Inr _ \<Rightarrow> or_500 ''WAL cleanup failed: ''
         (case cleanup_materialized_wal_files ev a w of
            (Inl e, w') \<Rightarrow> (Inl e, w') | (Inr deleted, w') \<Rightarrow> (Inr (deleted, length deleted), w')))"

section \<open>Queries\<close>

text \<open>The rows of the committed files, and whether there is any such file.\<close>

definition committed_files :: "api_env \<Rightarrow> world \<Rightarrow> string list" where
  "committed_files api w = get_committed_parquet_files (control_db api w) (parquet_dir w)"

definition read_parquet :: "world \<Rightarrow> string list \<Rightarrow> span_row list" where
  "read_parquet w files = concat (map (\<lambda>f. the (map_of (parquet_dir w) f)) files)"

text \<open>\<open>Query(ge=1, le=1000)\<close>\<close>

definition limit_ok :: "int \<Rightarrow> bool" where
  "limit_ok limit \<longleftrightarrow> 1 \<le> limit \<and> limit \<le> 1000"

definition list_traces :: "api_env \<Rightarrow> int \<Rightarrow> string option \<Rightarrow> string option \<Rightarrow> auth_identity \<Rightarrow> world \<Rightarrow>
    trace_summary list answer" where
  "list_traces api limit project_id service auth w =
    (case tenant_filter auth project_id of
       Inl e \<Rightarrow> Inl e
     | Inr project_id \<Rightarrow>
         (let files = committed_files api w in
          if files = [] then Inr []
          else case query_error (duck api) of
            Some e \<Rightarrow> Inl (Http_Exception 500 ''Failed to query traces'')
          | None \<Rightarrow> Inr (traces_query (duck api) project_id service (nat limit) (read_parquet w files))))"

definition get_trace :: "api_env \<Rightarrow> string \<Rightarrow> string option \<Rightarrow> auth_identity \<Rightarrow> world \<Rightarrow> span_row list answer" where
  "get_trace api trace_id project_id auth w =
    (case tenant_filter auth project_id of
       Inl e \<Rightarrow> Inl e
     | Inr project_id \<Rightarrow>
         (let files = committed_files api w in
          if files = [] then Inl (Http_Exception 404 ''trace not found'')
          else case query_error (duck api) of
            Some e \<Rightarrow> Inl (Http_Exception 500 ''Failed to query trace'')
          | None \<Rightarrow>
              (let rows = trace_query (duck api) project_id trace_id (read_parquet w files) in
               if rows = [] then Inl (Http_Exception 404 ''trace not found'') else Inr rows)))"

definition analytics_overview :: "api_env \<Rightarrow> string option \<Rightarrow> auth_identity \<Rightarrow> world \<Rightarrow> overview answer" where
  "analytics_overview api project_id auth w =
    (case tenant_filter auth project_id of
       Inl e \<Rightarrow> Inl e
     | Inr project_id \<Rightarrow>
         (let files = committed_files api w in
          if files = [] then Inr empty_overview
          else case query_error (duck api) of
            Some e \<Rightarrow> Inl (Http_Exception 500 ''Failed to compute analytics overview'')
          | None \<Rightarrow> Inr (overview_query (duck api) project_id (read_parquet w files))))"

definition analytics_models :: "api_env \<Rightarrow> string option \<Rightarrow> auth_identity \<Rightarrow> world \<Rightarrow> model_row list answer" where
  "analytics_models api project_id auth w =
    (case tenant_filter auth project_id of
       Inl e \<Rightarrow> Inl e
     | Inr project_id \<Rightarrow>
         (let files = committed_files api w in
          if files = [] then Inr []
          else case query_error (duck api) of
            Some e \<Rightarrow> Inl (Http_Exception 500 ''Failed to compute model analytics'')
          | None \<Rightarrow> Inr (models_query (duck api) project_id (read_parquet w files))))"

section \<open>Projects\<close>

record project_create =
  pc_id :: string
  pc_name :: string
  pc_api_key :: "string option"

record project_created =
  pr_id :: string
  pr_name :: string
  pr_api_key :: string

text \<open>The field constraints of \<open>ProjectCreate\<close>.\<close>

definition valid_project :: "project_create \<Rightarrow> bool" where
  "valid_project p \<longleftrightarrow> 1 \<le> length (pc_id p) \<and> length (pc_id p) \<le> 64 \<and>
     1 \<le> length (pc_name p) \<and> length (pc_name p) \<le> 200 \<and>
     (case pc_api_key p of None \<Rightarrow> True | Some k \<Rightarrow> length k \<le> 128)"

definition list_projects :: "api_env \<Rightarrow> auth_identity \<Rightarrow> world \<Rightarrow> (string \<times> string) list answer" where
  "list_projects api auth w =
    (case control_db api w of
       Inl e \<Rightarrow> Inl (Http_Exception 500 ''Failed to list projects'')
     | Inr db \<Rightarrow>
         (let rows = (if is_admin auth then projects db
                      else filter (\<lambda>(id, _). Some id = auth_project_id auth) (projects db))
          in Inr (map (\<lambda>(id, row). (id, proj_name row)) rows)))"

text \<open>\<open>token_urlsafe\<close> is the random text of a generated key.\<close>

definition create_project :: "api_env \<Rightarrow> string \<Rightarrow> project_create \<Rightarrow> auth_identity \<Rightarrow>
    (world, http_raise, project_created) eff" where
  "create_project api token_urlsafe project auth w =
    (case require_admin auth of
       Inl e \<Rightarrow> (Inl e, w)
     | Inr _ \<Rightarrow>
         (let raw_key = (if truthy (pc_api_key project) then py_strip (the (pc_api_key project))
                         else generate_api_key token_urlsafe);
              key_hash = hash_api_key (sha256_hex api) raw_key
          in case control_db api w of
            Inl (Integrity_Error _) \<Rightarrow> (Inl (Http_Exception 409 ''project already exists''), w)
          | Inl _ \<Rightarrow> (Inl (Http_Exception 500 ''Failed to create project''), w)
          | Inr db \<Rightarrow>
             (case tbl_insert (pc_id project)
                 \<lparr> proj_name = pc_name project, api_key_hash = Some key_hash \<rparr> (projects db) of
               None \<Rightarrow> (Inl (Http_Exception 409 ''project already exists''), w)
             | Some t \<Rightarrow> (Inr \<lparr> pr_id = pc_id project, pr_name = pc_name project, pr_api_key = raw_key \<rparr>,
                 w\<lparr>control := db\<lparr>projects := t\<rparr>\<rparr>))))"

section \<open>Start and background worker\<close>

text \<open>\<open>lifespan\<close> up to its \<open>yield\<close>: the schema, then the orphans of an earlier crash.\<close>

definition lifespan_start :: "env \<Rightarrow> exn option \<Rightarrow> exn option \<Rightarrow> (schema \<times> world, exn, unit) eff" where
  "lifespan_start ev mkdir_error connect_error = (\<lambda>(db, w).
    (case initialize_control_store mkdir_error connect_error db of
       (Inl e, db') \<Rightarrow> (Inl e, (db', w))
     | (Inr _, db') \<Rightarrow> (Inr (), (db', snd (cleanup_orphaned_parquet_files ev (manifest_error ev) w)))))"

text \<open>
  \<open>_materialize_loop\<close>, given how often it finds the stop event unset: an exception of a run is
  logged, and the loop goes on.
\<close>

primrec materialize_loop :: "settings \<Rightarrow> env \<Rightarrow> agent \<Rightarrow> nat \<Rightarrow> world \<Rightarrow> world" where
  "materialize_loop st ev a 0 w = w"
| "materialize_loop st ev a (Suc n) w = materialize_loop st ev a n (snd (materialize st ev a w))"

definition background_worker :: "settings \<Rightarrow> env \<Rightarrow> agent \<Rightarrow> nat \<Rightarrow> world \<Rightarrow> world" where
  "background_worker st ev a n w =
     (if float_positive (materialize_interval_seconds st) then materialize_loop st ev a n w else w)"

section \<open>The application\<close>

text \<open>The requests the application routes, with what FastAPI reads from path, query and body.\<close>

datatype request =
    Get_Health
  | Get_System_Status
  | Post_Materialize
  | Post_Compact
  | Post_Wal_Cleanup
  | Get_Traces int "string option" "string option"
  | Get_Trace string "string option"
  | Get_Projects
  | Post_Projects project_create string
  | Get_Overview "string option"
  | Get_Models "string option"

datatype content =
    Health_Content string
  | Status_Content system_report
  | Count_Content nat
  | Deleted_Content "string list" nat
  | Traces_Content "trace_summary list"
  | Spans_Content "span_row list"
  | Projects_Content "(string \<times> string) list"
  | Created_Content project_created
  | Overview_Content overview
  | Models_Content "model_row list"

text \<open>What FastAPI validates before an endpoint runs, and refuses with 422.\<close>

fun valid_request :: "request \<Rightarrow> bool" where
  "valid_request (Get_Traces limit _ _) = limit_ok limit"
| "valid_request (Post_Projects project _) = valid_project project"
| "valid_request _ = True"

definition reply :: "nat \<Rightarrow> ('a \<Rightarrow> content) \<Rightarrow> 'a answer \<Rightarrow> nat \<times> (string + content)" where
  "reply success f result = respond success (map_sum (\<lambda>e. e) f result)"

fun handle :: "settings \<Rightarrow> env \<Rightarrow> api_env \<Rightarrow> agent \<Rightarrow> request \<Rightarrow> auth_identity \<Rightarrow> world \<Rightarrow>
    (nat \<times> (string + content)) \<times> world" where
  "handle st ev api a Get_Health auth w = (reply 200 Health_Content health, w)"
| "handle st ev api a Get_System_Status auth w = (reply 200 Status_Content (system_status api w), w)"
| "handle st ev api a Post_Materialize auth w =
     apfst (reply 200 Count_Content) (run_materializer st ev a w)"
| "handle st ev api a Post_Compact auth w =
     apfst (reply 200 Count_Content) (run_compaction ev a auth w)"
| "handle st ev api a Post_Wal_Cleanup auth w =
     apfst (reply 200 (\<lambda>(deleted, n). Deleted_Content deleted n)) (run_wal_cleanup ev a auth w)"
| "handle st ev api a (Get_Traces limit project_id service) auth w =
     (reply 200 Traces_Content (list_traces api limit project_id service auth w), w)"
| "handle st ev api a (Get_Trace trace_id project_id) auth w =
     (reply 200 Spans_Content (get_trace api trace_id project_id auth w), w)"
| "handle st ev api a Get_Projects auth w = (reply 200 Projects_Content (list_projects api auth w), w)"
| "handle st ev api a (Post_Projects project token) auth w =
     apfst (reply 201 Created_Content) (create_project api token project auth w)"
| "handle st ev api a (Get_Overview project_id) auth w =
     (reply 200 Overview_Content (analytics_overview api project_id auth w), w)"
| "handle st ev api a (Get_Models project_id) auth w =
     (reply 200 Models_Content (analytics_models api project_id auth w), w)"

text \<open>
  One request: \<open>Depends(get_auth_identity)\<close> for every endpoint but the health check, whose
  exception comes before a failed validation, then the endpoint.
\<close>

definition serve :: "settings \<Rightarrow> env \<Rightarrow> api_env \<Rightarrow> agent \<Rightarrow> string option \<Rightarrow> string option \<Rightarrow> request \<Rightarrow> world \<Rightarrow>
    (nat \<times> (string + content)) \<times> world" where
  "serve st ev api a x_api_key authorization request w =
    (if request = Get_Health then (reply 200 Health_Content health, w)
     else case get_auth_identity st api x_api_key authorization w of
       Inl e \<Rightarrow> (respond 200 (Inl e), w)
     | Inr auth \<Rightarrow>
         if valid_request request then handle st ev api a request auth w
         else ((422, Inl ''Unprocessable Entity''), w))"

end
