(* ===== verification/Access.thy ===== *)
theory Access
  imports Api Retention
begin

text \<open>
  The properties of the HTTP API: who is authenticated as whom, the isolation of the tenants,
  the operations reserved for the administrator, the life of a project key, and what the
  endpoints show of the storage engine.
\<close>

section \<open>Authentication\<close>

text \<open>The token a request presents, or the empty text.\<close>

definition presented :: "string option \<Rightarrow> string option \<Rightarrow> string" where
  "presented x_api_key authorization =
     (case bearer_token x_api_key authorization of None \<Rightarrow> [] | Some t \<Rightarrow> py_strip t)"

lemma py_strip_Nil [simp]: "py_strip [] = []"
  by (simp add: py_strip_def)

lemma verify_strip [simp]: "verify_project_credential sha db (py_strip t) = verify_project_credential sha db t"
  by (auto simp: verify_project_credential_def)

lemma get_auth_identity_presented:
  assumes "require_auth st \<or> truthy (api_key st)"
  shows "get_auth_identity st api x a w =
    (let t = presented x a; p = verify_project_credential (sha256_hex api) (control_db api w) t in
     if t \<noteq> [] \<and> api_key st = Some t then Inr \<lparr> is_admin = True, auth_project_id = None \<rparr>
     else if truthy p then Inr \<lparr> is_admin = False, auth_project_id = p \<rparr>
     else Inl (Http_Exception 401 ''Invalid or missing API key''))"
proof (cases "truthy (bearer_token x a)")
  case True
  then obtain t where t: "bearer_token x a = Some t" "t \<noteq> []" by (cases "bearer_token x a") auto
  have none: "verify_project_credential (sha256_hex api) (control_db api w) [] = None"
    by (simp add: verify_project_credential_def)
  show ?thesis
    using assms t none by (cases "py_strip t = []") (auto simp: get_auth_identity_def presented_def Let_def)
next
  case False
  then have "bearer_token x a = None \<or> bearer_token x a = Some []" by (auto simp: truthy_def)
  then have "presented x a = []" by (auto simp: presented_def)
  with assms False show ?thesis by (simp add: get_auth_identity_def Let_def verify_project_credential_def)
qed

text \<open>
  C8: Who is authenticated.  If authentication is required and an administrator key is set, a
  request is answered as the administrator exactly when the token it presents is that key, as
  a project exactly when it is another token that the project's stored hash accepts, and
  otherwise with 401; a database that cannot be read lets no project in.
\<close>

theorem authentication_exact:
  assumes "require_auth st" "api_key st = Some k" "k \<noteq> []"
  shows "(get_auth_identity st api x a w = Inr \<lparr> is_admin = True, auth_project_id = None \<rparr> \<longleftrightarrow> presented x a = k) \<and>
    (get_auth_identity st api x a w = Inr \<lparr> is_admin = False, auth_project_id = Some p \<rparr> \<longleftrightarrow>
       presented x a \<noteq> k \<and> p \<noteq> [] \<and>
       verify_project_credential (sha256_hex api) (control_db api w) (presented x a) = Some p) \<and>
    (get_auth_identity st api x a w \<in> {Inl (Http_Exception 401 ''Invalid or missing API key''),
       Inr \<lparr> is_admin = True, auth_project_id = None \<rparr>} \<or>
     (\<exists>q. get_auth_identity st api x a w = Inr \<lparr> is_admin = False, auth_project_id = Some q \<rparr>)) \<and>
    (sqlite_error api \<noteq> None \<longrightarrow> get_auth_identity st api x a w \<noteq> Inr \<lparr> is_admin = False, auth_project_id = Some p \<rparr>)"
proof -
  have "verify_project_credential sha (Inl e) t = None" for sha e t
    by (simp add: verify_project_credential_def Let_def)
  moreover have "truthy q \<longleftrightarrow> (\<exists>s. q = Some s \<and> s \<noteq> [])" for q by (cases q) auto
  ultimately show ?thesis
    using assms get_auth_identity_presented [of st api x a w]
    by (auto simp: Let_def control_db_def)
qed

section \<open>Sample values\<close>

definition sample_api :: api_env where
  "sample_api = \<lparr> sha256_hex = sample_sha, sqlite_error = None, parquet_size = (\<lambda>_. 1), duck = sample_duck \<rparr>"

definition secured :: settings where
  "secured = sample_settings\<lparr>api_key := Some ''adm'', require_auth := True\<rparr>"

definition two_tenants :: world where
  "two_tenants = (fresh_world [])\<lparr>control := sample_store\<rparr>"

theorem authentication_exact_witness:
  "get_auth_identity secured sample_api None (Some ''Bearer adm'') two_tenants =
     Inr \<lparr> is_admin = True, auth_project_id = None \<rparr> \<and>
   get_auth_identity secured sample_api (Some '' kb'') None two_tenants =
     Inr \<lparr> is_admin = False, auth_project_id = Some ''b'' \<rparr>"
proof -
  have "require_auth secured" "api_key secured = Some ''adm''" by (simp_all add: secured_def)
  note exact = authentication_exact [OF this, simplified]
  have "presented None (Some ''Bearer adm'') = ''adm''" by code_simp
  moreover have "presented (Some '' kb'') None = ''kb''" by code_simp
  moreover have "verify_project_credential (sha256_hex sample_api) (control_db sample_api two_tenants) ''kb'' = Some ''b''"
    by code_simp
  ultimately show ?thesis using exact [of sample_api None "Some ''Bearer adm''"] exact [of sample_api "Some '' kb''" None _ "''b''"]
    by simp
qed

section \<open>Tenant isolation\<close>

text \<open>The rows of a project among those that queries can see.\<close>

definition own_rows :: "string \<Rightarrow> world \<Rightarrow> span_row list" where
  "own_rows p w = filter (\<lambda>r. row_project_id r = Some p) (visible_rows w)"

definition tenant :: "string \<Rightarrow> auth_identity" where
  "tenant p = \<lparr> is_admin = False, auth_project_id = Some p \<rparr>"

lemma tenant_filter_cases:
  assumes "p \<noteq> []"
  shows "tenant_filter (tenant p) project_id = Inr (Some p) \<or>
    tenant_filter (tenant p) project_id = Inl (Http_Exception 403 ''Cross-project access forbidden'')"
  by (simp add: tenant_filter_def tenant_def)

lemma committed_files_ok:
  "sqlite_error api = None \<Longrightarrow> read_parquet w (committed_files api w) = visible_rows w"
  by (simp add: committed_files_def control_db_def read_parquet_def visible_rows_def)

lemma no_files_no_rows: "sqlite_error api = None \<Longrightarrow> committed_files api w = [] \<Longrightarrow> visible_rows w = []"
  using committed_files_ok [of api w] by (simp add: read_parquet_def)

lemma no_files: "sqlite_error api = Some e \<Longrightarrow> committed_files api w = []"
  by (simp add: committed_files_def control_db_def get_committed_parquet_files_def)

text \<open>The queries see the rows of the filter only.\<close>

lemma query_where:
  "traces_query d p s n (where_project p rows) = traces_query d p s n rows"
  "trace_query d p t (where_project p rows) = trace_query d p t rows"
  "overview_query d p (where_project p rows) = overview_query d p rows"
  "models_query d p (where_project p rows) = models_query d p rows"
  by (simp_all add: traces_query_def trace_query_def overview_query_def models_query_def where_project_idem
      where_commute)

lemma empty_queries:
  assumes "sql_engine d"
  shows "traces_query d p s n [] = []" "trace_query d p t [] = []" "overview_query d p [] = empty_overview"
    "models_query d p [] = []"
proof -
  have e: "group_order d [] = []" "scan_order d [] = []"
    using assms unfolding sql_engine_def by (metis empty_set set_empty, metis mset_zero_iff mset.simps(1))
  have z: "py_round 0 4 = 0" by code_simp
  show "traces_query d p s n [] = []" "trace_query d p t [] = []" "overview_query d p [] = empty_overview"
    "models_query d p [] = []"
    by (simp_all add: traces_query_def where_project_def where_service_def trace_query_def overview_query_def
        models_query_def empty_overview_def e Let_def token_sum_def not_null_def error_spans_def z)
qed

text \<open>The answer of a query endpoint whose caller may see the rows with a filter, one definition for the four.\<close>

lemma query_endpoints:
  assumes sql: "sql_engine (duck api)" and ok: "sqlite_error api = None" "query_error (duck api) = None"
    and f: "tenant_filter auth project_id = Inr p"
  shows "list_traces api limit project_id service auth w =
      Inr (traces_query (duck api) p service (nat limit) (where_project p (visible_rows w)))"
    and "get_trace api t project_id auth w =
      (let rows = trace_query (duck api) p t (where_project p (visible_rows w)) in
       if rows = [] then Inl (Http_Exception 404 ''trace not found'') else Inr rows)"
    and "analytics_overview api project_id auth w =
      Inr (overview_query (duck api) p (where_project p (visible_rows w)))"
    and "analytics_models api project_id auth w =
      Inr (models_query (duck api) p (where_project p (visible_rows w)))"
proof -
  have none: "visible_rows w = []" if "committed_files api w = []"
    using that ok no_files_no_rows by blast
  note e = empty_queries [OF sql]
  note simps = f ok(2) query_where committed_files_ok [OF ok(1)] Let_def
  show "list_traces api limit project_id service auth w =
      Inr (traces_query (duck api) p service (nat limit) (where_project p (visible_rows w)))"
    using none e by (auto simp: list_traces_def simps)
  show "get_trace api t project_id auth w =
      (let rows = trace_query (duck api) p t (where_project p (visible_rows w)) in
       if rows = [] then Inl (Http_Exception 404 ''trace not found'') else Inr rows)"
    using none e by (auto simp: get_trace_def simps)
  show "analytics_overview api project_id auth w =
      Inr (overview_query (duck api) p (where_project p (visible_rows w)))"
    using none e by (auto simp: analytics_overview_def simps)
  show "analytics_models api project_id auth w =
      Inr (models_query (duck api) p (where_project p (visible_rows w)))"
    using none e by (auto simp: analytics_models_def simps)
qed

text \<open>
  C5: Tenants are isolated.  What a caller with a project key gets from the four query
  endpoints, with whatever parameters, depends on the rows of that project only: two stores
  that agree on these rows give the same answers, error answers included.
\<close>

theorem tenant_isolation:
  assumes sql: "sql_engine (duck api)" and p: "p \<noteq> []"
    and same: "own_rows p w1 = own_rows p w2"
    and ok: "query_error (duck api) = None"
  shows "list_traces api limit project_id service (tenant p) w1 = list_traces api limit project_id service (tenant p) w2 \<and>
    get_trace api t project_id (tenant p) w1 = get_trace api t project_id (tenant p) w2 \<and>
    analytics_overview api project_id (tenant p) w1 = analytics_overview api project_id (tenant p) w2 \<and>
    analytics_models api project_id (tenant p) w1 = analytics_models api project_id (tenant p) w2"
proof (cases "sqlite_error api")
  case None
  show ?thesis
    using tenant_filter_cases [OF p, of project_id]
  proof
    assume f: "tenant_filter (tenant p) project_id = Inr (Some p)"
    have "where_project (Some p) (visible_rows w1) = where_project (Some p) (visible_rows w2)"
      using same p by (simp add: own_rows_def where_project_own)
    then show ?thesis by (simp add: query_endpoints [OF sql None ok f])
  qed (simp add: list_traces_def get_trace_def analytics_overview_def analytics_models_def)
next
  case (Some e)
  then show ?thesis
    by (simp add: no_files list_traces_def get_trace_def analytics_overview_def analytics_models_def
        split: sum.split)
qed

lemma sample_api_ok: "sql_engine (duck sample_api)" "query_error (duck sample_api) = None"
  using sample_duck_engine by (simp_all add: sample_api_def) (simp add: sample_duck_def)

text \<open>A store with one committed file that holds the given rows.\<close>

definition stored :: "span_row list \<Rightarrow> world" where
  "stored rows = (fresh_world [])\<lparr>parquet_dir := [(''a.parquet'', rows)], control := empty_store\<lparr>parquet_files :=
     [(''a.parquet'', \<lparr>record_count = length rows, pq_status = COMMITTED\<rparr>)]\<rparr>\<rparr>"

definition row_of :: "string \<Rightarrow> span_row" where
  "row_of p = sample_row\<lparr>row_project_id := Some p\<rparr>"

lemma visible_stored [simp]: "visible_rows (stored rows) = rows"
  by (simp add: visible_rows_def stored_def get_committed_parquet_files_def committed_filenames_def tbl_has_def)

theorem tenant_isolation_witness:
  "list_traces sample_api 10 None None (tenant ''p'') (stored [row_of ''p'', row_of ''q'']) =
     list_traces sample_api 10 None None (tenant ''p'') (stored [row_of ''p''])"
proof -
  have "own_rows ''p'' (stored [row_of ''p'', row_of ''q'']) = own_rows ''p'' (stored [row_of ''p''])"
    by (simp add: own_rows_def row_of_def)
  from tenant_isolation [OF sample_api_ok(1) _ this sample_api_ok(2)] show ?thesis by simp
qed

lemma auth_error: "get_auth_identity st api x h w = Inl e \<Longrightarrow> e = Http_Exception 401 ''Invalid or missing API key''"
  by (auto simp: get_auth_identity_def Let_def split: if_splits)

text \<open>The requests for the administrator, and the project a query names.\<close>

fun admin_request :: "request \<Rightarrow> bool" where
  "admin_request Post_Compact = True"
| "admin_request Post_Wal_Cleanup = True"
| "admin_request (Post_Projects _ _) = True"
| "admin_request _ = False"

fun named_project :: "request \<Rightarrow> string option" where
  "named_project (Get_Traces _ project_id _) = project_id"
| "named_project (Get_Trace _ project_id) = project_id"
| "named_project (Get_Overview project_id) = project_id"
| "named_project (Get_Models project_id) = project_id"
| "named_project _ = None"

lemma tenant_admin [simp]: "require_admin (tenant p) = Inl (Http_Exception 403 ''Admin authorization required'')"
  by (simp add: require_admin_def tenant_def)

lemma tenant_other: "q \<noteq> [] \<Longrightarrow> q \<noteq> p \<Longrightarrow>
    tenant_filter (tenant p) (Some q) = Inl (Http_Exception 403 ''Cross-project access forbidden'')"
  by (simp add: tenant_filter_def tenant_def)

lemma respond_Inr [simp]: "respond s r = (code, Inr x) \<longleftrightarrow> r = Inr x \<and> code = s"
  by (cases "(s, r)" rule: respond.cases) auto

lemma reply_Inr [simp]: "reply s f r = (code, Inr x) \<longleftrightarrow> code = s \<and> (\<exists>y. r = Inr y \<and> x = f y)"
  by (cases r) (auto simp: reply_def)

lemma tenant_named: "truthy q \<Longrightarrow> q \<noteq> Some p \<Longrightarrow>
    tenant_filter (tenant p) q = Inl (Http_Exception 403 ''Cross-project access forbidden'')"
  by (cases q) (auto simp: tenant_other)

lemma reply_Inl [simp]: "reply s f (Inl e) = respond s (Inl e)"
  by (cases e) (simp_all add: reply_def)

text \<open>An endpoint that applies the filter first refuses another project, and lists no projects.\<close>

lemma filtered_reply:
  assumes run: "reply 200 f r = (code, content)"
    and first: "\<And>e. tenant_filter (tenant p) q = Inl e \<Longrightarrow> r = Inl e"
    and f: "\<And>y ps. f y \<noteq> Projects_Content ps"
  shows "(truthy q \<and> q \<noteq> Some p \<longrightarrow> code = 403) \<and> content \<noteq> Inr (Projects_Content ps)"
proof -
  have "code = 403" if "truthy q" "q \<noteq> Some p"
    using run first [OF tenant_named [OF that]] by (simp add: reply_def)
  moreover have "content \<noteq> Inr (Projects_Content ps)" using run f by auto metis
  ultimately show ?thesis by blast
qed

lemma handle_tenant:
  assumes "handle st ev api a request (tenant p) w = ((code, content), w')"
  shows "(request \<noteq> Post_Materialize \<longrightarrow> w' = w) \<and>
    (admin_request request \<longrightarrow> code = 403) \<and>
    (truthy (named_project request) \<and> named_project request \<noteq> Some p \<longrightarrow> code = 403) \<and>
    (\<forall>ps. content = Inr (Projects_Content ps) \<longrightarrow> fst ` set ps \<subseteq> {p})"
proof (cases request)
  case Get_Projects
  have "list_projects api (tenant p) w = Inr ps \<Longrightarrow> (x, y) \<in> set ps \<Longrightarrow> x = p" for ps x y
    by (auto simp: list_projects_def tenant_def split: sum.splits)
  with Get_Projects assms show ?thesis by auto
next
  case (Get_Traces limit q service)
  with assms filtered_reply [of _ "list_traces api limit q service (tenant p) w" code content p q] show ?thesis
    by (auto simp: list_traces_def)
next
  case (Get_Trace t q)
  with assms filtered_reply [of _ "get_trace api t q (tenant p) w" code content p q] show ?thesis
    by (auto simp: get_trace_def)
next
  case (Get_Overview q)
  with assms filtered_reply [of _ "analytics_overview api q (tenant p) w" code content p q] show ?thesis
    by (auto simp: analytics_overview_def)
next
  case (Get_Models q)
  with assms filtered_reply [of _ "analytics_models api q (tenant p) w" code content p q] show ?thesis
    by (auto simp: analytics_models_def)
qed (use assms in \<open>auto simp: health_def run_compaction_def run_wal_cleanup_def create_project_def
    apfst_def map_prod_def split: prod.splits\<close>)

text \<open>
  C9: What a request may do.  A request that fails authentication is answered with 401 and
  changes nothing.  A caller with a project key changes nothing by any request but the start of
  a materialisation; compaction, WAL cleanup, the creation of projects and queries that name
  another project are answered with 403, and the list of projects shows the caller's own only.
\<close>

theorem request_authorization:
  assumes run: "serve st ev api a x h request w = ((code, content), w')" and guarded: "request \<noteq> Get_Health"
  shows "(\<forall>e. get_auth_identity st api x h w = Inl e \<longrightarrow> code = 401 \<and> w' = w) \<and>
    (get_auth_identity st api x h w = Inr (tenant p) \<longrightarrow>
      (request \<noteq> Post_Materialize \<longrightarrow> w' = w) \<and>
      (admin_request request \<and> valid_request request \<longrightarrow> code = 403) \<and>
      (truthy (named_project request) \<and> named_project request \<noteq> Some p \<and> valid_request request \<longrightarrow> code = 403) \<and>
      (\<forall>ps. content = Inr (Projects_Content ps) \<longrightarrow> fst ` set ps \<subseteq> {p}))"
proof (cases "get_auth_identity st api x h w")
  case (Inl e)
  with auth_error [OF Inl] run guarded show ?thesis by (auto simp: serve_def)
next
  case (Inr auth)
  show ?thesis
  proof (cases "valid_request request")
    case True
    with Inr run guarded have "handle st ev api a request auth w = ((code, content), w')" by (simp add: serve_def)
    then show ?thesis using handle_tenant [of st ev api a request p w code content w'] Inr by auto
  next
    case False
    with Inr run guarded show ?thesis by (auto simp: serve_def)
  qed
qed

theorem request_authorization_witness:
  "snd (serve secured one_span sample_api (0, 0) (Some ''kb'') None Post_Compact two_tenants) = two_tenants \<and>
   fst (fst (serve secured one_span sample_api (0, 0) (Some ''kb'') None Post_Compact two_tenants)) = 403"
proof -
  obtain code content w' where run: "serve secured one_span sample_api (0, 0) (Some ''kb'') None Post_Compact two_tenants =
      ((code, content), w')" by (metis prod.collapse)
  have "get_auth_identity secured sample_api (Some ''kb'') None two_tenants = Inr (tenant ''b'')" by code_simp
  with request_authorization [OF run, of "''b''"] run show ?thesis by simp
qed

section \<open>The life of a project key\<close>

lemma credential_rows_insert:
  "tbl_insert k \<lparr> proj_name = n, api_key_hash = Some h \<rparr> (projects db) = Some t \<Longrightarrow>
     credential_rows (db\<lparr>projects := t\<rparr>) = credential_rows db @ [(k, h)]"
  by (auto simp: tbl_insert_def credential_rows_def map_filter_def split: if_splits)

lemma find_credential_append:
  "find_credential h (rows @ rows') = (case find_credential h rows of None \<Rightarrow> find_credential h rows' | Some p \<Rightarrow> Some p)"
  by (induction h rows rule: find_credential.induct) auto

lemma find_credential_other:
  "find_credential h (rows @ [(k, h')]) = Some k \<Longrightarrow> k \<notin> fst ` set rows \<Longrightarrow> h = h'"
  by (induction h rows rule: find_credential.induct) (auto split: if_splits)

lemma create_project_Inr:
  assumes "create_project api tok project auth w = (Inr created, w')"
  shows "is_admin auth \<and> sqlite_error api = None \<and>
    pr_api_key created = (if truthy (pc_api_key project) then py_strip (the (pc_api_key project)) else generate_api_key tok) \<and>
    pr_id created = pc_id project \<and> pc_id project \<notin> set (keys (projects (control w))) \<and>
    (\<exists>t. tbl_insert (pc_id project) \<lparr> proj_name = pc_name project,
        api_key_hash = Some (hash_api_key (sha256_hex api) (pr_api_key created)) \<rparr> (projects (control w)) = Some t \<and>
      w' = w\<lparr>control := (control w)\<lparr>projects := t\<rparr>\<rparr>)"
  using assms
  by (auto simp: create_project_def require_admin_def control_db_def Let_def tbl_insert_def tbl_has_iff
      split: if_splits option.splits exn.splits)

lemma create_project_rows:
  assumes "create_project api tok project auth w = (Inr created, w')"
  shows "control_db api w' = Inr (control w') \<and> credential_rows (control w') =
    credential_rows (control w) @ [(pc_id project, hash_api_key (sha256_hex api) (pr_api_key created))]"
  using create_project_Inr [OF assms] credential_rows_insert [of "pc_id project" "pc_name project" _ "control w"]
  by (auto simp: control_db_def)

text \<open>Whose key it is: the first project that has its hash, before the new one.\<close>

definition key_owner :: "api_env \<Rightarrow> world \<Rightarrow> project_created \<Rightarrow> string" where
  "key_owner api w created =
    (case find_credential (hash_api_key (sha256_hex api) (pr_api_key created)) (credential_rows (control w)) of
       Some p \<Rightarrow> p | None \<Rightarrow> pr_id created)"

text \<open>
  C35: What a created key opens.  The key that the creation of a project answers with, be it the
  one given or a generated one, authenticates from then on, by either header, as the project it
  was created for if no other has it, and else as the project that has it already: the creation
  does not refuse it.  Creating a project whose identifier exists answers 409 and changes nothing.
  This supposes that the key is neither blank nor the administrator's, that authentication is in
  force (required, or an administrator key is set), that no project has the empty identifier, that
  the digest is no empty text and that a generated key has no white space at its ends.
\<close>

theorem created_key_authenticates:
  assumes created: "create_project api tok project auth w = (Inr created, w')"
    and key: "pr_api_key created \<noteq> []" "api_key st \<noteq> Some (pr_api_key created)"
    and secured: "require_auth st \<or> truthy (api_key st)" and named: "[] \<notin> insert (pc_id project) (set (keys (projects (control w))))"
    and digest: "hash_api_key (sha256_hex api) (pr_api_key created) \<noteq> []"
    and generated: "py_strip (generate_api_key tok) = generate_api_key tok"
  shows "get_auth_identity st api (Some (pr_api_key created)) h w' = Inr (tenant (key_owner api w created)) \<and>
    get_auth_identity st api None (Some (''Bearer '' @ pr_api_key created)) w' = Inr (tenant (key_owner api w created)) \<and>
    create_project api tok' project auth w' = (Inl (Http_Exception 409 ''project already exists''), w')"
proof -
  note c = create_project_Inr [OF created] and rows = create_project_rows [OF created]
  let ?k = "pr_api_key created"
  have strip: "py_strip ?k = ?k" and id: "pr_id created = pc_id project" using c generated by simp_all
  have verified: "verify_project_credential (sha256_hex api) (control_db api w') ?k = Some (key_owner api w created)"
    using key(1) strip rows digest id
    by (simp add: verify_project_credential_def find_credential_append key_owner_def Let_def split: option.split)
  have "key_owner api w created \<noteq> []"
  proof (cases "find_credential (hash_api_key (sha256_hex api) ?k) (credential_rows (control w))")
    case None
    with named id show ?thesis by (auto simp: key_owner_def)
  next
    case (Some p)
    from find_credential_sound [OF this] obtain row where "(p, row) \<in> set (projects (control w))"
      by (auto simp: credential_rows_iff)
    then have "p \<in> set (keys (projects (control w)))" by force
    with named have "p \<noteq> []" by (metis insertI2)
    then show ?thesis by (simp add: key_owner_def Some)
  qed
  moreover have "presented (Some ?k) h = ?k" "presented None (Some (''Bearer '' @ ?k)) = ?k"
    using key(1) strip by (simp_all add: presented_def bearer_token_def starts_with_def)
  ultimately have "get_auth_identity st api (Some ?k) h w' = Inr (tenant (key_owner api w created))"
    "get_auth_identity st api None (Some (''Bearer '' @ ?k)) w' = Inr (tenant (key_owner api w created))"
    using key verified by (simp_all add: get_auth_identity_presented [OF secured] Let_def tenant_def)
  moreover have "create_project api tok' project auth w' = (Inl (Http_Exception 409 ''project already exists''), w')"
    using c by (auto simp: create_project_def require_admin_def control_db_def Let_def tbl_insert_def tbl_has_iff
        split: if_splits)
  ultimately show ?thesis by blast
qed

definition sample_project :: "string option \<Rightarrow> project_create" where
  "sample_project key = \<lparr> pc_id = ''n'', pc_name = ''N'', pc_api_key = key \<rparr>"

definition admin :: auth_identity where
  "admin = \<lparr> is_admin = True, auth_project_id = None \<rparr>"

text \<open>A new key, and one that another project has.\<close>

theorem created_key_authenticates_witness:
  "\<exists>created w' created2 w2. create_project sample_api ''t'' (sample_project (Some '' kn'')) admin two_tenants = (Inr created, w') \<and>
     get_auth_identity secured sample_api (Some (pr_api_key created)) None w' = Inr (tenant ''n'') \<and>
     create_project sample_api ''t'' (sample_project (Some ''kb'')) admin two_tenants = (Inr created2, w2) \<and>
     get_auth_identity secured sample_api (Some (pr_api_key created2)) None w2 = Inr (tenant ''b'')"
proof -
  have one: "\<exists>w'. create_project sample_api ''t'' (sample_project (Some key)) admin two_tenants =
        (Inr \<lparr> pr_id = ''n'', pr_name = ''N'', pr_api_key = k \<rparr>, w') \<and>
      get_auth_identity secured sample_api (Some k) None w' = Inr (tenant p)"
    if f: "fst (create_project sample_api ''t'' (sample_project (Some key)) admin two_tenants) =
        Inr \<lparr> pr_id = ''n'', pr_name = ''N'', pr_api_key = k \<rparr>"
      and k: "k \<noteq> []" "Some k \<noteq> api_key secured" "hash_api_key (sha256_hex sample_api) k \<noteq> []"
      and p: "key_owner sample_api two_tenants \<lparr> pr_id = ''n'', pr_name = ''N'', pr_api_key = k \<rparr> = p" for key k p
  proof -
    obtain w' where run: "create_project sample_api ''t'' (sample_project (Some key)) admin two_tenants =
        (Inr \<lparr> pr_id = ''n'', pr_name = ''N'', pr_api_key = k \<rparr>, w')" using f by (metis prod.collapse)
    moreover have "py_strip (generate_api_key ''t'') = generate_api_key ''t''" by code_simp
    moreover have "[] \<notin> insert ''n'' (set (keys (projects (control two_tenants))))" by code_simp
    ultimately show ?thesis
      using created_key_authenticates [OF run, of secured] k p by (auto simp: secured_def sample_project_def)
  qed
  have "\<exists>w'. create_project sample_api ''t'' (sample_project (Some '' kn'')) admin two_tenants =
        (Inr \<lparr> pr_id = ''n'', pr_name = ''N'', pr_api_key = ''kn'' \<rparr>, w') \<and>
      get_auth_identity secured sample_api (Some ''kn'') None w' = Inr (tenant ''n'')"
    by (rule one) code_simp+
  moreover have "\<exists>w'. create_project sample_api ''t'' (sample_project (Some ''kb'')) admin two_tenants =
        (Inr \<lparr> pr_id = ''n'', pr_name = ''N'', pr_api_key = ''kb'' \<rparr>, w') \<and>
      get_auth_identity secured sample_api (Some ''kb'') None w' = Inr (tenant ''b'')"
    by (rule one) code_simp+
  ultimately show ?thesis by fastforce
qed

text \<open>
  A blank key is accepted and useless.  A project can be created with a key of white space:
  the answer is a success with an empty key, the hash of the empty text is stored, and no
  request is authenticated as that project unless its token happens to have that hash.
\<close>

theorem blank_key_never_authenticates:
  assumes created: "create_project api tok project auth w = (Inr created, w')"
    and blank: "pc_api_key project = Some s" "s \<noteq> []" "py_strip s = []"
    and secured: "require_auth st \<or> truthy (api_key st)"
    and digest: "presented x h \<noteq> [] \<Longrightarrow>
      hash_api_key (sha256_hex api) (presented x h) \<noteq> hash_api_key (sha256_hex api) []"
  shows "pr_api_key created = [] \<and>
    get_auth_identity st api x h w' \<noteq> Inr (tenant (pc_id project))"
proof -
  note c = create_project_Inr [OF created] and rows = create_project_rows [OF created]
  from c blank have empty: "pr_api_key created = []" by simp
  have new: "pc_id project \<notin> fst ` set (credential_rows (control w))"
    using c by (force simp: credential_rows_def map_filter_def)
  have "verify_project_credential (sha256_hex api) (control_db api w') (presented x h) \<noteq> Some (pc_id project)"
  proof
    have strip: "py_strip (presented x h) = presented x h" by (simp add: presented_def split: option.split)
    assume v: "verify_project_credential (sha256_hex api) (control_db api w') (presented x h) = Some (pc_id project)"
    then have t: "presented x h \<noteq> []" by (auto simp: verify_project_credential_def split: if_splits)
    with v rows new strip have "hash_api_key (sha256_hex api) (presented x h) = hash_api_key (sha256_hex api) []"
      by (auto simp: verify_project_credential_def Let_def empty dest: find_credential_other split: if_splits)
    with digest [OF t] show False by blast
  qed
  then have "get_auth_identity st api x h w' \<noteq> Inr (tenant (pc_id project))"
    by (auto simp: get_auth_identity_presented [OF secured] Let_def tenant_def)
  with empty show ?thesis by blast
qed

theorem blank_key_never_authenticates_witness:
  "\<exists>created w'. create_project sample_api ''t'' (sample_project (Some '' '')) admin two_tenants = (Inr created, w') \<and>
     pr_api_key created = [] \<and> get_auth_identity secured sample_api (Some ''x'') None w' \<noteq> Inr (tenant ''n'')"
proof -
  obtain r w' where run: "create_project sample_api ''t'' (sample_project (Some '' '')) admin two_tenants = (r, w')"
    by fastforce
  have "fst (create_project sample_api ''t'' (sample_project (Some '' '')) admin two_tenants) =
      Inr \<lparr> pr_id = ''n'', pr_name = ''N'', pr_api_key = [] \<rparr>" by code_simp
  with run have run': "create_project sample_api ''t'' (sample_project (Some '' '')) admin two_tenants =
      (Inr \<lparr> pr_id = ''n'', pr_name = ''N'', pr_api_key = [] \<rparr>, w')" by simp
  have "hash_api_key (sha256_hex sample_api) (presented (Some ''x'') None) \<noteq> hash_api_key (sha256_hex sample_api) []"
    by code_simp
  moreover have "py_strip '' '' = []" by code_simp
  ultimately show ?thesis
    using blank_key_never_authenticates [OF run', of "'' ''" secured "Some ''x''" None] run'
    by (intro exI [of _ "\<lparr> pr_id = ''n'', pr_name = ''N'', pr_api_key = [] \<rparr>"] exI [of _ w'])
      (simp add: secured_def sample_project_def)
qed

section \<open>What the endpoints show of the storage\<close>

text \<open>
  C27: The spans of a trace.  The trace endpoint answers with exactly the visible rows of the
  trace that the caller may see, each as often as it is stored and in the order of their start,
  and with 404 exactly if there is none.
\<close>

theorem get_trace_exact:
  assumes sql: "sql_engine (duck api)" and ok: "sqlite_error api = None" "query_error (duck api) = None"
    and f: "tenant_filter auth project_id = Inr p"
  shows "case get_trace api t project_id auth w of
      Inr rows \<Rightarrow> rows \<noteq> [] \<and> sorted (map row_start_time_unix_nano rows) \<and>
        mset rows = filter_mset (\<lambda>r. row_trace_id r = t \<and> (truthy p \<longrightarrow> row_project_id r = p)) (visible w)
    | Inl e \<Rightarrow> e = Http_Exception 404 ''trace not found'' \<and>
        filter_mset (\<lambda>r. row_trace_id r = t \<and> (truthy p \<longrightarrow> row_project_id r = p)) (visible w) = {#}"
proof -
  let ?rows = "trace_query (duck api) p t (where_project p (visible_rows w))"
  have "mset (scan_order (duck api) rs) = mset rs" for rs using sql by (simp add: sql_engine_def)
  then have rows: "mset ?rows = filter_mset (\<lambda>r. row_trace_id r = t \<and> (truthy p \<longrightarrow> row_project_id r = p)) (visible w)"
    unfolding query_where(2) by (cases "truthy p") (auto simp: trace_query_def where_project_def visible_def
        filter_filter_mset conj_commute)
  have "sorted (map row_start_time_unix_nano ?rows)" by (simp add: trace_query_def)
  with rows show ?thesis
    by (auto simp: query_endpoints(2) [OF sql ok f] Let_def)
qed

theorem get_trace_exact_witness:
  "\<exists>rows. get_trace sample_api (row_trace_id sample_row) (Some ''p'') admin (stored [row_of ''p'', row_of ''q'']) = Inr rows \<and>
     mset rows = {#row_of ''p''#}"
proof -
  have f: "tenant_filter admin (Some ''p'') = Inr (Some ''p'')" by (simp add: tenant_filter_def admin_def)
  have "sqlite_error sample_api = None" by (simp add: sample_api_def)
  note get_trace_exact [OF sample_api_ok(1) this sample_api_ok(2) f, of "row_trace_id sample_row" "stored [row_of ''p'', row_of ''q'']"]
  then show ?thesis
    by (auto simp: visible_def row_of_def split: sum.splits)
qed

end
