(* ===== verification/Io_Errors.thy ===== *)
theory Io_Errors
  imports Clean_Log
begin

text \<open>
  \<open>materialize\<close> of backend/app/materializer.py when its file accesses or its transactions fail: a
  directory cannot be made, a segment not be opened or read (\<open>_wal_records_from\<close> logs the
  \<open>OSError\<close> and raises it again), a Parquet file not be written or renamed, a transaction not be
  begun or committed.  The handler of \<open>materialize\<close> is for \<open>WalCorruptionError\<close> and \<open>ValueError\<close>,
  so these exceptions pass.  The run is as in Materialize, with the failures as a parameter.
\<close>

section \<open>The run with failing operations\<close>

text \<open>Where a flush fails, with the message; \<open>Write_Fails\<close> with what is in the file by then.\<close>

datatype flush_failure =
    Mkdir_Fails string
  | Write_Fails "span_row list" string
  | Rename_Fails string
  | Commit_Fails string

text \<open>
  The failures of a run, with their messages: \<open>mkdir\<close> at the start, the query of the offsets, in
  which segments \<open>open\<close>, \<open>seek\<close> or \<open>read\<close> fails and after how many records that were delivered,
  the flushes by the names they draw, and the transactions that mark a segment or record its
  corruption.
\<close>

record io_faults =
  mkdir_fault :: "string option"
  query_fault :: "string option"
  read_fault :: "string \<Rightarrow> (nat \<times> string) option"
  flush_fault :: "nat \<Rightarrow> flush_failure option"
  mark_fault :: "string \<Rightarrow> string option"
  event_fault :: "string \<Rightarrow> string option"

text \<open>
  \<open>_flush_batch\<close>: \<open>mkdir\<close>, \<open>from_pylist\<close>, the temporary file, the rename, and the transaction, which
  is rolled back when it fails.
\<close>

definition flush_batch_io :: "env \<Rightarrow> io_faults \<Rightarrow> span_row list \<Rightarrow> (string \<times> nat \<times> string) list \<Rightarrow>
    (string, nat) table \<Rightarrow> (world, exn, string) eff" where
  "flush_batch_io ev io rows entries file_offsets w =
    (let n = ticks w;
         run = (\<lambda>k partial. run_steps (take k (flush_steps ev n partial rows entries file_offsets)) (draw_tick w)) in
     if rows = [] then (Inr '''', w)
     else case flush_fault io n of
       None \<Rightarrow> flush_batch ev rows entries file_offsets w
     | Some (Mkdir_Fails m) \<Rightarrow> (Inl (OS_Error m), w)
     | Some failure \<Rightarrow>
         if \<not> list_all row_fits rows then (Inl (arrow_error ev), draw_tick w)
         else case failure of
           Mkdir_Fails m \<Rightarrow> (Inl (OS_Error m), w)
         | Write_Fails partial m \<Rightarrow> (Inl (OS_Error m), run 1 partial)
         | Rename_Fails m \<Rightarrow> (Inl (OS_Error m), run 2 [])
         | Commit_Fails m \<Rightarrow> (Inl (Operational_Error m), run 3 []))"

definition flush_current_io :: "env \<Rightarrow> io_faults \<Rightarrow> (mstate, exn, unit) eff" where
  "flush_current_io ev io = (\<lambda>(w, b).
    (case flush_batch_io ev io (batch_rows b) (map (\<lambda>(f, off, _). (f, off, '''')) (batch_entries b))
       (batch_offsets b) w of
       (Inl e, w') \<Rightarrow> (Inl e, (w', b))
     | (Inr _, w') \<Rightarrow> (Inr (), (w', \<lparr> batch_rows = [], batch_entries = [], batch_offsets = [],
          total_spans = total_spans b + length (batch_rows b) \<rparr>))))"

text \<open>\<open>_wal_records_from\<close>: the records delivered and the exception that ends them.\<close>

definition read_segment :: "io_faults \<Rightarrow> string \<Rightarrow> byte list \<Rightarrow> nat \<Rightarrow> int \<Rightarrow> wal_record list \<times> exn option" where
  "read_segment io filename content start_offset max_record_bytes =
    (let (records, stop) = wal_records_from filename content start_offset max_record_bytes in
     case read_fault io filename of
       None \<Rightarrow> (records, map_option Wal_Corruption stop)
     | Some (n, error) \<Rightarrow>
         if n \<le> length records then (take n records, Some (OS_Error error))
         else (records, map_option Wal_Corruption stop))"

definition process_record_io :: "settings \<Rightarrow> env \<Rightarrow> io_faults \<Rightarrow> string \<Rightarrow> wal_record \<Rightarrow> (mstate, exn, unit) eff" where
  "process_record_io st ev io filename r = (\<lambda>(w, b).
    (case rows_of ev (rec_payload r) filename (rec_start r) of
       Inl e \<Rightarrow> (Inl e, (w, b))
     | Inr rows \<Rightarrow>
         (let b' = b\<lparr> batch_rows := batch_rows b @ rows,
               batch_entries := batch_entries b @ map (\<lambda>_. (filename, rec_start r, '''')) rows,
               batch_offsets := tbl_put filename (rec_end r) (batch_offsets b) \<rparr>
          in if int (length (batch_rows b')) \<ge> materialize_batch_size st
             then flush_current_io ev io (w, b')
             else (Inr (), (w, b')))))"

fun process_records_io :: "settings \<Rightarrow> env \<Rightarrow> io_faults \<Rightarrow> string \<Rightarrow> wal_record list \<Rightarrow> exn option \<Rightarrow>
    (mstate, exn, unit) eff" where
  "process_records_io st ev io filename [] stop = (case stop of None \<Rightarrow> ret () | Some e \<Rightarrow> throw e)"
| "process_records_io st ev io filename (r # rs) stop =
     bindE (process_record_io st ev io filename r) (\<lambda>_. process_records_io st ev io filename rs stop)"

text \<open>The mark of a sealed segment and the handler of corruption, each with its transaction.\<close>

definition mark_sealed_io :: "io_faults \<Rightarrow> string option \<Rightarrow> string \<Rightarrow> nat \<Rightarrow> nat \<Rightarrow> (mstate, exn, unit) eff" where
  "mark_sealed_io io active filename file_size start_offset = (\<lambda>(w, b).
    (case mark_fault io filename of
       Some m \<Rightarrow> if Some filename \<noteq> active \<and> file_size = current_offset filename start_offset b
         then (Inl (Operational_Error m), (w, b)) else (Inr (), (w, b))
     | None \<Rightarrow> mark_sealed active filename file_size start_offset (w, b)))"

definition handle_corruption_io :: "env \<Rightarrow> io_faults \<Rightarrow> string \<Rightarrow> nat \<Rightarrow> nat \<Rightarrow> exn \<Rightarrow> (mstate, exn, unit) eff" where
  "handle_corruption_io ev io filename file_size start_offset e = (\<lambda>(w, b).
    (let corrupt_offset = corruption_offset e (current_offset filename start_offset b) in
     bindE (if batch_rows b \<noteq> [] then flush_current_io ev io else ret ())
       (\<lambda>_. case event_fault io filename of
          Some m \<Rightarrow> throw (Operational_Error m)
        | None \<Rightarrow> updE (\<lambda>(w, b).
            (w\<lparr>control := record_corruption filename corrupt_offset (exn_message e) file_size (control w)\<rparr>, b)))
       (w, b)))"

definition process_file_io :: "settings \<Rightarrow> env \<Rightarrow> io_faults \<Rightarrow> control_store \<Rightarrow> string option \<Rightarrow> string \<Rightarrow>
    (mstate, exn, unit) eff" where
  "process_file_io st ev io db0 active filename = (\<lambda>(w, b).
    (let content = segment_bytes w filename;
         file_size = length content;
         start_offset = offset_of db0 filename
     in if skip_file db0 filename start_offset file_size then (Inr (), (w, b))
        else let (records, stop) = read_segment io filename content start_offset (max_wal_record_bytes st)
          in try_except
               (bindE (process_records_io st ev io filename records stop)
                 (\<lambda>_. mark_sealed_io io active filename file_size start_offset))
               (handle_corruption_io ev io filename file_size start_offset) (w, b)))"

fun process_files_io :: "settings \<Rightarrow> env \<Rightarrow> io_faults \<Rightarrow> control_store \<Rightarrow> string option \<Rightarrow> string list \<Rightarrow>
    (mstate, exn, unit) eff" where
  "process_files_io st ev io db0 active [] = ret ()"
| "process_files_io st ev io db0 active (f # fs) =
     bindE (process_file_io st ev io db0 active f) (\<lambda>_. process_files_io st ev io db0 active fs)"

text \<open>The loop over the segments with the flush of what is left, and the whole of \<open>materialize\<close>.\<close>

definition materialize_run_io :: "settings \<Rightarrow> env \<Rightarrow> io_faults \<Rightarrow> world \<Rightarrow> (exn + unit) \<times> mstate" where
  "materialize_run_io st ev io w =
    (let wal_files = sorted_wal_files (keys (wal_dir w)) in
     bindE (process_files_io st ev io (control w) (active_wal_filename wal_files) wal_files)
       (\<lambda>_ s. if batch_rows (snd s) \<noteq> [] then flush_current_io ev io s else (Inr (), s)) (w, empty_batch))"

definition materialize_io_body :: "settings \<Rightarrow> env \<Rightarrow> io_faults \<Rightarrow> agent \<Rightarrow> (world, exn, nat) eff" where
  "materialize_io_body st ev io a w =
    (case mkdir_fault io of
       Some m \<Rightarrow> (Inl (OS_Error m), w)
     | None \<Rightarrow>
        (let (_, w) = cleanup_orphaned_parquet_files ev (manifest_error ev) w in
         case query_fault io of
           Some m \<Rightarrow> (Inl (Operational_Error m), w)
         | None \<Rightarrow>
            if sorted_wal_files (keys (wal_dir w)) = [] then (Inr 0, w)
            else case materialize_run_io st ev io w of
              (Inl e, (w, b)) \<Rightarrow> (Inl e, w)
            | (Inr _, (w, b)) \<Rightarrow>
                if auto_cleanup_wal st
                then (case cleanup_materialized_wal_files ev a w of
                        (Inl e, w) \<Rightarrow> (Inl e, w)
                      | (Inr _, w) \<Rightarrow> (Inr (total_spans b), w))
                else (Inr (total_spans b), w)))"

definition materialize_io :: "settings \<Rightarrow> env \<Rightarrow> io_faults \<Rightarrow> agent \<Rightarrow> (world, exn, nat) eff" where
  "materialize_io st ev io a = with_lifecycle_lock a (materialize_io_body st ev io a)"

text \<open>No failure, and the exceptions that failures raise in a run over some segments.\<close>

definition no_faults :: io_faults where
  "no_faults = \<lparr> mkdir_fault = None, query_fault = None, read_fault = (\<lambda>_. None), flush_fault = (\<lambda>_. None),
     mark_fault = (\<lambda>_. None), event_fault = (\<lambda>_. None) \<rparr>"

definition os_fault :: "io_faults \<Rightarrow> string set \<Rightarrow> string \<Rightarrow> bool" where
  "os_fault io files m \<longleftrightarrow> mkdir_fault io = Some m \<or> (\<exists>f \<in> files. \<exists>i. read_fault io f = Some (i, m)) \<or>
     (\<exists>n partial. flush_fault io n \<in> {Some (Mkdir_Fails m), Some (Write_Fails partial m), Some (Rename_Fails m)})"

definition sqlite_fault :: "io_faults \<Rightarrow> string set \<Rightarrow> string \<Rightarrow> bool" where
  "sqlite_fault io files m \<longleftrightarrow> query_fault io = Some m \<or> (\<exists>n. flush_fault io n = Some (Commit_Fails m)) \<or>
     (\<exists>f \<in> files. mark_fault io f = Some m \<or> event_fault io f = Some m)"

definition io_exception :: "io_faults \<Rightarrow> string set \<Rightarrow> exn \<Rightarrow> bool" where
  "io_exception io files e \<longleftrightarrow>
     (\<exists>m. e = OS_Error m \<and> os_fault io files m \<or> e = Operational_Error m \<and> sqlite_fault io files m)"

section \<open>What a failing operation changes\<close>

lemma io_exception_mono: "io_exception io A e \<Longrightarrow> A \<subseteq> B \<Longrightarrow> io_exception io B e"
  unfolding io_exception_def os_fault_def sqlite_fault_def by (elim exE) (intro exI, fast)

lemma io_exception_passes: "io_exception io files e \<Longrightarrow> \<not> is_value_error e"
  unfolding io_exception_def by (elim exE disjE conjE) simp_all

text \<open>It leaves at most a file that is not committed.\<close>

definition unnoticed :: "env \<Rightarrow> world \<Rightarrow> world \<Rightarrow> bool" where
  "unnoticed ev w w' \<longleftrightarrow> control w' = control w \<and> wal_dir w' = wal_dir w \<and> lifecycle_lock w' = lifecycle_lock w \<and>
     (store_inv ev w \<longrightarrow> store_inv ev w' \<and> visible w' = visible w)"

lemma unnoticed_refl [simp]: "unnoticed ev w w"
  by (simp add: unnoticed_def)

lemma unnoticed_trans: "unnoticed ev u v \<Longrightarrow> unnoticed ev v w \<Longrightarrow> unnoticed ev u w"
  by (auto simp: unnoticed_def)

lemma unnoticed_tick [simp]: "unnoticed ev w (draw_tick w)"
proof -
  have "store_inv ev (draw_tick w) \<and> visible (draw_tick w) = visible w" if inv: "store_inv ev w"
    by (rule conserve_cong [OF inv]) (use store_inv_distinct(1) [OF inv] in \<open>simp_all add: draw_tick_def\<close>)
  moreover have "control (draw_tick w) = control w \<and> wal_dir (draw_tick w) = wal_dir w \<and>
      lifecycle_lock (draw_tick w) = lifecycle_lock w" by (simp add: draw_tick_def)
  ultimately show ?thesis by (simp add: unnoticed_def)
qed

text \<open>A flush without its last step.\<close>

lemma run_steps_same:
  assumes "\<forall>f \<in> set fs. \<forall>u. control (f u) = control u \<and> wal_dir (f u) = wal_dir u \<and> lifecycle_lock (f u) = lifecycle_lock u"
  shows "control (run_steps fs u) = control u \<and> wal_dir (run_steps fs u) = wal_dir u \<and>
    lifecycle_lock (run_steps fs u) = lifecycle_lock u"
  using assms by (induction fs arbitrary: u) (simp_all add: run_steps_def)

lemma unnoticed_steps:
  assumes "k < 4"
  shows "unnoticed ev w (run_steps (take k (flush_steps ev (ticks w) partial rows entries offs)) (draw_tick w))"
proof -
  let ?ps = "publish_steps (batch_temp ev (ticks w)) (batch_filename ev (ticks w)) partial rows"
  have eq: "take k (flush_steps ev (ticks w) partial rows entries offs) = take k ?ps"
    using assms by (simp add: flush_steps_publish)
  have "\<forall>f \<in> set ?ps. \<forall>u. control (f u) = control u \<and> wal_dir (f u) = wal_dir u \<and> lifecycle_lock (f u) = lifecycle_lock u"
    by (simp add: publish_steps_def write_parquet_def replace_parquet_def split: option.split)
  then have "\<forall>f \<in> set (take k ?ps). \<forall>u. control (f u) = control u \<and> wal_dir (f u) = wal_dir u \<and> lifecycle_lock (f u) = lifecycle_lock u"
    by (meson in_set_takeD)
  note same = run_steps_same [OF this, of "draw_tick w"]
  have "store_inv ev w \<Longrightarrow> batch_filename ev (ticks w) \<notin> committed_in (control w)"
    using store_inv_fresh [of ev w "ticks w"] by (intro fresh_not_committed) simp
  with publish_prefix [OF _ temp_names(1) _ refl, of ev w] same show ?thesis
    unfolding eq unnoticed_def by (simp add: draw_tick_def)
qed

lemma flush_batch_fault:
  "flush_batch_io ev io rows entries offs w = (r, w') \<Longrightarrow> flush_batch ev rows entries offs w = (r, w') \<or>
     (\<exists>e. r = Inl e \<and> io_exception io {} e \<and> unnoticed ev w w')"
  by (auto simp: flush_batch_io_def flush_batch_def Let_def io_exception_def os_fault_def sqlite_fault_def
      unnoticed_steps split: if_splits option.splits flush_failure.splits)

lemma flush_current_fault:
  assumes "flush_current_io ev io (w, b) = (r, (w', b'))"
  shows "flush_current ev (w, b) = (r, (w', b')) \<or> (\<exists>e. r = Inl e \<and> io_exception io {} e \<and> unnoticed ev w w')"
proof -
  let ?es = "map (\<lambda>(f, off, _). (f, off, '''')) (batch_entries b)"
  obtain q u where q: "flush_batch_io ev io (batch_rows b) ?es (batch_offsets b) w = (q, u)" by fastforce
  from flush_batch_fault [OF this] assms q show ?thesis
    by (auto simp: flush_current_io_def flush_current_def split: sum.splits)
qed

lemma process_record_fault:
  assumes "process_record_io st ev io f r (w, b) = (q, (w', b'))"
  shows "process_record st ev f r (w, b) = (q, (w', b')) \<or> (\<exists>e. q = Inl e \<and> io_exception io {} e \<and> unnoticed ev w w')"
  using assms flush_current_fault
  by (fastforce simp: process_record_io_def process_record_def Let_def split: sum.splits if_splits)

section \<open>The loops\<close>

lemma process_records_prefix:
  "process_records st ev f (take i rs) None s = (Inl e, s') \<Longrightarrow> process_records st ev f rs stop s = (Inl e, s')"
proof (induction rs arbitrary: i s)
  case Nil
  then show ?case by (simp add: ret_def)
next
  case (Cons r rs)
  then show ?case by (cases i) (auto simp: bindE_def ret_def split: prod.splits sum.splits)
qed

lemma process_records_stop:
  "process_records st ev f rs stop s = (Inr x, s') \<Longrightarrow> stop = None"
  by (induction rs arbitrary: s) (auto simp: bindE_def throw_def split: option.splits prod.splits sum.splits)

lemma process_records_stopped:
  "process_records st ev f rs (Some c) s =
    (case process_records st ev f rs None s of (Inl e, s') \<Rightarrow> (Inl e, s') | (Inr _, s') \<Rightarrow> (Inl (Wal_Corruption c), s'))"
  by (induction rs arbitrary: s) (auto simp: bindE_def ret_def throw_def split: prod.splits sum.splits)

text \<open>The states that a loop over records passes through without an exception.\<close>

definition passes :: "settings \<Rightarrow> env \<Rightarrow> string \<Rightarrow> wal_record list \<Rightarrow> mstate \<Rightarrow> mstate \<Rightarrow> bool" where
  "passes st ev f rs s t \<longleftrightarrow> (\<exists>i. process_records st ev f (take i rs) None s = (Inr (), t))"

lemma passes_refl [simp]: "passes st ev f rs s s"
  unfolding passes_def by (rule exI [of _ 0]) (simp add: ret_def)

lemma passes_all: "process_records st ev f rs None s = (Inr (), t) \<Longrightarrow> passes st ev f rs s t"
  unfolding passes_def by (rule exI [of _ "length rs"]) simp

lemma passes_Cons:
  assumes "process_record st ev f r s = (Inr (), s1)" "passes st ev f rs s1 t"
  shows "passes st ev f (r # rs) s t"
proof -
  from assms(2) obtain i where "process_records st ev f (take i rs) None s1 = (Inr (), t)" by (auto simp: passes_def)
  with assms(1) have "process_records st ev f (take (Suc i) (r # rs)) None s = (Inr (), t)" by (simp add: bindE_def)
  then show ?thesis unfolding passes_def by blast
qed

text \<open>
  A loop over records with failures does what it does without them, until the exception that
  ends it, or a failing flush after some of the records.
\<close>

lemma process_records_fault:
  assumes "process_records_io st ev io f rs stop (w, b) = (q, (w', b'))"
  shows "(case process_records st ev f rs None (w, b) of
       (Inl e, t) \<Rightarrow> q = Inl e \<and> t = (w', b')
     | (Inr _, t) \<Rightarrow> t = (w', b') \<and> q = (case stop of None \<Rightarrow> Inr () | Some e \<Rightarrow> Inl e)) \<or>
    (\<exists>v c e. passes st ev f rs (w, b) (v, c) \<and> unnoticed ev v w' \<and> q = Inl e \<and> io_exception io {} e)"
  using assms
proof (induction rs arbitrary: w b)
  case Nil
  then show ?case by (auto simp: ret_def throw_def split: option.splits)
next
  case (Cons r rs)
  obtain p w1 b1 where p: "process_record_io st ev io f r (w, b) = (p, (w1, b1))" by (metis prod.collapse)
  from process_record_fault [OF p] show ?case
  proof
    assume plain: "process_record st ev f r (w, b) = (p, (w1, b1))"
    show ?thesis
    proof (cases p)
      case (Inl e)
      then have "q = Inl e" "w1 = w'" "b1 = b'" using Cons.prems p by (simp_all add: bindE_def)
      with Inl plain show ?thesis by (simp add: bindE_def)
    next
      case (Inr x)
      then have "process_records_io st ev io f rs stop (w1, b1) = (q, (w', b'))" using Cons.prems p by (simp add: bindE_def)
      from Cons.IH [OF this] plain Inr show ?thesis using passes_Cons [of st ev f r "(w, b)" "(w1, b1)"]
        by (fastforce simp: bindE_def)
    qed
  next
    assume "\<exists>e. p = Inl e \<and> io_exception io {} e \<and> unnoticed ev w w1"
    with Cons.prems p show ?thesis by (auto simp: bindE_def intro!: exI [of _ w] exI [of _ b])
  qed
qed

lemma read_records_fault:
  assumes run: "process_records_io st ev io f rs' stop' (w, b) = (q, (w', b'))"
    and read: "read_segment io f content k limit = (rs', stop')" and recs: "wal_records_from f content k limit = (rs, stop)"
  shows "process_records st ev f rs stop (w, b) = (q, (w', b')) \<or>
    (\<exists>v c e. passes st ev f rs (w, b) (v, c) \<and> unnoticed ev v w' \<and> q = Inl e \<and> io_exception io {f} e)"
proof -
  have mono: "io_exception io {} e \<Longrightarrow> io_exception io {f} e" for e by (erule io_exception_mono) simp
  have prefix: "passes st ev f (take n rs) s t \<Longrightarrow> passes st ev f rs s t" for n s t
    by (auto simp: passes_def)
  note one = process_records_fault [OF run]
  consider "rs' = rs" "stop' = map_option Wal_Corruption stop"
    | n m where "read_fault io f = Some (n, m)" "rs' = take n rs" "stop' = Some (OS_Error m)"
    using read recs by (auto simp: read_segment_def split: option.splits if_splits)
  then show ?thesis
  proof cases
    case 1
    with one mono show ?thesis
      by (cases stop) (fastforce simp: process_records_stopped split: prod.splits sum.splits)+
  next
    case (2 n m)
    have io: "io_exception io {f} (OS_Error m)" using 2(1) by (simp add: io_exception_def os_fault_def)
    from one show ?thesis
    proof
      assume end_: "case process_records st ev f rs' None (w, b) of
         (Inl e, t) \<Rightarrow> q = Inl e \<and> t = (w', b')
       | (Inr _, t) \<Rightarrow> t = (w', b') \<and> q = (case stop' of None \<Rightarrow> Inr () | Some e \<Rightarrow> Inl e)"
      obtain p t where p: "process_records st ev f rs' None (w, b) = (p, t)" by (metis prod.collapse)
      show ?thesis
      proof (cases p)
        case (Inl e)
        have "process_records st ev f rs stop (w, b) = (Inl e, t)"
          by (rule process_records_prefix) (use p Inl 2(2) in simp)
        with end_ p Inl show ?thesis by simp
      next
        case (Inr x)
        with end_ p have t: "t = (w', b')" "q = Inl (OS_Error m)" using 2(3) by simp_all
        have "passes st ev f rs (w, b) (w', b')" using p t Inr 2(2) by (auto simp: passes_def)
        with t io show ?thesis by (intro disjI2 exI [of _ w'] exI [of _ b'] exI [of _ "OS_Error m"]) simp
      qed
    next
      assume "\<exists>v c e. passes st ev f rs' (w, b) (v, c) \<and> unnoticed ev v w' \<and> q = Inl e \<and> io_exception io {} e"
      with prefix mono 2(2) show ?thesis by blast
    qed
  qed
qed

text \<open>Where the loop is when it raises: behind a record, or in a flush of rows that do not fit.\<close>

lemma process_records_raises:
  assumes "process_records st ev f rs stop (w, b) = (Inl e, (w', b'))"
  shows "\<exists>v c. passes st ev f rs (w, b) (v, c) \<and> unnoticed ev v w' \<and> (list_all row_fits (batch_rows b') \<longrightarrow> v = w' \<and> c = b')"
  using assms
proof (induction rs arbitrary: w b)
  case Nil
  then have "w' = w" "b' = b" by (auto simp: ret_def throw_def split: option.splits)
  then show ?case by (intro exI [of _ w] exI [of _ b]) simp
next
  case (Cons r rs)
  obtain p w1 b1 where p: "process_record st ev f r (w, b) = (p, (w1, b1))" by (metis prod.collapse)
  show ?case
  proof (cases p)
    case (Inl x)
    then have s: "w' = w1" "b' = b1" using Cons.prems p by (simp_all add: bindE_def)
    have "(w1 = w \<and> b1 = b) \<or> unnoticed ev w w1 \<and> \<not> list_all row_fits (batch_rows b1)"
      using p Inl by (auto simp: process_record_cases flush_current_def flush_batch_def Let_def
          split: sum.splits if_splits prod.splits)
    then show ?thesis unfolding s by (intro exI [of _ w] exI [of _ b]) auto
  next
    case (Inr x)
    then have rest: "process_records st ev f rs stop (w1, b1) = (Inl e, (w', b'))" using Cons.prems p by (simp add: bindE_def)
    from p Inr have "process_record st ev f r (w, b) = (Inr (), (w1, b1))" by simp
    from Cons.IH [OF rest] passes_Cons [OF this] show ?thesis by blast
  qed
qed

text \<open>
  A segment that a failing operation ends: behind some of its records, with perhaps a file that is
  not committed, or with the flush before the record of a corruption.
\<close>

definition stopped_at :: "env \<Rightarrow> mstate \<Rightarrow> world \<Rightarrow> bool" where
  "stopped_at ev = (\<lambda>(v, b) w'. unnoticed ev v w' \<or>
     batch_rows b \<noteq> [] \<and> (\<exists>b'. flush_current ev (v, b) = (Inr (), (w', b'))))"

definition segment_stop :: "settings \<Rightarrow> env \<Rightarrow> io_faults \<Rightarrow> control_store \<Rightarrow> string \<Rightarrow> mstate \<Rightarrow> exn + unit \<Rightarrow> world \<Rightarrow> bool" where
  "segment_stop st ev io db0 f s r w' \<longleftrightarrow> (\<exists>rs stop t e.
     wal_records_from f (segment_bytes (fst s) f) (offset_of db0 f) (max_wal_record_bytes st) = (rs, stop) \<and>
     \<not> skip_file db0 f (offset_of db0 f) (length (segment_bytes (fst s) f)) \<and>
     passes st ev f rs s t \<and> r = Inl e \<and> io_exception io {f} e \<and> stopped_at ev t w')"

lemma stopped_at_unnoticed: "unnoticed ev v w' \<Longrightarrow> stopped_at ev (v, b) w'"
  by (simp add: stopped_at_def)

lemma flush_current_fits: "flush_current ev (w, b) = (Inr (), s) \<Longrightarrow> list_all row_fits (batch_rows b)"
  by (auto simp: flush_current_def flush_batch_def Let_def split: prod.splits sum.splits if_splits)

lemma handle_corruption_fault:
  assumes "handle_corruption_io ev io f n k c (w, b) = (r, (w', b'))"
  shows "handle_corruption ev f n k c (w, b) = (r, (w', b')) \<or>
    (\<exists>e. r = Inl e \<and> io_exception io {f} e \<and> stopped_at ev (w, b) w')"
proof -
  have event: "event_fault io f = Some m \<Longrightarrow> io_exception io {f} (Operational_Error m)" for m
    by (simp add: io_exception_def sqlite_fault_def)
  have mono: "io_exception io {} e \<Longrightarrow> io_exception io {f} e" for e by (erule io_exception_mono) simp
  show ?thesis
  proof (cases "batch_rows b = []")
    case True
    with assms show ?thesis
      by (cases "event_fault io f")
        (auto simp: handle_corruption_io_def handle_corruption_def Let_def bindE_def ret_def throw_def event stopped_at_def)
  next
    case False
    obtain q w1 b1 where q: "flush_current_io ev io (w, b) = (q, (w1, b1))" by (metis prod.collapse)
    from flush_current_fault [OF q] show ?thesis
    proof
      assume plain: "flush_current ev (w, b) = (q, (w1, b1))"
      show ?thesis
      proof (cases q)
        case (Inl e)
        with assms False q have "r = Inl e" "w' = w1" "b' = b1"
          by (simp_all add: handle_corruption_io_def Let_def bindE_def)
        with Inl False plain show ?thesis by (simp add: handle_corruption_def Let_def bindE_def)
      next
        case (Inr x)
        with assms False q plain show ?thesis
          by (cases "event_fault io f")
            (auto simp: handle_corruption_io_def handle_corruption_def Let_def bindE_def throw_def event stopped_at_def)
      qed
    next
      assume "\<exists>e. q = Inl e \<and> io_exception io {} e \<and> unnoticed ev w w1"
      with assms False q mono show ?thesis
        by (auto simp: handle_corruption_io_def Let_def bindE_def stopped_at_def)
    qed
  qed
qed

lemma process_file_fault:
  assumes run: "process_file_io st ev io db0 active f (w, b) = (r, (w', b'))"
  shows "process_file st ev db0 active f (w, b) = (r, (w', b')) \<or> segment_stop st ev io db0 f (w, b) r w'"
proof (cases "skip_file db0 f (offset_of db0 f) (length (segment_bytes w f))")
  case True
  with run show ?thesis by (simp add: process_file_def process_file_io_def)
next
  case False
  let ?n = "length (segment_bytes w f)" and ?k = "offset_of db0 f"
  obtain rs stop where recs: "wal_records_from f (segment_bytes w f) ?k (max_wal_record_bytes st) = (rs, stop)" by fastforce
  obtain rs' stop' where read: "read_segment io f (segment_bytes w f) ?k (max_wal_record_bytes st) = (rs', stop')" by fastforce
  obtain q w1 b1 where q: "process_records_io st ev io f rs' stop' (w, b) = (q, (w1, b1))" by (metis prod.collapse)
  have stop: "segment_stop st ev io db0 f (w, b) r w'"
    if "passes st ev f rs (w, b) t" "r = Inl e" "io_exception io {f} e" "stopped_at ev t w'" for t e
    unfolding segment_stop_def fst_conv using that recs False by blast
  from read_records_fault [OF q read recs] show ?thesis
  proof
    assume plain: "process_records st ev f rs stop (w, b) = (q, (w1, b1))"
    show ?thesis
    proof (cases q)
      case (Inr x)
      with plain process_records_stop have none: "stop = None" by metis
      with plain Inr have all: "passes st ev f rs (w, b) (w1, b1)" by (intro passes_all) simp
      obtain p t where p: "mark_sealed_io io active f ?n ?k (w1, b1) = (p, t)" by (metis prod.collapse)
      show ?thesis
      proof (cases "mark_fault io f = None \<or> p = Inr ()")
        case True
        with p have m: "mark_sealed active f ?n ?k (w1, b1) = (p, t)"
          by (auto simp: mark_sealed_io_def mark_sealed_def updE_def split: option.splits if_splits)
        then have ok: "p = Inr ()" by (auto simp: mark_sealed_def updE_def)
        with run False read q Inr p have rs': "r = Inr ()" "t = (w', b')"
          by (simp_all add: process_file_io_def try_except_def bindE_def)
        have "process_file st ev db0 active f (w, b) = (Inr (), t)"
          using False recs plain m unfolding Inr ok by (simp add: process_file_def try_except_def bindE_def)
        with rs' show ?thesis by simp
      next
        case no: False
        then obtain m where "mark_fault io f = Some m" "p = Inl (Operational_Error m)" "t = (w1, b1)"
          using p by (auto simp: mark_sealed_io_def split: if_splits)
        with run False read q Inr p have "r = Inl (Operational_Error m)" "w' = w1" "io_exception io {f} (Operational_Error m)"
          by (simp_all add: process_file_io_def try_except_def bindE_def io_exception_def sqlite_fault_def)
        with stop [OF all] show ?thesis by (simp add: stopped_at_def)
      qed
    next
      case (Inl c)
      show ?thesis
      proof (cases "is_value_error c")
        case True
        with run False read q Inl have h: "handle_corruption_io ev io f ?n ?k c (w1, b1) = (r, (w', b'))"
          by (simp add: process_file_io_def try_except_def bindE_def)
        from handle_corruption_fault [OF h] show ?thesis
        proof
          assume "handle_corruption ev f ?n ?k c (w1, b1) = (r, (w', b'))"
          with True False recs plain Inl show ?thesis by (simp add: process_file_def try_except_def bindE_def)
        next
          assume "\<exists>e. r = Inl e \<and> io_exception io {f} e \<and> stopped_at ev (w1, b1) w'"
          then obtain e where e: "r = Inl e" "io_exception io {f} e" and s: "stopped_at ev (w1, b1) w'" by blast
          from process_records_raises [OF plain [unfolded Inl]] obtain v c where
            vc: "passes st ev f rs (w, b) (v, c)" "unnoticed ev v w1" "list_all row_fits (batch_rows b1) \<longrightarrow> v = w1 \<and> c = b1"
            by blast
          then have "stopped_at ev (v, c) w'"
            using s flush_current_fits unnoticed_trans unfolding stopped_at_def prod.case by metis
          with stop vc(1) e show ?thesis by blast
        qed
      next
        case no: False
        with run False read q Inl have "r = Inl c" "w' = w1" "b' = b1"
          by (simp_all add: process_file_io_def try_except_def bindE_def)
        with no False recs plain Inl show ?thesis by (simp add: process_file_def try_except_def bindE_def)
      qed
    qed
  next
    assume "\<exists>v c e. passes st ev f rs (w, b) (v, c) \<and> unnoticed ev v w1 \<and> q = Inl e \<and> io_exception io {f} e"
    then obtain v c e where vc: "passes st ev f rs (w, b) (v, c)" "unnoticed ev v w1" "q = Inl e" "io_exception io {f} e"
      by blast
    with run False read q io_exception_passes have "r = Inl e" "w' = w1"
      by (simp_all add: process_file_io_def try_except_def bindE_def)
    with stop vc stopped_at_unnoticed show ?thesis by blast
  qed
qed

lemma process_files_fault:
  assumes "process_files_io st ev io db0 active fs s = (r, s')"
  shows "process_files st ev db0 active fs s = (r, s') \<or>
    (\<exists>j s1. j < length fs \<and> process_files st ev db0 active (take j fs) s = (Inr (), s1) \<and>
       segment_stop st ev io db0 (fs ! j) s1 r (fst s'))"
    (is "_ \<or> (\<exists>j s1. ?fault fs s j s1)")
  using assms
proof (induction fs arbitrary: s)
  case Nil
  then show ?case by simp
next
  case (Cons g fs)
  obtain w b where s: "s = (w, b)" by fastforce
  obtain q w1 b1 where q: "process_file_io st ev io db0 active g s = (q, (w1, b1))" by (metis prod.collapse)
  from process_file_fault [OF q [unfolded s]] show ?case
  proof
    assume same: "process_file st ev db0 active g (w, b) = (q, (w1, b1))"
    show ?thesis
    proof (cases q)
      case (Inl e)
      then have "r = Inl e" "s' = (w1, b1)" using Cons.prems q by (simp_all add: bindE_def)
      with same Inl have "process_files st ev db0 active (g # fs) s = (r, s')" by (simp add: s bindE_def)
      then show ?thesis ..
    next
      case (Inr x)
      then have "process_files_io st ev io db0 active fs (w1, b1) = (r, s')" using Cons.prems q by (simp add: bindE_def)
      from Cons.IH [OF this] show ?thesis
      proof
        assume "process_files st ev db0 active fs (w1, b1) = (r, s')"
        with same Inr show ?thesis by (simp add: s bindE_def)
      next
        assume "\<exists>j s1. ?fault fs (w1, b1) j s1"
        then obtain j s1 where "?fault fs (w1, b1) j s1" by blast
        then have "?fault (g # fs) s (Suc j) s1" using same Inr by (simp add: s bindE_def)
        then show ?thesis by blast
      qed
    qed
  next
    assume stop: "segment_stop st ev io db0 g (w, b) q w1"
    then obtain e where "q = Inl e" by (auto simp: segment_stop_def)
    then have "r = q" "s' = (w1, b1)" using Cons.prems q by (auto simp: bindE_def)
    with stop have "?fault (g # fs) s 0 (w, b)" by (simp add: s ret_def)
    then show ?thesis by blast
  qed
qed

section \<open>The rows a stopped run may lose\<close>

text \<open>Only rows of the batch can be lost, and there are fewer of these than the batch size.\<close>

lemma flush_current_empties: "flush_current ev s = (Inr (), (w, b)) \<Longrightarrow> batch_rows b = []"
  by (auto simp: flush_current_def split: prod.splits sum.splits)

lemma process_records_small:
  assumes "small st (w, b)" "0 < materialize_batch_size st" "process_records st ev f rs None (w, b) = (Inr (), s')"
  shows "small st s'"
  using assms
proof (induction rs arbitrary: w b)
  case Nil
  then show ?case by (simp add: ret_def)
next
  case (Cons r rs)
  obtain q w1 b1 where q: "process_record st ev f r (w, b) = (q, (w1, b1))" by (metis prod.collapse)
  with Cons.prems(3) have rest: "q = Inr ()" "process_records st ev f rs None (w1, b1) = (Inr (), s')"
    by (auto simp: bindE_def split: sum.splits)
  have "small st (w1, b1)"
    using q rest(1) Cons.prems(2) flush_current_empties
    by (fastforce simp: process_record_cases small_def add_record_def split: sum.splits if_splits)
  from Cons.IH [OF this Cons.prems(2) rest(2)] show ?case .
qed

lemma run_inv_lost:
  assumes inv: "run_inv st ev log lost before (w, b)"
  shows "\<exists>lost'. accounted st ev log (lost + lost') w \<and> lost' \<subseteq># mset (batch_rows b)"
proof -
  from run_inv_accounted [OF inv] obtain lost' where acc: "accounted st ev log (lost + lost') w" by blast
  have "rows_at st ev log (offset_of (control w)) \<subseteq># rows_at st ev log (position (w, b))"
    using inv by (intro rows_at_mono) (simp add: run_inv_def)
  moreover have "visible w + mset (batch_rows b) + lost = rows_at st ev log (position (w, b))"
    using inv by (simp add: run_inv_def)
  ultimately have "visible w + (lost + lost') \<subseteq># visible w + (lost + mset (batch_rows b))"
    using acc by (simp add: accounted_def ac_simps)
  then show ?thesis using acc by auto
qed

text \<open>
  None is lost unless a segment was marked since the last flush: a mark is all that moves an
  offset without committing rows.
\<close>

definition nothing_lost :: "settings \<Rightarrow> env \<Rightarrow> wal_log \<Rightarrow> span_row multiset \<Rightarrow> string set \<Rightarrow> world \<Rightarrow> bool" where
  "nothing_lost st ev log lost F w \<longleftrightarrow> F \<subseteq> fully_processed_files (control w) \<and>
     (fully_processed_files (control w) \<subseteq> F \<longrightarrow> visible w + lost = rows_at st ev log (offset_of (control w)))"

lemma nothing_lost_start: "accounted st ev log lost w \<Longrightarrow> nothing_lost st ev log lost (fully_processed_files (control w)) w"
  by (simp add: nothing_lost_def accounted_def)

lemma nothing_lost_flushed:
  "run_inv st ev log lost before (w, b) \<Longrightarrow> batch_rows b = [] \<Longrightarrow> F \<subseteq> fully_processed_files (control w) \<Longrightarrow>
   nothing_lost st ev log lost F w"
  using run_inv_settled by (fastforce simp: nothing_lost_def accounted_def)

lemma flush_current_fully:
  "flush_current ev (w, b) = (r, (w', b')) \<Longrightarrow> fully_processed_files (control w') = fully_processed_files (control w)"
  by (auto simp: flush_current_def flush_batch_def fully_processed_marked Let_def draw_tick_def run_steps_def
      flush_steps_def write_parquet_def replace_parquet_def commit_batch_def
      split: if_splits option.splits prod.splits sum.splits)

lemma process_record_fully:
  "process_record st ev f r (w, b) = (q, (w', b')) \<Longrightarrow> fully_processed_files (control w') = fully_processed_files (control w)"
  by (auto simp: process_record_cases split: sum.splits if_splits dest: flush_current_fully)

lemma process_records_fully:
  "process_records st ev f rs stop (w, b) = (q, (w', b')) \<Longrightarrow> fully_processed_files (control w') = fully_processed_files (control w)"
proof (induction rs arbitrary: w b)
  case Nil
  then show ?case by (auto simp: ret_def throw_def split: option.splits)
next
  case (Cons r rs)
  obtain p w1 b1 where p: "process_record st ev f r (w, b) = (p, (w1, b1))" by (metis prod.collapse)
  from process_record_fully [OF p] Cons p show ?case
    by (auto simp: bindE_def split: sum.splits)
qed

lemma handle_corruption_fully:
  "handle_corruption ev f n k e (w, b) = (q, (w', b')) \<Longrightarrow> fully_processed_files (control w') = fully_processed_files (control w)"
  by (auto simp: handle_corruption_def bindE_def updE_def ret_def fully_processed_marked record_corruption_def Let_def
      split: if_splits prod.splits sum.splits dest!: flush_current_fully)

lemma process_records_nothing_lost:
  assumes "nothing_lost st ev log lost F w"
    and "run_inv st ev log lost before (w, b)" and "unique_names ev"
    and "0 < materialize_batch_size st" and "f \<in> set (keys log)"
    and "wal_records_from f (log_bytes log f) (position (w, b) f) (max_wal_record_bytes st) = (rs, stop)"
    and "process_records st ev f (take i rs) None (w, b) = (Inr (), (w', b'))"
  shows "nothing_lost st ev log lost F w'"
  using assms
proof (induction i arbitrary: rs w b)
  case 0
  then show ?case by (simp add: ret_def)
next
  case (Suc i)
  note inv = Suc.prems(2) and names = Suc.prems(3) and size = Suc.prems(4) and f = Suc.prems(5)
  show ?case
  proof (cases rs)
    case Nil
    with Suc.prems show ?thesis by (simp add: ret_def)
  next
    case (Cons r rs')
    have recs: "fst (wal_records_from f (log_bytes log f) (position (w, b) f) (max_wal_record_bytes st)) = r # rs'"
      using Suc.prems(6) Cons by simp
    obtain q w1 b1 where q: "process_record st ev f r (w, b) = (q, (w1, b1))" by (metis prod.collapse)
    with Suc.prems(7) Cons have rest: "q = Inr ()" "process_records st ev f (take i rs') None (w1, b1) = (Inr (), (w', b'))"
      by (auto simp: bindE_def split: sum.splits)
    note one = process_record_inv [OF inv names size f recs q]
    then have inv1: "run_inv st ev log lost before (w1, b1)" "position (w1, b1) f = rec_end r" using rest(1) by auto
    have "nothing_lost st ev log lost F w1"
    proof (cases "w1 = w")
      case False
      then have "batch_rows b1 = []"
        using q rest(1) by (auto simp: process_record_cases split: sum.splits if_splits dest: flush_current_empties)
      then show ?thesis
        by (rule nothing_lost_flushed [OF inv1(1)]) (use Suc.prems(1) process_record_fully [OF q] in \<open>simp add: nothing_lost_def\<close>)
    qed (use Suc.prems(1) in simp)
    moreover have "wal_records_from f (log_bytes log f) (position (w1, b1) f) (max_wal_record_bytes st) = (rs', stop)"
      using wal_records_step [of f "log_bytes log f" "position (w, b) f"] Suc.prems(6) Cons inv1(2) by simp
    ultimately show ?thesis using Suc.IH [OF _ inv1(1) names size f _ rest(2)] by blast
  qed
qed

lemma marked_upsert:
  "marked (tbl_upsert f \<lparr>max_offset = n, is_fully_processed = True\<rparr> (\<lambda>old. old\<lparr>is_fully_processed := True\<rparr>) t) =
     insert f (marked t)"
proof -
  have "marked (tbl_update f (\<lambda>old. old\<lparr>is_fully_processed := True\<rparr>) t) =
      (if tbl_has t f then insert f (marked t) else marked t)"
    by (induction t) (auto simp: marked_def tbl_update_def tbl_has_def)
  moreover have "marked (t @ [(f, \<lparr>max_offset = n, is_fully_processed = True\<rparr>)]) = insert f (marked t)"
    by (simp add: marked_def)
  ultimately show ?thesis by (simp add: tbl_upsert_def)
qed

lemma mark_sealed_nothing_lost:
  assumes nl: "nothing_lost st ev log lost F w" and run: "mark_sealed active f n k (w, b) = (q, (w', b'))"
  shows "nothing_lost st ev log lost F w'"
proof (cases "Some f \<noteq> active \<and> n = current_offset f k b")
  case False
  with run nl show ?thesis by (auto simp: mark_sealed_def updE_def)
next
  case True
  let ?t = "materialized_wal_offsets (control w)"
  let ?t' = "tbl_upsert f \<lparr>max_offset = n, is_fully_processed = True\<rparr> (\<lambda>old. old\<lparr>is_fully_processed := True\<rparr>) ?t"
  have w': "w' = w\<lparr>control := (control w)\<lparr>materialized_wal_offsets := ?t'\<rparr>\<rparr>"
    using run True by (auto simp: mark_sealed_def updE_def)
  have up: "marked ?t' = insert f (marked ?t)" by (rule marked_upsert)
  show ?thesis
  proof (cases "f \<in> marked ?t")
    case True
    then have "f \<in> set (keys ?t)" by (force simp: marked_def)
    then obtain row where "map_of ?t f = Some row" by (cases "map_of ?t f") (auto simp: map_of_eq_None_iff simp del: map_of_eq_Some_iff)
    then have "offset_of (control w') = offset_of (control w)"
      by (simp add: w' offset_of_def fun_eq_iff map_of_upsert)
    moreover have "visible w' = visible w"
      by (simp add: w' visible_def visible_rows_def get_committed_parquet_files_def committed_filenames_def)
    moreover have "fully_processed_files (control w') = fully_processed_files (control w)"
      using up True by (auto simp: fully_processed_marked w')
    ultimately show ?thesis using nl unfolding nothing_lost_def by simp
  next
    case False
    with nl up show ?thesis by (auto simp: nothing_lost_def fully_processed_marked w')
  qed
qed

text \<open>The same of segments and of lists of them, as long as they go through.\<close>

lemma process_file_nothing_lost:
  assumes nl: "nothing_lost st ev log lost F w"
    and inv: "run_inv st ev log lost before (w, b)" and names: "unique_names ev"
    and size: "0 < materialize_batch_size st" and sm: "small st (w, b)" and f: "f \<in> set (keys (wal_dir w))"
    and start: "map_of (batch_offsets b) f = None" "offset_of (control w) f = offset_of db0 f"
    and run: "process_file st ev db0 active f (w, b) = (Inr (), (w', b'))"
  shows "nothing_lost st ev log lost F w'"
proof (cases "skip_file db0 f (offset_of db0 f) (length (segment_bytes w f))")
  case True
  with run nl show ?thesis by (simp add: process_file_def)
next
  case False
  from process_file_inv [OF inv names size sm f start run]
  have inv': "run_inv st ev log lost before (w', b')" by simp
  have c: "segment_bytes w f = log_bytes log f" "f \<in> set (keys log)"
    using inv covers_bytes [of log w f] f by (simp_all add: run_inv_def)
  have pos: "position (w, b) f = offset_of db0 f" using start by (simp add: position_def)
  obtain rs stop where recs: "wal_records_from f (segment_bytes w f) (offset_of db0 f) (max_wal_record_bytes st) = (rs, stop)"
    by fastforce
  obtain q w1 b1 where q: "process_records st ev f rs stop (w, b) = (q, (w1, b1))" by (metis prod.collapse)
  show ?thesis
  proof (cases q)
    case (Inr x)
    with q process_records_stop have "stop = None" by metis
    with q Inr have "process_records st ev f (take (length rs) rs) None (w, b) = (Inr (), (w1, b1))" by simp
    from process_records_nothing_lost [OF nl inv names size c(2) _ this] recs c pos
    have "nothing_lost st ev log lost F w1" by simp
    moreover have "mark_sealed active f (length (segment_bytes w f)) (offset_of db0 f) (w1, b1) = (Inr (), (w', b'))"
      using run False recs q Inr
      by (auto simp: process_file_def try_except_def bindE_def mark_sealed_def updE_def split: if_splits)
    ultimately show ?thesis by (rule mark_sealed_nothing_lost)
  next
    case (Inl e)
    then have h: "handle_corruption ev f (length (segment_bytes w f)) (offset_of db0 f) e (w1, b1) = (Inr (), (w', b'))"
      using run False recs q by (auto simp: process_file_def try_except_def bindE_def split: if_splits)
    then have "batch_rows b' = []"
      by (auto simp: handle_corruption_def bindE_def updE_def ret_def Let_def
          split: if_splits prod.splits sum.splits dest: flush_current_empties)
    then show ?thesis
      by (rule nothing_lost_flushed [OF inv'])
        (use nl process_records_fully [OF q] handle_corruption_fully [OF h] in \<open>simp add: nothing_lost_def\<close>)
  qed
qed

lemma process_files_nothing_lost:
  assumes "nothing_lost st ev log lost F w"
    and "run_inv st ev log lost before (w, b)" and "unique_names ev"
    and "0 < materialize_batch_size st" and "small st (w, b)" and "distinct fs" and "set fs \<subseteq> set (keys (wal_dir w))"
    and "\<forall>f \<in> set fs. map_of (batch_offsets b) f = None \<and> offset_of (control w) f = offset_of db0 f"
    and "process_files st ev db0 active fs (w, b) = (Inr (), (w', b'))"
  shows "nothing_lost st ev log lost F w' \<and> small st (w', b')"
  using assms
proof (induction fs arbitrary: w b)
  case Nil
  then show ?case by (simp add: ret_def)
next
  case (Cons f fs)
  note inv = Cons.prems(2) and names = Cons.prems(3) and size = Cons.prems(4) and sm = Cons.prems(5)
  obtain q w1 b1 where q: "process_file st ev db0 active f (w, b) = (q, (w1, b1))" by (metis prod.collapse)
  with Cons.prems(9) have rest: "q = Inr ()" "process_files st ev db0 active fs (w1, b1) = (Inr (), (w', b'))"
    by (auto simp: bindE_def split: sum.splits)
  have f: "f \<in> set (keys (wal_dir w))" "map_of (batch_offsets b) f = None" "offset_of (control w) f = offset_of db0 f"
    using Cons.prems(7,8) by simp_all
  note one = process_file_inv [OF inv names size sm f q]
  have nl: "nothing_lost st ev log lost F w1"
    using process_file_nothing_lost [OF Cons.prems(1) inv names size sm f] q rest(1) by simp
  have "\<forall>g \<in> set fs. map_of (batch_offsets b1) g = None \<and> offset_of (control w1) g = offset_of db0 g"
  proof
    fix g assume g: "g \<in> set fs"
    then have "g \<noteq> f" "map_of (batch_offsets b) g = None" "offset_of (control w) g = offset_of db0 g"
      using Cons.prems(6,8) by auto
    with one have "map_of (batch_offsets b1) g = None" "position (w1, b1) g = position (w, b) g"
      by (auto simp: others_kept_def)
    then show "map_of (batch_offsets b1) g = None \<and> offset_of (control w1) g = offset_of db0 g"
      using \<open>map_of (batch_offsets b) g = None\<close> \<open>offset_of (control w) g = offset_of db0 g\<close>
      by (simp add: position_def)
  qed
  moreover have "wal_dir w1 = wal_dir w" using one by (simp add: keeps_rest_def)
  moreover have "run_inv st ev log lost before (w1, b1)" "small st (w1, b1)" using one rest(1) by simp_all
  ultimately show ?case using Cons.IH [OF nl _ names size] Cons.prems(6,7) rest(2) by simp
qed

section \<open>A run that a failing operation ends\<close>

text \<open>Segments without damage from where they were read to.\<close>

definition clean_log :: "settings \<Rightarrow> env \<Rightarrow> world \<Rightarrow> bool" where
  "clean_log st ev w \<longleftrightarrow> (\<forall>f \<in> set (sorted_wal_files (keys (wal_dir w))).
     clean_from st ev f (segment_bytes w f) (offset_of (control w) f))"

text \<open>
  The world such a run leaves: the accounts hold but for fewer rows than a batch has, none when no
  segment was marked, and no corruption is reported that is not there.
\<close>

definition interrupted :: "settings \<Rightarrow> env \<Rightarrow> wal_log \<Rightarrow> span_row multiset \<Rightarrow> world \<Rightarrow> world \<Rightarrow> bool" where
  "interrupted st ev log lost w w' \<longleftrightarrow>
     (\<exists>b. run_inv st ev log lost (size (visible w)) (w', b) \<and> small st (w', b)) \<and>
     nothing_lost st ev log lost (fully_processed_files (control w)) w' \<and>
     wal_dir w' = wal_dir w \<and> lifecycle_lock w' = lifecycle_lock w \<and>
     (\<forall>f. offset_of (control w) f \<le> offset_of (control w') f) \<and>
     fully_processed_files (control w') \<subseteq> fully_processed_files (control w) \<union>
       {f \<in> set (sorted_wal_files (keys (wal_dir w))). active_segment w \<noteq> Some f} \<and>
     (clean_log st ev w \<longrightarrow> undisturbed w w')"

lemma small_empty: "0 < materialize_batch_size st \<Longrightarrow> small st (w, empty_batch)"
  by (simp add: small_def empty_batch_def)

lemma interrupted_start:
  assumes "accounted st ev log lost w" "0 < materialize_batch_size st"
  shows "interrupted st ev log lost w w"
  unfolding interrupted_def
  using accounted_run_inv [OF assms(1)] small_empty [OF assms(2)] nothing_lost_start [OF assms(1)] by auto

lemma run_inv_same:
  "run_inv st ev log lost before (w, b) \<Longrightarrow> control w' = control w \<Longrightarrow> wal_dir w' = wal_dir w \<Longrightarrow>
   store_inv ev w' \<Longrightarrow> visible w' = visible w \<Longrightarrow> run_inv st ev log lost before (w', b)"
proof -
  assume inv: "run_inv st ev log lost before (w, b)" and same: "control w' = control w" "wal_dir w' = wal_dir w"
    "store_inv ev w'" "visible w' = visible w"
  have "position (w', b) = position (w, b)" by (simp add: position_def same(1) fun_eq_iff split: option.split)
  with inv same show "run_inv st ev log lost before (w', b)" by (simp add: run_inv_def log_covers_def)
qed

lemma interrupted_lock:
  assumes int: "interrupted st ev log lost u w1"
    and same: "control u = control w" "wal_dir u = wal_dir w" "visible u = visible w"
  shows "interrupted st ev log lost w (w1\<lparr>lifecycle_lock := lifecycle_lock w\<rparr>)"
proof -
  let ?w = "w1\<lparr>lifecycle_lock := lifecycle_lock w\<rparr>"
  from int obtain b where b: "run_inv st ev log lost (size (visible u)) (w1, b)" "small st (w1, b)"
    by (auto simp: interrupted_def)
  have "run_inv st ev log lost (size (visible w)) (?w, b)"
    by (rule run_inv_same [OF b(1) [unfolded same]]) (use b(1) in \<open>simp_all add: run_inv_def\<close>)
  moreover have "small st (?w, b)" using b(2) by (simp add: small_def)
  moreover have "segment_bytes u = segment_bytes w" by (simp add: segment_bytes_def same fun_eq_iff)
  ultimately show ?thesis using int
    unfolding interrupted_def clean_log_def active_segment_def nothing_lost_def undisturbed_def same
    by auto
qed

lemma stopped_interrupted:
  assumes acc: "accounted st ev log lost w" and names: "unique_names ev" and size: "0 < materialize_batch_size st"
    and dist: "distinct (keys (wal_dir w))" and point: "run_point st ev w (v, b)" and sm: "small st (v, b)"
    and nl: "nothing_lost st ev log lost (fully_processed_files (control w)) v"
    and clean: "clean_log st ev w \<Longrightarrow> undisturbed w v" and stop: "stopped_at ev (v, b) w'"
  shows "interrupted st ev log lost w w'"
proof -
  let ?F = "fully_processed_files (control w)"
  have inv: "run_inv st ev log lost (size (visible w)) (v, b)" and keep: "keeps_rest (w, empty_batch) (v, b)"
    using run_point_inv [OF acc names size dist point] by simp_all
  have F: "?F \<subseteq> fully_processed_files (control v)" using nl by (simp add: nothing_lost_def)
  have "\<exists>b'. run_inv st ev log lost (size (visible w)) (w', b') \<and> keeps_rest (v, b) (w', b') \<and> small st (w', b') \<and>
      nothing_lost st ev log lost ?F w' \<and> fully_processed_files (control w') = fully_processed_files (control v) \<and>
      undisturbed v w'"
  proof (cases "unnoticed ev v w'")
    case True
    then have same: "control w' = control v" "wal_dir w' = wal_dir v" "lifecycle_lock w' = lifecycle_lock v"
      and st: "store_inv ev w'" "visible w' = visible v" using inv by (simp_all add: unnoticed_def run_inv_def)
    from run_inv_same [OF inv same(1,2) st] sm nl show ?thesis
      by (intro exI [of _ b]) (simp add: same st keeps_rest_def small_def nothing_lost_def undisturbed_def)
  next
    case False
    then obtain b' where ne: "batch_rows b \<noteq> []" and fl: "flush_current ev (v, b) = (Inr (), (w', b'))"
      using stop by (auto simp: stopped_at_def)
    note flushed = flush_current_inv [OF inv names ne fl]
    have empty: "batch_rows b' = []" by (rule flush_current_empties [OF fl])
    note fully = flush_current_fully [OF fl]
    have inv': "run_inv st ev log lost (size (visible w)) (w', b')" using flushed by simp
    have "nothing_lost st ev log lost ?F w'" by (rule nothing_lost_flushed [OF inv' empty]) (simp add: fully F)
    then show ?thesis
      using flushed empty size fully flush_current_undisturbed [OF fl] by (intro exI [of _ b']) (simp add: small_def)
  qed
  then obtain b' where b': "run_inv st ev log lost (size (visible w)) (w', b')" "keeps_rest (v, b) (w', b')" "small st (w', b')"
      "nothing_lost st ev log lost ?F w'" "fully_processed_files (control w') = fully_processed_files (control v)"
      "undisturbed v w'" by blast
  have "keeps_rest (w, empty_batch) (w', b')" using keeps_rest_trans [OF keep b'(2)] .
  moreover have "clean_log st ev w \<longrightarrow> undisturbed w w'" using clean undisturbed_trans [OF _ b'(6)] by blast
  ultimately show ?thesis
    unfolding interrupted_def using b' run_point_marks [OF point] by (auto simp: keeps_rest_def)
qed

text \<open>The loop over the segments and the last flush: as in Materialize, or ended by a failure.\<close>

lemma materialize_run_fault:
  assumes acc: "accounted st ev log lost w" and names: "unique_names ev" and size: "0 < materialize_batch_size st"
    and dist: "distinct (keys (wal_dir w))" and run: "materialize_run_io st ev io w = (r, (w', b'))"
  shows "materialize_run st ev w = (r, (w', b')) \<or>
    (\<exists>e. r = Inl e \<and> io_exception io (set (sorted_wal_files (keys (wal_dir w)))) e \<and> interrupted st ev log lost w w')"
proof -
  let ?F = "fully_processed_files (control w)" and ?files = "sorted_wal_files (keys (wal_dir w))"
  let ?loop = "process_files st ev (control w) (active_wal_filename ?files)"
  have dfs: "distinct ?files" by (rule distinct_sorted_wal_files [OF dist])
  note inv0 = accounted_run_inv [OF acc] and sm0 = small_empty [OF size, of w]
  have upto: "nothing_lost st ev log lost ?F v \<and> small st (v, b) \<and>
      run_inv st ev log lost (size (visible w)) (v, b) \<and> wal_dir v = wal_dir w \<and>
      (clean_log st ev w \<longrightarrow> undisturbed w v)"
    if before: "?loop (take j ?files) (w, empty_batch) = (Inr (), (v, b))" for j v b
  proof -
    have sub: "set (take j ?files) \<subseteq> set (keys (wal_dir w))" using set_take_subset [of j ?files] by auto
    have "undisturbed w v" if "clean_log st ev w"
      by (rule process_files_undisturbed [OF _ before]) (use that set_take_subset in \<open>fast intro: in_set_takeD dest: clean_log_def [THEN iffD1]\<close>)
    moreover have "nothing_lost st ev log lost ?F v \<and> small st (v, b)"
      using process_files_nothing_lost [OF nothing_lost_start [OF acc] inv0 names size sm0 _ sub _ before] dfs
      by (simp add: empty_batch_def)
    ultimately show ?thesis using some_files_inv [OF acc names size dist refl before] by (simp add: keeps_rest_def)
  qed
  obtain p v c where p: "process_files_io st ev io (control w) (active_wal_filename ?files) ?files (w, empty_batch) = (p, (v, c))"
    by (metis prod.collapse)
  from process_files_fault [OF p] show ?thesis
  proof
    assume plain: "?loop ?files (w, empty_batch) = (p, (v, c))"
    show ?thesis
    proof (cases "\<exists>x. p = Inr x \<and> batch_rows c \<noteq> []")
      case False
      then have "(r, (w', b')) = (p, (v, c))" using run p by (cases p) (auto simp: materialize_run_io_def bindE_def)
      moreover have "materialize_run st ev w = (p, (v, c))"
        using plain False by (cases p) (auto simp: materialize_run_def bindE_def)
      ultimately show ?thesis by simp
    next
      case True
      then have ok: "p = Inr ()" and fl: "flush_current_io ev io (v, c) = (r, (w', b'))"
        using run p by (auto simp: materialize_run_io_def bindE_def)
      from flush_current_fault [OF fl] show ?thesis
      proof
        assume "flush_current ev (v, c) = (r, (w', b'))"
        with plain True ok show ?thesis by (simp add: materialize_run_def bindE_def)
      next
        assume "\<exists>e. r = Inl e \<and> io_exception io {} e \<and> unnoticed ev v w'"
        then obtain e where e: "r = Inl e" "io_exception io {} e" and un: "unnoticed ev v w'" by blast
        have all: "?loop (take (length ?files) ?files) (w, empty_batch) = (Inr (), (v, c))" using plain ok by simp
        from upto [OF all] have "interrupted st ev log lost w w'"
          by (intro stopped_interrupted [OF acc names size dist point_files [OF refl all] _ _ _ stopped_at_unnoticed [OF un]]) simp_all
        with e io_exception_mono [OF e(2)] show ?thesis by blast
      qed
    qed
  next
    assume "\<exists>j s1. j < length ?files \<and> ?loop (take j ?files) (w, empty_batch) = (Inr (), s1) \<and>
      segment_stop st ev io (control w) (?files ! j) s1 p (fst (v, c))"
    then obtain j w1 b1 where j: "j < length ?files" and before: "?loop (take j ?files) (w, empty_batch) = (Inr (), (w1, b1))"
      and stop: "segment_stop st ev io (control w) (?files ! j) (w1, b1) p v" by auto
    define f where "f = ?files ! j"
    have "ys ! j \<notin> set (take j ys)" if "distinct ys" "j < length ys" for ys :: "string list"
      using that by (auto simp: in_set_conv_nth nth_eq_iff_index_eq)
    with dfs j have f: "f \<in> set ?files" "f \<notin> set (take j ?files)" unfolding f_def by (blast intro: nth_mem)+
    note u = upto [OF before]
    have bytes: "segment_bytes w1 f = segment_bytes w f" using u by (simp add: segment_bytes_def)
    from stop [folded f_def] bytes obtain rs stp t b2 i e where
      recs: "wal_records_from f (segment_bytes w f) (offset_of (control w) f) (max_wal_record_bytes st) = (rs, stp)"
      and skip: "\<not> skip_file (control w) f (offset_of (control w) f) (length (segment_bytes w f))"
      and some: "process_records st ev f (take i rs) None (w1, b1) = (Inr (), (t, b2))"
      and e: "p = Inl e" "io_exception io {f} e" and st: "stopped_at ev (t, b2) v"
      by (auto simp: segment_stop_def passes_def)
    have inv1: "run_inv st ev log lost (size (visible w)) (w1, b1)" and dir: "wal_dir w1 = wal_dir w" using u by simp_all
    have "f \<in> set (keys (wal_dir w1))" using f(1) by (simp add: dir)
    with inv1 covers_bytes [of log w1 f] bytes have c: "segment_bytes w f = log_bytes log f" "f \<in> set (keys log)"
      by (simp_all add: run_inv_def)
    have pos: "position (w1, b1) f = offset_of (control w) f"
      using some_files_inv [OF acc names size dist refl before] f(2) by blast
    have point: "run_point st ev w (t, b2)" by (rule point_records [OF refl before j f_def recs skip some])
    have nl: "nothing_lost st ev log lost ?F t"
      using process_records_nothing_lost [OF conjunct1 [OF u] inv1 names size c(2) _ some] recs c(1) pos by simp
    have sm: "small st (t, b2)" using process_records_small [OF _ size some] u by simp
    have calm: "undisturbed w t" if clean: "clean_log st ev w"
    proof -
      have "list_all (parses ev f) rs" using clean f(1) recs by (auto simp: clean_from_def clean_log_def)
      then have "list_all (parses ev f) (take i rs)" by (meson in_set_takeD list_all_iff)
      then have "undisturbed w1 t" using process_records_undisturbed [OF _ some] by blast
      with u clean show ?thesis by (blast intro: undisturbed_trans)
    qed
    have "interrupted st ev log lost w v"
      by (rule stopped_interrupted [OF acc names size dist point sm nl calm st])
    moreover have "r = Inl e" "w' = v" using run p e(1) by (simp_all add: materialize_run_io_def bindE_def)
    moreover have "io_exception io (set ?files) e" using e(2) f(1) by (auto intro: io_exception_mono)
    ultimately show ?thesis by blast
  qed
qed

lemma materialize_io_fault:
  assumes acc: "accounted st ev log lost w" and names: "unique_names ev" and size: "0 < materialize_batch_size st"
    and dist: "distinct (keys (wal_dir w))" and idle: "lock_idle a (lifecycle_lock w)"
    and run: "materialize_io st ev io a w = (r, w')"
  shows "materialize st ev a w = (r, w') \<or>
    (\<exists>e. r = Inl e \<and> io_exception io (set (sorted_wal_files (keys (wal_dir w)))) e \<and> interrupted st ev log lost w w')"
proof -
  let ?u = "w\<lparr>lifecycle_lock := lock_taken a (lifecycle_lock w)\<rparr>"
  let ?files = "sorted_wal_files (keys (wal_dir w))"
  obtain n o' where orph: "cleanup_orphaned_parquet_files ev (manifest_error ev) ?u = (n, o')" by fastforce
  note same = cleanup_orphaned_same [OF orph]
  have acc0: "accounted st ev log lost o'" "visible o' = visible w"
    using accounted_orphans [OF _ orph, of st log lost] acc by simp_all
  have dist0: "distinct (keys (wal_dir o'))" using same dist by simp
  note start = interrupted_start [OF acc size] interrupted_start [OF acc0(1) size]
  have lock: "interrupted st ev log lost o' w1 \<Longrightarrow> interrupted st ev log lost w (w1\<lparr>lifecycle_lock := lifecycle_lock w\<rparr>)" for w1
    by (erule interrupted_lock) (use same acc0(2) in simp_all)
  obtain q v b where q: "materialize_run_io st ev io o' = (q, (v, b))" by (metis prod.collapse)
  have ended: "r = Inl e \<and> w' = w1\<lparr>lifecycle_lock := lifecycle_lock w\<rparr>"
    if "materialize_io_body st ev io a ?u = (Inl e, w1)" "lifecycle_lock w1 = lifecycle_lock ?u" for e w1
  proof -
    have "lifecycle_lock w1 = lock_taken a (lifecycle_lock w)" using that(2) by simp
    from with_lock_idle [of a w "materialize_io_body st ev io a", OF idle that(1) this] run show ?thesis
      by (simp add: materialize_io_def)
  qed
  have fail: "\<exists>e. r = Inl e \<and> io_exception io (set ?files) e \<and> interrupted st ev log lost w w'"
    if "materialize_io_body st ev io a ?u = (Inl e, w1)" "io_exception io (set ?files) e" "interrupted st ev log lost o' w1" for e w1
  proof -
    have "lifecycle_lock w1 = lifecycle_lock ?u" using that(3) same by (simp add: interrupted_def)
    from ended [OF that(1) this] that(2) lock [OF that(3)] show ?thesis by simp
  qed
  note run_fault = materialize_run_fault [OF acc0(1) names size dist0 q]
  show ?thesis
  proof (cases "mkdir_fault io")
    case (Some m)
    then have "r = Inl (OS_Error m)" "w' = w" using ended [of "OS_Error m" ?u] by (simp_all add: materialize_io_body_def)
    moreover have "io_exception io (set ?files) (OS_Error m)" using Some by (simp add: io_exception_def os_fault_def)
    ultimately show ?thesis using start(1) by blast
  next
    case mkdir: None
    show ?thesis
    proof (cases "query_fault io")
      case (Some m)
      have "io_exception io (set ?files) (Operational_Error m)" using Some by (simp add: io_exception_def sqlite_fault_def)
      moreover have "materialize_io_body st ev io a ?u = (Inl (Operational_Error m), o')"
        using mkdir Some orph by (simp add: materialize_io_body_def)
      ultimately show ?thesis using fail start(2) by blast
    next
      case query: None
      show ?thesis
      proof (cases "?files = [] \<or> materialize_run st ev o' = (q, (v, b))")
        case True
        then have "materialize_io_body st ev io a ?u = materialize_body st ev a ?u"
          using mkdir query orph same q by (auto simp: materialize_io_body_def materialize_body_run)
        then have "materialize_io st ev io a w = materialize st ev a w"
          using idle by (simp add: materialize_io_def materialize_def with_lifecycle_lock_def enter_lock_idle)
        with run show ?thesis by simp
      next
        case False
        then obtain e where e: "q = Inl e" "io_exception io (set ?files) e" "interrupted st ev log lost o' v"
          using run_fault same by auto
        have "materialize_io_body st ev io a ?u = (Inl e, v)"
          using mkdir query orph same q e(1) False by (simp add: materialize_io_body_def)
        with fail e(2,3) show ?thesis by blast
      qed
    qed
  qed
qed

text \<open>Without a failure the run is that of Materialize.\<close>

lemma flush_no_fault: "flush_current_io ev no_faults = flush_current ev"
proof -
  have "flush_batch_io ev no_faults rows entries offs w = flush_batch ev rows entries offs w" for rows entries offs w
    by (simp add: flush_batch_io_def flush_batch_def no_faults_def)
  then show ?thesis by (simp add: flush_current_io_def flush_current_def)
qed

lemma process_records_no_fault:
  "process_records_io st ev no_faults f rs (map_option Wal_Corruption stop) = process_records st ev f rs stop"
proof -
  have "process_record_io st ev no_faults f r = process_record st ev f r" for r
    unfolding process_record_io_def process_record_def flush_no_fault ..
  then show ?thesis by (induction rs) (simp_all split: option.split)
qed

lemma process_file_no_fault: "process_file_io st ev no_faults db0 active f = process_file st ev db0 active f"
proof -
  have "mark_sealed_io no_faults active f n k = mark_sealed active f n k" for n k
    by (simp add: mark_sealed_io_def no_faults_def)
  note mark = this
  have handle: "handle_corruption_io ev no_faults f n k e = handle_corruption ev f n k e" for n k e
    unfolding handle_corruption_io_def handle_corruption_def flush_no_fault by (simp add: no_faults_def)
  have read: "read_segment no_faults f c k m = (case wal_records_from f c k m of (rs, stop) \<Rightarrow> (rs, map_option Wal_Corruption stop))" for c k m
    by (simp add: read_segment_def no_faults_def)
  show ?thesis
    unfolding process_file_io_def process_file_def mark handle read
    by (auto simp: process_records_no_fault Let_def fun_eq_iff split: prod.split)
qed

lemma materialize_no_fault: "materialize_io st ev no_faults a = materialize st ev a"
proof -
  have "process_files_io st ev no_faults db0 active fs = process_files st ev db0 active fs" for db0 active fs
    by (induction fs) (simp_all add: process_file_no_fault)
  then have "materialize_run_io st ev no_faults = materialize_run st ev"
    unfolding materialize_run_io_def [abs_def] materialize_run_def [abs_def] flush_no_fault by simp
  note loop = this
  have "mkdir_fault no_faults = None" "query_fault no_faults = None" by (simp_all add: no_faults_def)
  then have "materialize_io_body st ev no_faults a = materialize_body st ev a"
    unfolding materialize_io_body_def [abs_def] materialize_body_run [abs_def] loop by simp
  then show ?thesis by (simp add: materialize_io_def materialize_def)
qed

section \<open>Properties\<close>


text \<open>The transaction of the only flush fails.\<close>

definition commit_fails :: io_faults where
  "commit_fails = no_faults\<lparr>flush_fault := (\<lambda>_. Some (Commit_Fails ''Simulated crash during SQLite commit''))\<rparr>"

lemma commit_fails_run:
  "fst (materialize_io sample_settings one_span commit_fails (0, 0) (fresh_world sample_segments)) =
     Inl (Operational_Error ''Simulated crash during SQLite commit'')"
  by code_simp


end
