(* ===== verification/Compaction_Errors.thy ===== *)
theory Compaction_Errors
  imports Parquet_Store
begin

text \<open>
  \<open>compact_parquet_files\<close> of backend/app/materializer.py when its file accesses or its transactions
  fail: which exceptions pass, what is left behind, and what becomes of the exception of
  \<open>writer.close()\<close>, which the code swallows.
\<close>

section \<open>A compaction with failing operations\<close>

text \<open>
  What fails: \<open>mkdir\<close> or the query of the manifest; \<open>ParquetWriter\<close> or \<open>write_table\<close>; the
  \<open>close\<close> of the writer, with the rows that can be read of the file it leaves (none if it has no
  footer, and then each query that meets it may raise, which is \<open>query_error\<close> of Queries); the
  \<open>unlink\<close> of the temporary file, with what that holds; the rename; the transaction, which is
  rolled back.
\<close>

record compact_faults =
  prepare_fault :: "exn option"
  write_fault :: "string option"
  close_fault :: "span_row list option"
  discard_fault :: "(span_row list \<times> string) option"
  rename_fault :: "string option"
  commit_fault :: "string option"

definition discard_temp :: "env \<Rightarrow> compact_faults \<Rightarrow> nat \<Rightarrow> exn + nat \<Rightarrow> (world, exn, nat) eff" where
  "discard_temp ev faults n result w =
    (case discard_fault faults of
       None \<Rightarrow> (result, w\<lparr>parquet_dir := tbl_remove (compacted_temp ev n) (parquet_dir w)\<rparr>)
     | Some (partial, m) \<Rightarrow> (Inl (OS_Error m), write_parquet (compacted_temp ev n) partial w))"

definition publish_compacted :: "env \<Rightarrow> compact_faults \<Rightarrow> nat \<Rightarrow> nat \<Rightarrow> span_row list \<Rightarrow> string list \<Rightarrow>
    (world, exn, nat) eff" where
  "publish_compacted ev faults n total_rows written to_merge w =
    (let w = write_parquet (compacted_temp ev n) written (write_parquet (compacted_temp ev n) [] w) in
     case rename_fault faults of
       Some m \<Rightarrow> (Inl (OS_Error m), w)
     | None \<Rightarrow>
        (let w = replace_parquet (compacted_temp ev n) (compacted_filename ev n) w in
         case commit_fault faults of
           Some m \<Rightarrow> (Inl (Operational_Error m), w)
         | None \<Rightarrow>
            (case commit_compaction (compacted_filename ev n) total_rows to_merge (control w) of
               None \<Rightarrow> (Inl (Integrity_Error ''UNIQUE constraint failed: parquet_files.filename''), w)
             | Some db \<Rightarrow> (Inr total_rows, fold (unlink_parquet ev) to_merge (w\<lparr>control := db\<rparr>)))))"

definition compaction_body_io :: "env \<Rightarrow> compact_faults \<Rightarrow> nat \<Rightarrow> (world, exn, nat) eff" where
  "compaction_body_io ev faults max_files_to_merge w =
    (case prepare_fault faults of
       Some e \<Rightarrow> (Inl e, w)
     | None \<Rightarrow>
        (let valid_files = get_committed_parquet_files (Inr (control w)) (parquet_dir w) in
         if length valid_files \<le> 1 then (Inr 0, w)
         else let to_merge = take max_files_to_merge valid_files; n = ticks w; w = draw_tick w in
         case write_fault faults of
           Some m \<Rightarrow> discard_temp ev faults n (Inl (OS_Error m)) w
         | None \<Rightarrow>
            (case read_batches ev w to_merge of
               Inl e \<Rightarrow> discard_temp ev faults n (Inl e) w
             | Inr rows \<Rightarrow>
                 if rows = [] then discard_temp ev faults n (Inr 0) w
                 else publish_compacted ev faults n (length rows)
                   (case close_fault faults of None \<Rightarrow> rows | Some partial \<Rightarrow> partial) to_merge w)))"

definition compact_parquet_files_io :: "env \<Rightarrow> compact_faults \<Rightarrow> agent \<Rightarrow> nat \<Rightarrow> (world, exn, nat) eff" where
  "compact_parquet_files_io ev faults a max_files_to_merge =
     with_lifecycle_lock a (compaction_body_io ev faults max_files_to_merge)"

text \<open>Without a fault it is the compaction of Parquet_Store.\<close>

definition no_compact_faults :: compact_faults where
  "no_compact_faults = \<lparr> prepare_fault = None, write_fault = None, close_fault = None,
     discard_fault = None, rename_fault = None, commit_fault = None \<rparr>"

lemma compact_no_fault: "compact_parquet_files_io ev no_compact_faults a m = compact_parquet_files ev a m"
proof -
  have "compaction_body_io ev no_compact_faults m = compaction_body ev m"
    by (rule ext) (simp add: compaction_body_io_def compaction_body_def no_compact_faults_def discard_temp_def
        publish_compacted_def compact_write_steps_def run_steps_def Let_def split: sum.split)
  then show ?thesis by (simp add: compact_parquet_files_io_def compact_parquet_files_def)
qed

section \<open>What it leaves behind\<close>

text \<open>The rest of a world, which no compaction touches.\<close>

definition compaction_frame :: "world \<Rightarrow> world \<Rightarrow> bool" where
  "compaction_frame w w' \<longleftrightarrow> wal_dir w' = wal_dir w \<and> lifecycle_lock w' = lifecycle_lock w \<and>
     materialized_wal_offsets (control w') = materialized_wal_offsets (control w) \<and>
     wal_corruption_events (control w') = wal_corruption_events (control w)"

definition compaction_kept :: "env \<Rightarrow> world \<Rightarrow> world \<Rightarrow> bool" where
  "compaction_kept ev w w' \<longleftrightarrow> store_inv ev w' \<and> visible w' = visible w \<and> compaction_frame w w'"

lemma kept_refl: "store_inv ev w \<Longrightarrow> compaction_kept ev w w"
  by (simp add: compaction_kept_def compaction_frame_def)

lemma discard_temp_kept:
  assumes inv: "store_inv ev w" and run: "discard_temp ev faults (ticks w) result (draw_tick w) = (r, w')"
  shows "compaction_kept ev w w' \<and> control w' = control w \<and> (r = result \<or> (\<exists>e. r = Inl e))"
proof -
  have "f \<in> committed_in (control w) \<Longrightarrow> f \<noteq> compacted_temp ev (ticks w)" for f
    using committed_not_tmp [OF inv] temp_names(2) by blast
  then show ?thesis
    using run conserve_cong [OF inv, of w'] store_inv_distinct(1) [OF inv]
    by (auto simp: discard_temp_def write_parquet_def draw_tick_def map_of_remove map_of_put compaction_kept_def
        compaction_frame_def split: option.splits prod.splits)
qed

text \<open>The first steps, up to the transaction.\<close>

definition published :: "env \<Rightarrow> span_row list \<Rightarrow> world \<Rightarrow> world" where
  "published ev written w = run_steps (compact_write_steps ev (ticks w) [] written) (draw_tick w)"

lemma publish_kept:
  assumes inv: "store_inv ev w"
  shows "compaction_kept ev w (published ev written w) \<and> control (published ev written w) = control w \<and>
    map_of (parquet_dir (published ev written w)) (compacted_filename ev (ticks w)) = Some written"
    and "compaction_kept ev w (write_parquet (compacted_temp ev (ticks w)) written
      (write_parquet (compacted_temp ev (ticks w)) [] (draw_tick w)))"
proof -
  have new: "compacted_filename ev (ticks w) \<notin> committed_in (control w)"
    using store_inv_fresh [OF inv, of "ticks w"] by (intro fresh_not_committed) simp
  note p = publish_prefix [OF inv temp_names(2) new refl, where partial = "[]" and rows = written]
  from p [of 3] show "compaction_kept ev w (published ev written w) \<and> control (published ev written w) = control w \<and>
    map_of (parquet_dir (published ev written w)) (compacted_filename ev (ticks w)) = Some written"
    by (simp add: published_def flush_steps_publish(2) compaction_kept_def compaction_frame_def)
  from p [of 2] show "compaction_kept ev w (write_parquet (compacted_temp ev (ticks w)) written
      (write_parquet (compacted_temp ev (ticks w)) [] (draw_tick w)))"
    by (simp add: publish_steps_def run_steps_def compaction_kept_def compaction_frame_def
        write_parquet_def draw_tick_def)
qed

lemma publish_compacted_cases:
  assumes inv: "store_inv ev w"
    and run: "publish_compacted ev faults (ticks w) total_rows written to_merge (draw_tick w) = (r, w')"
  obtains (failed) e where "r = Inl e" "compaction_kept ev w w'" "control w' = control w"
  | (committed) db where "r = Inr total_rows"
      "commit_compaction (compacted_filename ev (ticks w)) total_rows to_merge (control w) = Some db"
      "w' = fold (unlink_parquet ev) to_merge ((published ev written w)\<lparr>control := db\<rparr>)"
proof -
  let ?t = "compacted_temp ev (ticks w)" and ?f = "compacted_filename ev (ticks w)"
  let ?w2 = "write_parquet ?t written (write_parquet ?t [] (draw_tick w))"
  have w3: "replace_parquet ?t ?f ?w2 = published ev written w"
    by (simp add: published_def compact_write_steps_def run_steps_def)
  have new: "map_of (parquet_files (control w)) ?f = None"
    using store_inv_fresh [OF inv, of "ticks w"] by simp
  then obtain db where db: "commit_compaction ?f total_rows to_merge (control w) = Some db"
    by (auto simp: commit_compaction_def tbl_insert_def tbl_has_map_of)
  note kept = publish_kept [OF inv, of written]
  have ctl: "control ?w2 = control w" by (simp add: write_parquet_def draw_tick_def)
  show thesis
  proof (cases "rename_fault faults")
    case (Some m)
    with run kept(2) ctl show ?thesis by (intro failed [of "OS_Error m"]) (auto simp: publish_compacted_def Let_def)
  next
    case None
    show ?thesis
    proof (cases "commit_fault faults")
      case (Some m)
      with None run kept(1) show ?thesis
        by (intro failed [of "Operational_Error m"]) (auto simp: publish_compacted_def Let_def w3)
    next
      case no: None
      with None run kept(1) db show ?thesis by (intro committed [of db]) (auto simp: publish_compacted_def Let_def w3)
    qed
  qed
qed

lemma committed_rows:
  assumes inv: "store_inv ev w" and db: "commit_compaction (compacted_filename ev (ticks w)) n (merge_files m w) (control w) = Some db"
    and w': "w' = fold (unlink_parquet ev) (merge_files m w) ((published ev written w)\<lparr>control := db\<rparr>)"
  shows "compaction_frame w w' \<and>
    committed_in (control w') = insert (compacted_filename ev (ticks w)) (committed_in (control w) - set (merge_files m w)) \<and>
    map_of (parquet_files (control w')) (compacted_filename ev (ticks w)) = Some \<lparr>record_count = n, pq_status = COMMITTED\<rparr> \<and>
    map_of (parquet_dir w') (compacted_filename ev (ticks w)) = Some written \<and>
    visible w' + (\<Sum>f \<in> set (merge_files m w). file_rows (parquet_dir w) f) = visible w + mset written"
proof -
  let ?M = "merge_files m w" and ?f = "compacted_filename ev (ticks w)" and ?t = "compacted_temp ev (ticks w)"
  let ?C = "committed_in (control w)" and ?w3 = "published ev written w"
  note w3 = publish_kept(1) [OF inv, of written] and spec = commit_compaction_spec [OF db]
  have nf: "?f \<notin> ?C" by (rule fresh_not_committed) (rule spec(1))
  have sub: "set ?M \<subseteq> ?C" by (rule merge_files_committed(1) [OF inv])
  with nf have nm: "?f \<notin> set ?M" by blast
  have same: "map_of (parquet_dir ?w3) g = map_of (parquet_dir w) g" if "g \<in> ?C" for g
  proof -
    have "g \<noteq> ?f" "g \<noteq> ?t" using that nf committed_not_tmp [OF inv] temp_names(2) by blast+
    then show ?thesis
      by (simp add: published_def compact_write_steps_def run_steps_def write_parquet_def replace_parquet_def
          draw_tick_def map_of_put map_of_remove)
  qed
  have ctl: "control w' = db" by (simp add: w' unlinks_same)
  have C: "committed_in (control w') = insert ?f (?C - set ?M)"
    unfolding ctl by (rule compaction_committed [OF db nm])
  have dir: "map_of (parquet_dir w') g = map_of (parquet_dir ?w3) g" if "g \<notin> set ?M" for g
    unfolding w' unlinks_dir map_of_filter_keys [of "\<lambda>x. x \<notin> set ?M \<or> unlink_fails ev x"] using that by simp
  have d: "distinct (keys (parquet_files (control w)))" "distinct (keys (parquet_files (control w')))"
    using store_inv_distinct(2) [OF inv] spec(4) by (simp_all add: ctl)
  have rest: "(\<Sum>g \<in> ?C - set ?M. file_rows (parquet_dir w') g) = (\<Sum>g \<in> ?C - set ?M. file_rows (parquet_dir w) g)"
    by (rule sum.cong) (auto simp: file_rows_def dir same)
  have new: "map_of (parquet_dir w') ?f = Some written" using dir [OF nm] w3 by simp
  have "visible w' = mset written + (\<Sum>g \<in> ?C - set ?M. file_rows (parquet_dir w) g)"
    unfolding visible_sum [OF d(2)] C using nf new rest by (simp add: file_rows_def)
  moreover have "visible w = (\<Sum>g \<in> ?C - set ?M. file_rows (parquet_dir w) g) + (\<Sum>f \<in> set ?M. file_rows (parquet_dir w) f)"
    unfolding visible_sum [OF d(1)] by (rule sum.subset_diff [OF sub]) simp
  moreover have "compaction_frame w w'"
    using w3 db by (auto simp: w' unlinks_same compaction_kept_def compaction_frame_def commit_compaction_def)
  moreover have "map_of (parquet_files (control w')) ?f = Some \<lparr>record_count = n, pq_status = COMMITTED\<rparr>"
    using nm by (simp add: ctl spec(2))
  ultimately show ?thesis using C new by (simp add: ac_simps)
qed

section \<open>Properties\<close>

text \<open>The body of a compaction under faults: it keeps everything, or it commits what was written.\<close>

lemma compaction_body_io_cases:
  assumes inv: "store_inv ev w" and names: "unique_names ev" and run: "compaction_body_io ev faults m w = (r, w')"
  obtains (failed) e where "r = Inl e" "compaction_kept ev w w'" "control w' = control w"
  | (unchanged) "r = Inr 0" "compaction_kept ev w w'" "control w' = control w"
  | (committed) rows db where "rows \<noteq> []" "r = Inr (length rows)"
      "mset rows = (\<Sum>f \<in> set (merge_files m w). file_rows (parquet_dir w) f)"
      "commit_compaction (compacted_filename ev (ticks w)) (length rows) (merge_files m w) (control w) = Some db"
      "w' = fold (unlink_parquet ev) (merge_files m w)
         ((published ev (case close_fault faults of None \<Rightarrow> rows | Some partial \<Rightarrow> partial) w)\<lparr>control := db\<rparr>)"
proof -
  let ?V = "get_committed_parquet_files (Inr (control w)) (parquet_dir w)"
  have rb: "read_batches ev (draw_tick w) fs = read_batches ev w fs" for fs
    by (induction fs) (simp_all add: draw_tick_def split: option.split sum.split)
  have M: "take m ?V = merge_files m w" by (simp add: merge_files_def)
  consider e where "prepare_fault faults = Some e" | "prepare_fault faults = None" "length ?V \<le> 1"
    | x where "prepare_fault faults = None" "\<not> length ?V \<le> 1" "write_fault faults = Some x"
    | e where "prepare_fault faults = None" "\<not> length ?V \<le> 1" "write_fault faults = None" "read_batches ev w (merge_files m w) = Inl e"
    | "prepare_fault faults = None" "\<not> length ?V \<le> 1" "write_fault faults = None" "read_batches ev w (merge_files m w) = Inr []"
    | rows where "prepare_fault faults = None" "\<not> length ?V \<le> 1" "write_fault faults = None"
        "read_batches ev w (merge_files m w) = Inr rows" "rows \<noteq> []"
    by (metis option.exhaust sum.exhaust)
  then show thesis
  proof cases
    case (1 e)
    with run kept_refl [OF inv] show ?thesis by (intro failed [of e]) (simp_all add: compaction_body_io_def)
  next
    case 2
    with run have "r = Inr 0" "w' = w" by (simp_all add: compaction_body_io_def)
    with unchanged kept_refl [OF inv] show ?thesis by blast
  next
    case (3 x)
    with run have "discard_temp ev faults (ticks w) (Inl (OS_Error x)) (draw_tick w) = (r, w')"
      by (simp add: compaction_body_io_def Let_def)
    from discard_temp_kept [OF inv this] failed show ?thesis by blast
  next
    case (4 e)
    with run have "discard_temp ev faults (ticks w) (Inl e) (draw_tick w) = (r, w')"
      by (simp add: compaction_body_io_def Let_def rb M)
    from discard_temp_kept [OF inv this] failed show ?thesis by blast
  next
    case 5
    with run have "discard_temp ev faults (ticks w) (Inr 0) (draw_tick w) = (r, w')"
      by (simp add: compaction_body_io_def Let_def rb M)
    from discard_temp_kept [OF inv this] failed unchanged show ?thesis by blast
  next
    case (6 rows)
    with run have "publish_compacted ev faults (ticks w) (length rows)
        (case close_fault faults of None \<Rightarrow> rows | Some partial \<Rightarrow> partial) (merge_files m w) (draw_tick w) = (r, w')"
      by (simp add: compaction_body_io_def Let_def rb M)
    from inv this show ?thesis
    proof (cases rule: publish_compacted_cases)
      case (failed e)
      with that(1) show ?thesis by blast
    next
      case (committed db)
      have "mset rows = (\<Sum>f \<in> set (merge_files m w). file_rows (parquet_dir w) f)"
        using read_batches_Inr [OF 6(4)] merge_files_committed(3) [OF inv] by simp
      with that(3) 6(5) committed show ?thesis by blast
    qed
  qed
qed

lemma compaction_body_io_kept:
  assumes inv: "store_inv ev w" and names: "unique_names ev" and run: "compaction_body_io ev faults m w = (r, w')"
    and closed: "close_fault faults = None"
  shows "compaction_kept ev w w' \<and> (\<forall>e. r = Inl e \<longrightarrow> control w' = control w)"
  using inv names run
proof (cases rule: compaction_body_io_cases)
  case (committed rows db)
  note frame = committed_rows [OF inv committed(4,5)]
  have "visible w' = visible w" using frame committed(3) closed by simp
  let ?w3 = "published ev rows w"
  note w3 = publish_kept(1) [OF inv, of rows]
  have sum: "mset rows = (\<Sum>g \<in> set (merge_files m w). file_rows (parquet_dir ?w3) g)"
  proof -
    have "file_rows (parquet_dir ?w3) g = file_rows (parquet_dir w) g" if "g \<in> set (merge_files m w)" for g
    proof -
      have "g \<in> committed_in (control w)" using that merge_files_committed(1) [OF inv] by blast
      moreover have "compacted_filename ev (ticks w) \<notin> committed_in (control w)"
        by (rule fresh_not_committed) (rule commit_compaction_spec(1) [OF committed(4)])
      ultimately have "g \<noteq> compacted_filename ev (ticks w)" "g \<noteq> compacted_temp ev (ticks w)"
        using committed_not_tmp [OF inv] temp_names(2) by blast+
      then show ?thesis
        by (simp add: file_rows_def published_def compact_write_steps_def run_steps_def write_parquet_def
            replace_parquet_def draw_tick_def map_of_put map_of_remove)
    qed
    then show ?thesis using committed(3) by simp
  qed
  have "ticks ?w3 = Suc (ticks w)"
    by (simp add: published_def compact_write_steps_def run_steps_def write_parquet_def replace_parquet_def draw_tick_def map_of_put)
  then have "store_inv ev (?w3\<lparr>control := db\<rparr>) \<and> visible (?w3\<lparr>control := db\<rparr>) = visible ?w3 \<and>
      set (merge_files m w) \<inter> committed_in db = {}"
    by (intro compaction_commit_conserves [OF _ _ _ _ _ temp_names(4) _ sum])
      (use w3 committed(4) merge_files_committed [OF inv] past_names(2) [OF names] in \<open>auto simp: compaction_kept_def\<close>)
  then have "store_inv ev w'"
    using unlinks_conserve [of ev "?w3\<lparr>control := db\<rparr>" "merge_files m w"] committed(5) closed by simp
  then show ?thesis using frame \<open>visible w' = visible w\<close> committed(2) by (simp add: compaction_kept_def)
qed auto


lemma sample_fault_runs:
  "fst (compact_parquet_files_io (sample_env (\<lambda>p. Parsed 1 [])) (no_compact_faults\<lparr>commit_fault := Some ''disk I/O error''\<rparr>)
     (0, 0) 20 sample_world) = Inl (Operational_Error ''disk I/O error'')"
  "fst (compact_parquet_files_io (sample_env (\<lambda>p. Parsed 1 [])) (no_compact_faults\<lparr>close_fault := Some []\<rparr>)
     (0, 0) 20 sample_world) = Inr 2"
  by code_simp+


end
