(* ===== verification/System.thy ===== *)
theory System
  imports Live_Run Io_Errors Compaction_Errors
begin

text \<open>
  The storage engine as a state machine: the gateway writes its segments, and operations of the
  backend run, each under the lifecycle lock (Storage_Lock shows that they exclude each other),
  in any order.  A materialisation may overlap with the gateway's writes (Live_Run); the other
  operations do not touch the segment that is written.
\<close>

definition system_start :: system where
  "system_start = \<lparr> sys_log = [], sys_world = fresh_world [], sys_failed = False \<rparr>"

text \<open>The files that an orphan cleanup deletes, in order.\<close>

definition orphan_files :: "world \<Rightarrow> string list" where
  "orphan_files w = filter (ends_with ''.tmp'') (keys (parquet_dir w)) @
     filter (\<lambda>f. ends_with ''.parquet'' f \<and> f \<notin> set (committed_filenames (control w))) (keys (parquet_dir w))"

text \<open>
  The operations of the backend: a materialisation that returns, that raises (also because a file
  access or a transaction fails), or that is killed at any of its points or within a flush; a
  compaction, whatever fails in it but for the close of the file it writes (Compaction_Errors has
  what becomes of that), an orphan cleanup or a WAL cleanup, done or killed half way; or a change
  of the table of projects.
\<close>

inductive backend_step :: "settings \<Rightarrow> env \<Rightarrow> system \<Rightarrow> system \<Rightarrow> bool" for st ev where
  step_materialize: "materialize st ev a (sys_world s) = (Inr n, w') \<Longrightarrow>
    backend_step st ev s (s\<lparr>sys_world := w'\<rparr>)"
| step_raise: "materialize st ev a (sys_world s) = (Inl e, w') \<Longrightarrow>
    backend_step st ev s (s\<lparr>sys_world := w', sys_failed := True\<rparr>)"
| step_io_error: "materialize_io st ev io a (sys_world s) = (Inl e, w') \<Longrightarrow>
    backend_step st ev s (s\<lparr>sys_world := w', sys_failed := True\<rparr>)"
| step_killed: "run_point st ev (sys_world s) (w', b) \<Longrightarrow>
    backend_step st ev s (s\<lparr>sys_world := w', sys_failed := True\<rparr>)"
| step_killed_flush: "run_point st ev (sys_world s) (w, b) \<Longrightarrow> list_all row_fits (batch_rows b) \<Longrightarrow>
    backend_step st ev s (s\<lparr>sys_world := cut_flush ev k partial (w, b), sys_failed := True\<rparr>)"
| step_compact: "compact_parquet_files_io ev faults a m (sys_world s) = (r, w') \<Longrightarrow> close_fault faults = None \<Longrightarrow>
    backend_step st ev s (s\<lparr>sys_world := w'\<rparr>)"
| step_killed_compact: "w = sys_world s \<Longrightarrow> read_batches ev w (merge_files m w) = Inr rows \<Longrightarrow>
    w' = run_steps (take k (compaction_steps ev (ticks w) partial rows (merge_files m w))) (draw_tick w) \<Longrightarrow>
    backend_step st ev s (s\<lparr>sys_world := w'\<rparr>)"
| step_orphans: "cleanup_orphaned_parquet_files ev err (sys_world s) = (n, w') \<Longrightarrow>
    backend_step st ev s (s\<lparr>sys_world := w'\<rparr>)"
| step_killed_orphans: "w = sys_world s \<Longrightarrow>
    backend_step st ev s (s\<lparr>sys_world := fold (unlink_parquet ev) (take k (orphan_files w)) w\<rparr>)"
| step_cleanup: "cleanup_materialized_wal_files ev a (sys_world s) = (r', w') \<Longrightarrow>
    backend_step st ev s (s\<lparr>sys_world := w'\<rparr>)"
| step_killed_cleanup: "w = sys_world s \<Longrightarrow>
    delete_segments ev (fully_processed_files (control w)) (take k (butlast (sorted_wal_files (keys (wal_dir w))))) w = (ds, w') \<Longrightarrow>
    backend_step st ev s (s\<lparr>sys_world := w'\<rparr>)"
| step_projects: "w = sys_world s \<Longrightarrow>
    backend_step st ev s (s\<lparr>sys_world := w\<lparr>control := (control w)\<lparr>projects := ps\<rparr>\<rparr>\<rparr>)"

text \<open>
  A step of the engine: a write of the gateway, an operation of the backend, or a materialisation
  that the gateway writes into.
\<close>

inductive sys_step :: "settings \<Rightarrow> env \<Rightarrow> system \<Rightarrow> system \<Rightarrow> bool" for st ev where
  step_wal: "wal_step s s' \<Longrightarrow> sys_step st ev s s'"
| step_backend: "backend_step st ev s s' \<Longrightarrow> sys_step st ev s s'"
| step_live: "live_end st ev s (Some (Inr n)) s' \<Longrightarrow> sys_step st ev s s'"
| step_live_fails: "live_end st ev s r s' \<Longrightarrow> (\<And>n. r \<noteq> Some (Inr n)) \<Longrightarrow>
    sys_step st ev s (s'\<lparr>sys_failed := True\<rparr>)"

inductive sys_reachable :: "settings \<Rightarrow> env \<Rightarrow> system \<Rightarrow> bool" for st ev where
  sys_start: "sys_reachable st ev system_start"
| sys_more: "sys_reachable st ev s \<Longrightarrow> sys_step st ev s s' \<Longrightarrow> sys_reachable st ev s'"

inductive_cases sys_step_E: "sys_step st ev s s'"

section \<open>The invariant\<close>

text \<open>Nothing readable of a segment is left after the offset in the database.\<close>

definition drained :: "settings \<Rightarrow> env \<Rightarrow> system \<Rightarrow> string \<Rightarrow> bool" where
  "drained st ev s f \<longleftrightarrow>
     rows_after st ev f (log_bytes (sys_log s) f) (offset_of (control (sys_world s)) f) = []"

definition sys_inv :: "settings \<Rightarrow> env \<Rightarrow> system \<Rightarrow> bool" where
  "sys_inv st ev s \<longleftrightarrow> (let w = sys_world s in
     (\<exists>lost. accounted st ev (sys_log s) lost w \<and> (\<not> sys_failed s \<longrightarrow> lost = {#})) \<and>
     distinct (keys (wal_dir w)) \<and> lifecycle_lock w = lock_init \<and>
     (\<forall>f \<in> set (keys (wal_dir w)). ends_with ''.wal'' f) \<and>
     (\<forall>f \<in> fully_processed_files (control w). f \<in> set (keys (sys_log s)) \<and> active_segment w \<noteq> Some f \<and>
        (\<not> sys_failed s \<longrightarrow> drained st ev s f)) \<and>
     (\<not> sys_failed s \<longrightarrow> (\<forall>f \<in> set (keys (sys_log s)) - set (keys (wal_dir w)). drained st ev s f)))"

lemma init_idle [simp]: "lock_idle a lock_init"
  by (simp add: lock_idle_def lock_init_def)

lemma drained_later:
  assumes b: "boundary st ev f c p" "boundary st ev f c q" and le: "p \<le> q" and none: "rows_after st ev f c p = []"
  shows "rows_after st ev f c q = []"
proof -
  have "mset (rows_upto st ev f c q) = mset (rows_upto st ev f c p)"
    by (rule nothing_left [OF b le none])
  then have "length (rows_upto st ev f c q) = length (rows_upto st ev f c p)" by (rule mset_eq_length)
  with arg_cong [OF rows_split [OF b(1)], of length] arg_cong [OF rows_split [OF b(2)], of length] none
  show ?thesis by simp
qed

lemma drained_mono:
  assumes "accounted st ev log lost w" "accounted st ev log lost' w'" "offset_of (control w) f \<le> offset_of (control w') f"
    and "rows_after st ev f (log_bytes log f) (offset_of (control w) f) = []"
  shows "rows_after st ev f (log_bytes log f) (offset_of (control w') f) = []"
  by (rule drained_later [OF _ _ assms(3,4)]) (use assms(1,2) in \<open>simp_all add: accounted_def\<close>)

text \<open>The start, and the steps of the gateway.\<close>

lemma sys_inv_start: "sys_inv st ev system_start"
proof -
  have "accounted st ev [] {#} (fresh_world [])" by (rule fresh_accounted) simp
  then show ?thesis
    by (auto simp: sys_inv_def system_start_def fresh_world_def fully_processed_files_def empty_store_def)
qed

lemma sys_inv_put:
  assumes inv: "sys_inv st ev s" and names: "f \<in> set (keys (wal_dir (sys_world s))) \<and> content = segment_bytes (sys_world s) f @ extra \<or>
      f \<notin> set (keys (sys_log s))"
    and active: "active_segment (sys_world (put_segment f content s)) = Some f" "ends_with ''.wal'' f"
    and only: "\<And>g. g \<in> fully_processed_files (control (sys_world s)) \<Longrightarrow> g \<noteq> f"
  shows "sys_inv st ev (put_segment f content s)"
proof -
  let ?w = "sys_world s" and ?s = "put_segment f content s"
  from inv obtain lost where acc: "accounted st ev (sys_log s) lost ?w" "\<not> sys_failed s \<longrightarrow> lost = {#}"
    by (auto simp: sys_inv_def Let_def)
  have "f \<in> set (keys (wal_dir ?w)) \<Longrightarrow> \<exists>c. map_of (wal_dir ?w) f = Some c \<and> segment_bytes ?w f = c"
    by (cases "map_of (wal_dir ?w) f") (auto simp: segment_bytes_def map_of_eq_None_iff simp del: map_of_eq_Some_iff)
  then have "(\<exists>c. map_of (wal_dir ?w) f = Some c \<and> content = c @ extra) \<or> f \<notin> set (keys (sys_log s))"
    using names by blast
  then have acc': "accounted st ev (sys_log ?s) lost (sys_world ?s)"
    using accounted_put [OF acc(1), of f _ content extra] by (auto simp: put_segment_def)
  have other: "drained st ev ?s g = drained st ev s g" if "g \<noteq> f" for g
    using that by (simp add: drained_def put_segment_def log_bytes_put)
  have keys: "set (keys (sys_log ?s)) = insert f (set (keys (sys_log s)))"
    "set (keys (wal_dir (sys_world ?s))) = insert f (set (keys (wal_dir ?w)))"
    by (simp_all add: put_segment_def del: set_map)
  have "fully_processed_files (control (sys_world ?s)) = fully_processed_files (control ?w)"
    by (simp add: put_segment_def)
  moreover have "sys_failed ?s = sys_failed s" "distinct (keys (wal_dir (sys_world ?s)))" "lifecycle_lock (sys_world ?s) = lock_init"
    using inv by (simp_all add: put_segment_def sys_inv_def Let_def)
  ultimately show ?thesis
    using inv acc acc' active only other unfolding sys_inv_def Let_def keys by auto
qed

lemma sys_inv_append:
  assumes inv: "sys_inv st ev s" and f: "active_segment (sys_world s) = Some f"
  shows "sys_inv st ev (put_segment f (segment_bytes (sys_world s) f @ extra) s)"
proof (rule sys_inv_put [OF inv])
  have "f \<in> set (sorted_wal_files (keys (wal_dir (sys_world s))))"
    using f last_in_set unfolding active_segment_def active_wal_filename_def by (metis option.distinct(1) option.inject)
  then have "f \<in> set (keys (wal_dir (sys_world s)))" by (simp del: set_map)
  then show "f \<in> set (keys (wal_dir (sys_world s))) \<and>
      segment_bytes (sys_world s) f @ extra = segment_bytes (sys_world s) f @ extra \<or> f \<notin> set (keys (sys_log s))"
    and "active_segment (sys_world (put_segment f (segment_bytes (sys_world s) f @ extra) s)) = Some f"
    and "ends_with ''.wal'' f"
    using f inv by (simp_all add: active_segment_def put_segment_def keys_put_old sys_inv_def Let_def del: set_map)
  show "g \<noteq> f" if "g \<in> fully_processed_files (control (sys_world s))" for g
    using that inv f by (auto simp: sys_inv_def Let_def)
qed

lemma sys_inv_open:
  assumes inv: "sys_inv st ev s" and f: "f \<notin> set (keys (sys_log s))" "ends_with ''.wal'' f"
    and newest: "\<forall>g \<in> set (keys (wal_dir (sys_world s))). parse_wal_key g < parse_wal_key f"
  shows "sys_inv st ev (put_segment f [] s)"
proof (rule sys_inv_put [OF inv, where extra = "[]"])
  show "active_segment (sys_world (put_segment f [] s)) = Some f"
    unfolding active_segment_def
    by (rule active_newest) (use f(2) newest in \<open>auto simp: put_segment_def simp del: set_map\<close>)
  show "g \<noteq> f" if "g \<in> fully_processed_files (control (sys_world s))" for g
    using that inv f(1) by (auto simp: sys_inv_def Let_def)
qed (use f in simp_all)

text \<open>The steps of the backend: what each has to show of the new world.\<close>

lemma sys_inv_world:
  assumes inv: "sys_inv st ev s" and "\<not> failed \<Longrightarrow> \<not> sys_failed s"
    and acc: "accounted st ev (sys_log s) lost w'" "\<not> failed \<Longrightarrow> lost = {#}"
    and mono: "\<And>f. offset_of (control (sys_world s)) f \<le> offset_of (control w') f"
    and world: "distinct (keys (wal_dir w'))" "lifecycle_lock w' = lock_init"
      "set (keys (wal_dir w')) \<subseteq> set (keys (wal_dir (sys_world s)))"
      "active_segment w' = active_segment (sys_world s)"
    and marks: "\<And>f. f \<in> fully_processed_files (control w') \<Longrightarrow> f \<notin> fully_processed_files (control (sys_world s)) \<Longrightarrow>
      f \<in> set (keys (sys_log s)) \<and> active_segment (sys_world s) \<noteq> Some f \<and>
      (\<not> failed \<longrightarrow> rows_after st ev f (log_bytes (sys_log s) f) (offset_of (control w') f) = [])"
    and gone: "\<And>f. f \<in> set (keys (wal_dir (sys_world s))) \<Longrightarrow> f \<notin> set (keys (wal_dir w')) \<Longrightarrow>
      f \<in> fully_processed_files (control (sys_world s))"
  shows "sys_inv st ev (s\<lparr>sys_world := w', sys_failed := failed\<rparr>)"
proof -
  let ?s = "s\<lparr>sys_world := w', sys_failed := failed\<rparr>"
  have keep: "drained st ev ?s f" if "\<not> failed" "drained st ev s f" for f
  proof -
    from inv that(1) assms(2) have "accounted st ev (sys_log s) {#} (sys_world s)"
      by (auto simp: sys_inv_def Let_def)
    from drained_mono [OF this acc(1) mono] that(2) show ?thesis by (simp add: drained_def)
  qed
  have "f \<in> set (keys (sys_log s)) \<and> active_segment w' \<noteq> Some f \<and> (\<not> failed \<longrightarrow> drained st ev ?s f)"
    if f: "f \<in> fully_processed_files (control w')" for f
  proof (cases "f \<in> fully_processed_files (control (sys_world s))")
    case True
    with inv assms(2) keep world(4) show ?thesis by (auto simp: sys_inv_def Let_def)
  next
    case False
    from marks [OF f False] world(4) show ?thesis by (simp add: drained_def)
  qed
  moreover have "drained st ev ?s f" if "\<not> failed" "f \<in> set (keys (sys_log s))" "f \<notin> set (keys (wal_dir w'))" for f
  proof (rule keep)
    show "drained st ev s f" using inv that assms(2) gone unfolding sys_inv_def Let_def by blast
  qed (use that in blast)
  moreover have "\<forall>f \<in> set (keys (wal_dir w')). ends_with ''.wal'' f"
    using inv world(3) unfolding sys_inv_def Let_def by blast
  ultimately show ?thesis using acc world by (auto simp: sys_inv_def Let_def)
qed

lemma segment_in_log:
  "sys_inv st ev s \<Longrightarrow> f \<in> set (keys (wal_dir (sys_world s))) \<Longrightarrow> f \<in> set (keys (sys_log s))"
  using covers_bytes [of "sys_log s" "sys_world s" f] by (auto simp: sys_inv_def Let_def accounted_def simp del: set_map)

lemma sys_inv_materialize:
  assumes inv: "sys_inv st ev s" and names: "unique_names ev" and size: "0 < materialize_batch_size st"
    and run: "materialize st ev a (sys_world s) = (res, w')"
  shows "case res of Inr n \<Rightarrow> sys_inv st ev (s\<lparr>sys_world := w'\<rparr>)
    | Inl e \<Rightarrow> sys_inv st ev (s\<lparr>sys_world := w', sys_failed := True\<rparr>)"
proof -
  let ?w = "sys_world s"
  from inv obtain lost where acc: "accounted st ev (sys_log s) lost ?w" "\<not> sys_failed s \<longrightarrow> lost = {#}"
    and dist: "distinct (keys (wal_dir ?w))" and lock: "lifecycle_lock ?w = lock_init"
    by (auto simp: sys_inv_def Let_def)
  have idle: "lock_idle a (lifecycle_lock ?w)" by (simp add: lock)
  from materialize_idle [OF acc(1) names size dist idle run] obtain q lost' where
    *: "res = delivered st ?w q" "accounted st ev (sys_log s) (lost + lost') w'" "wal_dir w' = wal_dir ?w"
      "lifecycle_lock w' = lifecycle_lock ?w" "\<And>f. offset_of (control ?w) f \<le> offset_of (control w') f"
      "case q of Inl e \<Rightarrow> fatal st ev (sys_log s) e
       | Inr n \<Rightarrow> lost' = {#} \<and> size (visible w') = size (visible ?w) + n \<and>
           (\<forall>f \<in> set (sorted_wal_files (keys (wal_dir ?w))). f \<in> quarantined (control ?w) \<or> settled st ev (sys_log s) ?w w' f)"
    by blast
  have new: "f \<in> set (keys (sys_log s)) \<and> active_segment ?w \<noteq> Some f \<and> f \<in> set (sorted_wal_files (keys (wal_dir ?w))) \<and>
      f \<notin> quarantined (control ?w)"
    if "f \<in> fully_processed_files (control w')" "f \<notin> fully_processed_files (control ?w)" for f
    using that materialize_marks [OF idle run] segment_in_log [OF inv, of f] by auto
  have act: "active_segment w' = active_segment ?w" by (simp add: active_segment_def *(3))
  show ?thesis
  proof (cases res)
    case (Inl e)
    have "sys_inv st ev (s\<lparr>sys_world := w', sys_failed := True\<rparr>)"
      by (rule sys_inv_world [OF inv _ *(2)]) (use * new act dist lock in auto)
    with Inl show ?thesis by simp
  next
    case (Inr n)
    then obtain m where "q = Inr m" using *(1) by (cases q) (auto simp: delivered_def)
    with * have none: "lost' = {#}" and set: "\<And>f. f \<in> set (sorted_wal_files (keys (wal_dir ?w))) \<Longrightarrow>
        f \<in> quarantined (control ?w) \<or> settled st ev (sys_log s) ?w w' f" by auto
    have "sys_inv st ev (s\<lparr>sys_world := w', sys_failed := sys_failed s\<rparr>)"
    proof (rule sys_inv_world [OF inv _ *(2)])
      show "\<not> sys_failed s \<Longrightarrow> lost + lost' = {#}" using acc(2) none by simp
      show "f \<in> set (keys (sys_log s)) \<and> active_segment ?w \<noteq> Some f \<and>
          (\<not> sys_failed s \<longrightarrow> rows_after st ev f (log_bytes (sys_log s) f) (offset_of (control w') f) = [])"
        if "f \<in> fully_processed_files (control w')" "f \<notin> fully_processed_files (control ?w)" for f
        using new [OF that] set [of f] by (auto simp: settled_def)
    qed (use * act dist lock in auto)
    with Inr show ?thesis by simp
  qed
qed

text \<open>A run that dies: the accounts, with some rows lost, and no mark but on visited segments.\<close>

lemma sys_inv_dead:
  assumes inv: "sys_inv st ev s" and acc: "accounted st ev (sys_log s) lost w'"
    and keep: "wal_dir w' = wal_dir (sys_world s)" "lifecycle_lock w' = lifecycle_lock (sys_world s)"
      "\<And>f. offset_of (control (sys_world s)) f \<le> offset_of (control w') f"
    and marks: "fully_processed_files (control w') \<subseteq> fully_processed_files (control (sys_world s)) \<union>
      {f \<in> set (sorted_wal_files (keys (wal_dir (sys_world s)))). active_segment (sys_world s) \<noteq> Some f}"
  shows "sys_inv st ev (s\<lparr>sys_world := w', sys_failed := True\<rparr>)"
proof (rule sys_inv_world [OF inv _ acc])
  show "f \<in> set (keys (sys_log s)) \<and> active_segment (sys_world s) \<noteq> Some f \<and>
      (\<not> True \<longrightarrow> rows_after st ev f (log_bytes (sys_log s) f) (offset_of (control w') f) = [])"
    if "f \<in> fully_processed_files (control w')" "f \<notin> fully_processed_files (control (sys_world s))" for f
    using that marks segment_in_log [OF inv, of f] by auto
qed (use keep inv in \<open>auto simp: active_segment_def sys_inv_def Let_def\<close>)

lemma sys_inv_killed:
  assumes inv: "sys_inv st ev s" and names: "unique_names ev" and size: "0 < materialize_batch_size st"
    and point: "run_point st ev (sys_world s) (w, b)"
  shows "sys_inv st ev (s\<lparr>sys_world := w, sys_failed := True\<rparr>)"
    and "sys_inv st ev (s\<lparr>sys_world := cut_flush ev k partial (w, b), sys_failed := True\<rparr>)"
proof -
  from inv obtain lost where acc: "accounted st ev (sys_log s) lost (sys_world s)"
    and dist: "distinct (keys (wal_dir (sys_world s)))" by (auto simp: sys_inv_def Let_def)
  note one = run_point_inv [OF acc names size dist point]
  then have run: "run_inv st ev (sys_log s) lost (size (visible (sys_world s))) (w, b)" by blast
  have keep: "wal_dir w = wal_dir (sys_world s)" "lifecycle_lock w = lifecycle_lock (sys_world s)"
    "offset_of (control (sys_world s)) f \<le> offset_of (control w) f" for f
    using one by (simp_all add: keeps_rest_def)
  note marks = run_point_marks [OF point, unfolded fst_conv]
  from run_inv_accounted [OF run] show "sys_inv st ev (s\<lparr>sys_world := w, sys_failed := True\<rparr>)"
    using sys_inv_dead [OF inv _ keep marks] by blast
  note two = cut_flush_accounted [OF run names refl, of k partial]
  then obtain lost' where "accounted st ev (sys_log s) (lost + lost') (cut_flush ev k partial (w, b))" by blast
  then show "sys_inv st ev (s\<lparr>sys_world := cut_flush ev k partial (w, b), sys_failed := True\<rparr>)"
  proof (rule sys_inv_dead [OF inv])
    show "offset_of (control (sys_world s)) f \<le> offset_of (control (cut_flush ev k partial (w, b))) f" for f
      using keep(3) [of f] two by (simp add: keeps_rest_def) (metis order_trans)
  qed (use two keep marks in \<open>simp_all add: keeps_rest_def\<close>)
qed

text \<open>A run that a failing operation may end.\<close>

lemma sys_inv_io_error:
  assumes inv: "sys_inv st ev s" and names: "unique_names ev" and size: "0 < materialize_batch_size st"
    and run: "materialize_io st ev io a (sys_world s) = (Inl e, w')"
  shows "sys_inv st ev (s\<lparr>sys_world := w', sys_failed := True\<rparr>) \<and> wal_dir w' = wal_dir (sys_world s)"
proof -
  from inv obtain lost where acc: "accounted st ev (sys_log s) lost (sys_world s)" and dist: "distinct (keys (wal_dir (sys_world s)))"
    and idle: "lock_idle a (lifecycle_lock (sys_world s))" by (auto simp: sys_inv_def Let_def)
  from materialize_io_fault [OF acc names size dist idle run] show ?thesis
  proof
    assume plain: "materialize st ev a (sys_world s) = (Inl e, w')"
    from sys_inv_materialize [OF inv names size plain] materialize_idle [OF acc names size dist idle plain]
    show ?thesis by auto
  next
    assume "\<exists>x. Inl e = Inl x \<and> io_exception io (set (sorted_wal_files (keys (wal_dir (sys_world s))))) x \<and>
      interrupted st ev (sys_log s) lost (sys_world s) w'"
    then have int: "interrupted st ev (sys_log s) lost (sys_world s) w'" by blast
    then obtain b where "run_inv st ev (sys_log s) lost (size (visible (sys_world s))) (w', b)"
      by (auto simp: interrupted_def)
    then obtain lost' where "accounted st ev (sys_log s) (lost + lost') w'" using run_inv_accounted by blast
    then have "sys_inv st ev (s\<lparr>sys_world := w', sys_failed := True\<rparr>)"
      by (intro sys_inv_dead [OF inv]) (use int in \<open>auto simp: interrupted_def\<close>)
    then show ?thesis using int by (simp add: interrupted_def)
  qed
qed

lemma compact_io_idle:
  assumes inv: "store_inv ev w" and names: "unique_names ev" and idle: "lock_idle a (lifecycle_lock w)"
    and run: "compact_parquet_files_io ev faults a m w = (r, w')" and closed: "close_fault faults = None"
  shows "store_inv ev w' \<and> visible w' = visible w \<and> wal_dir w' = wal_dir w \<and> lifecycle_lock w' = lifecycle_lock w \<and>
    materialized_wal_offsets (control w') = materialized_wal_offsets (control w) \<and>
    wal_corruption_events (control w') = wal_corruption_events (control w)"
proof -
  let ?u = "w\<lparr>lifecycle_lock := lock_taken a (lifecycle_lock w)\<rparr>"
  obtain q w1 where body: "compaction_body_io ev faults m ?u = (q, w1)" by fastforce
  have "store_inv ev ?u" using inv by simp
  from compaction_body_io_kept [OF this names body closed] have res: "compaction_kept ev ?u w1" by simp
  then have "lifecycle_lock w1 = lock_taken a (lifecycle_lock w)" by (simp add: compaction_kept_def compaction_frame_def)
  from with_lock_idle [of a w "compaction_body_io ev faults m", OF idle body this] run
  have "w' = w1\<lparr>lifecycle_lock := lifecycle_lock w\<rparr>" by (simp add: compact_parquet_files_io_def)
  with res show ?thesis by (simp add: compaction_kept_def compaction_frame_def)
qed

text \<open>A compaction in which nothing fails.\<close>

lemma no_close_fault: "close_fault no_compact_faults = None"
  by (simp add: no_compact_faults_def)

lemma step_compact_plain:
  "compact_parquet_files ev a m (sys_world s) = (r, w') \<Longrightarrow> backend_step st ev s (s\<lparr>sys_world := w'\<rparr>)"
  by (rule step_compact [OF _ no_close_fault]) (simp add: compact_no_fault)

lemmas compact_idle = compact_io_idle [OF _ _ _ _ no_close_fault, unfolded compact_no_fault]

lemma accounted_same_offsets:
  assumes "accounted st ev log lost w" "store_inv ev w'" "visible w' = visible w" "wal_dir w' = wal_dir w"
    and "materialized_wal_offsets (control w') = materialized_wal_offsets (control w)"
  shows "accounted st ev log lost w' \<and> offset_of (control w') = offset_of (control w) \<and>
    fully_processed_files (control w') = fully_processed_files (control w)"
proof -
  have "offset_of (control w') = offset_of (control w)" using assms(5) by (simp add: offset_of_def fun_eq_iff)
  with assms show ?thesis by (simp add: accounted_def fully_processed_files_def log_covers_def)
qed

lemma sys_inv_store:
  assumes inv: "sys_inv st ev s" and same: "store_inv ev w'" "visible w' = visible (sys_world s)"
    "wal_dir w' = wal_dir (sys_world s)" "lifecycle_lock w' = lifecycle_lock (sys_world s)"
    "materialized_wal_offsets (control w') = materialized_wal_offsets (control (sys_world s))"
  shows "sys_inv st ev (s\<lparr>sys_world := w'\<rparr>)"
proof -
  from inv obtain lost where acc: "accounted st ev (sys_log s) lost (sys_world s)" "\<not> sys_failed s \<longrightarrow> lost = {#}"
    by (auto simp: sys_inv_def Let_def)
  note new = accounted_same_offsets [OF acc(1) same(1-3) same(5)]
  have "sys_inv st ev (s\<lparr>sys_world := w', sys_failed := sys_failed s\<rparr>)"
    by (rule sys_inv_world [OF inv, where lost = lost])
      (use new acc same inv in \<open>auto simp: active_segment_def sys_inv_def Let_def\<close>)
  then show ?thesis by simp
qed

text \<open>Deleting marked segments, not the newest.\<close>

lemma sys_inv_delete:
  assumes inv: "sys_inv st ev s" and D: "D \<subseteq> set (deletable ev (sys_world s))"
    and dir: "wal_dir w' = filter (\<lambda>kv. fst kv \<notin> D) (wal_dir (sys_world s))"
    and keep: "lifecycle_lock w' = lifecycle_lock (sys_world s)" "control w' = (control (sys_world s))\<lparr>wal_file_lifecycle := t\<rparr>"
    and acc: "accounted st ev (sys_log s) lost w'" "\<not> sys_failed s \<Longrightarrow> lost = {#}"
  shows "sys_inv st ev (s\<lparr>sys_world := w'\<rparr>)"
proof -
  let ?w = "sys_world s"
  have dist: "distinct (keys (wal_dir ?w))" using inv by (simp add: sys_inv_def Let_def)
  have db: "offset_of (control w') = offset_of (control ?w)" "fully_processed_files (control w') = fully_processed_files (control ?w)"
    by (simp_all add: keep offset_of_def fully_processed_files_def fun_eq_iff)
  have keys: "keys (wal_dir w') = filter (\<lambda>f. f \<notin> D) (keys (wal_dir ?w))" by (simp add: dir filter_map comp_def)
  have "sys_inv st ev (s\<lparr>sys_world := w', sys_failed := sys_failed s\<rparr>)"
  proof (rule sys_inv_world [OF inv _ acc])
    show "distinct (keys (wal_dir w'))" "set (keys (wal_dir w')) \<subseteq> set (keys (wal_dir ?w))"
      unfolding keys using dist by auto
    show "f \<in> fully_processed_files (control ?w)" if "f \<in> set (keys (wal_dir ?w))" "f \<notin> set (keys (wal_dir w'))" for f
      using that D unfolding keys by (auto simp: deletable_def)
    show "active_segment w' = active_segment ?w" using active_drop [OF D dist dir] by (simp add: active_segment_def)
  qed (use db keep inv in \<open>auto simp: sys_inv_def Let_def\<close>)
  then show ?thesis by simp
qed

lemma sys_inv_cleanup:
  assumes inv: "sys_inv st ev s" and run: "cleanup_materialized_wal_files ev a (sys_world s) = (r, w')"
  shows "sys_inv st ev (s\<lparr>sys_world := w'\<rparr>)"
proof -
  from inv obtain lost where acc: "accounted st ev (sys_log s) lost (sys_world s)" "\<not> sys_failed s \<longrightarrow> lost = {#}"
    and idle: "lock_idle a (lifecycle_lock (sys_world s))" by (auto simp: sys_inv_def Let_def)
  from cleanup_idle [OF idle run] cleanup_accounted [OF acc(1) run] acc(2) show ?thesis
    by (auto intro: sys_inv_delete [OF inv order_refl])
qed

lemma sys_inv_killed_cleanup:
  assumes inv: "sys_inv st ev s"
    and run: "delete_segments ev (fully_processed_files (control (sys_world s)))
      (take k (butlast (sorted_wal_files (keys (wal_dir (sys_world s)))))) (sys_world s) = (ds, w')"
  shows "sys_inv st ev (s\<lparr>sys_world := w'\<rparr>)"
proof -
  from inv obtain lost where acc: "accounted st ev (sys_log s) lost (sys_world s)" "\<not> sys_failed s \<longrightarrow> lost = {#}"
    by (auto simp: sys_inv_def Let_def)
  note res = delete_segments_result [OF run]
  then obtain t where t: "control w' = (control (sys_world s))\<lparr>wal_file_lifecycle := t\<rparr>" by blast
  have sub: "set ds \<subseteq> set (deletable ev (sys_world s))" using res by (auto simp: deletable_def dest: in_set_takeD)
  have "accounted st ev (sys_log s) lost w'"
    using accounted_drop_segments [OF acc(1), of w' "\<lambda>f. f \<notin> set ds" t] res t by simp
  then show ?thesis using sys_inv_delete [OF inv sub _ _ t] res acc(2) by blast
qed

lemma orphans_prefix:
  assumes inv: "store_inv ev w"
  shows "store_inv ev (fold (unlink_parquet ev) (take k (orphan_files w)) w) \<and>
    visible (fold (unlink_parquet ev) (take k (orphan_files w)) w) = visible w"
proof (rule unlinks_conserve [OF inv])
  have "f \<notin> committed_in (control w)" if "f \<in> set (orphan_files w)" for f
    using that committed_not_tmp [OF inv] set_committed [OF store_inv_distinct(2) [OF inv]]
    by (auto simp: orphan_files_def)
  then show "set (take k (orphan_files w)) \<inter> committed_in (control w) = {}" using set_take_subset by fast
qed

lemma wal_step_inv:
  assumes "wal_step s s'" "sys_inv st ev s"
  shows "sys_inv st ev s'"
  using assms(1) by cases (use sys_inv_append [OF assms(2)] sys_inv_open [OF assms(2)] in auto)

lemma backend_step_inv:
  assumes "backend_step st ev s s'" "sys_inv st ev s" and names: "unique_names ev" and size: "0 < materialize_batch_size st"
  shows "sys_inv st ev s'"
  using assms(1)
proof cases
  case (step_materialize a n w')
  from sys_inv_materialize [OF assms(2) names size this(2)] this(1) show ?thesis by simp
next
  case (step_raise a e w')
  from sys_inv_materialize [OF assms(2) names size this(2)] this(1) show ?thesis by simp
next
  case (step_io_error io a e w')
  from sys_inv_io_error [OF assms(2) names size this(2)] show ?thesis unfolding step_io_error(1) by simp
next
  case (step_killed_flush w b k partial)
  from sys_inv_killed(2) [OF assms(2) names size this(2)] show ?thesis unfolding step_killed_flush(1) .
next
  case (step_killed_compact w m rows w' k partial)
  have "store_inv ev (sys_world s)" using assms(2) by (auto simp: sys_inv_def Let_def accounted_def)
  from compaction_prefix [OF this names step_killed_compact(3,4) [unfolded step_killed_compact(2)]] show ?thesis
    unfolding step_killed_compact(1) by (intro sys_inv_store [OF assms(2)]) simp_all
next
  case (step_killed_cleanup w k ds w')
  from sys_inv_killed_cleanup [OF assms(2)] step_killed_cleanup show ?thesis by blast
next
  case (step_killed w' b)
  from sys_inv_killed(1) [OF assms(2) names size this(2)] show ?thesis unfolding step_killed(1) .
next
  case (step_compact faults a m r w')
  have "store_inv ev (sys_world s)" "lock_idle a (lifecycle_lock (sys_world s))"
    using assms(2) by (auto simp: sys_inv_def Let_def accounted_def)
  from compact_io_idle [OF this(1) names this(2) step_compact(2,3)] show ?thesis
    unfolding step_compact(1) by (intro sys_inv_store [OF assms(2)]) simp_all
next
  case (step_orphans err n w')
  have "store_inv ev (sys_world s)" using assms(2) by (auto simp: sys_inv_def Let_def accounted_def)
  from cleanup_orphaned_conserves [OF this step_orphans(2)] cleanup_orphaned_same [OF step_orphans(2)]
  show ?thesis unfolding step_orphans(1) by (intro sys_inv_store [OF assms(2)]) simp_all
next
  case (step_killed_orphans w k)
  have "store_inv ev (sys_world s)" using assms(2) by (auto simp: sys_inv_def Let_def accounted_def)
  from orphans_prefix [OF this, of k] show ?thesis
    unfolding step_killed_orphans(1,2) by (intro sys_inv_store [OF assms(2)]) (simp_all add: unlinks_same)
next
  case (step_projects w ps)
  have "store_inv ev w" using assms(2) step_projects(2) by (auto simp: sys_inv_def Let_def accounted_def)
  then have "store_inv ev (w\<lparr>control := (control w)\<lparr>projects := ps\<rparr>\<rparr>) \<and>
      visible (w\<lparr>control := (control w)\<lparr>projects := ps\<rparr>\<rparr>) = visible w"
    using store_inv_distinct(1) [of ev w] by (intro conserve_cong) simp_all
  then show ?thesis unfolding step_projects(1,2) by (intro sys_inv_store [OF assms(2)]) simp_all
next
  case (step_cleanup a r' w')
  from sys_inv_cleanup [OF assms(2) this(2)] show ?thesis unfolding step_cleanup(1) .
qed

text \<open>A run that the gateway writes into: the sealed segments are what they were.\<close>

lemma drained_grown:
  assumes acc: "accounted st ev (sys_log s) lost (sys_world s)" "accounted st ev (sys_log s') lost' (sys_world s')"
    and g: "grown s s'" and mono: "offset_of (control (sys_world s)) f \<le> offset_of (control (sys_world s')) f"
    and f: "f \<in> set (keys (sys_log s))" "active_segment (sys_world s) \<noteq> Some f" "drained st ev s f"
  shows "drained st ev s' f"
proof -
  let ?off = "\<lambda>s. offset_of (control (sys_world s)) f"
  have same: "log_bytes (sys_log s') f = log_bytes (sys_log s) f" using g f(1,2) unfolding grown_def Let_def by blast
  have "boundary st ev f (log_bytes (sys_log s) f) (?off s)" using acc(1) by (simp add: accounted_def)
  moreover have "boundary st ev f (log_bytes (sys_log s') f) (?off s')" using acc(2) by (simp add: accounted_def)
  ultimately have "boundary st ev f (log_bytes (sys_log s) f) (?off s)" "boundary st ev f (log_bytes (sys_log s) f) (?off s')"
    by (simp_all only: same)
  from drained_later [OF this mono] f(3) show ?thesis by (simp add: drained_def same)
qed

lemma live_end_inv:
  assumes ended: "live_end st ev s r s'" and inv: "sys_inv st ev s" and names: "unique_names ev"
    and size: "0 < materialize_batch_size st" and failed: "\<not> failed \<Longrightarrow> \<not> sys_failed s \<and> (\<exists>n. r = Some (Inr n))"
  shows "sys_inv st ev (s'\<lparr>sys_failed := failed\<rparr>)"
proof -
  let ?start = "sys_world s" and ?w = "sys_world s'" and ?off = "\<lambda>s. offset_of (control (sys_world s))"
  from inv obtain lost where acc: "accounted st ev (sys_log s) lost ?start" "\<not> sys_failed s \<Longrightarrow> lost = {#}"
    and dir: "distinct (keys (wal_dir ?start))" "\<forall>f \<in> set (keys (wal_dir ?start)). ends_with ''.wal'' f"
    and lock: "lifecycle_lock ?start = lock_init"
    and marked: "\<And>f. f \<in> fully_processed_files (control ?start) \<Longrightarrow> f \<in> set (keys (sys_log s)) \<and>
      active_segment ?start \<noteq> Some f \<and> (\<not> sys_failed s \<longrightarrow> drained st ev s f)"
    and gone: "\<And>f. \<not> sys_failed s \<Longrightarrow> f \<in> set (keys (sys_log s)) - set (keys (wal_dir ?start)) \<Longrightarrow> drained st ev s f"
    by (auto simp: sys_inv_def Let_def simp del: set_map)
  from live_end_result [OF ended acc(1) names size dir] obtain lost' where
    acc': "accounted st ev (sys_log s') (lost + lost') ?w" and g: "grown s s'" and mono: "\<And>f. ?off s f \<le> ?off s' f"
    and fully: "fully_processed_files (control ?w) \<subseteq> fully_processed_files (control ?start) \<union>
      {f \<in> set (keys (wal_dir ?start)). active_segment ?start \<noteq> Some f \<and> f \<notin> quarantined (control ?start)}"
    and returned: "\<And>n. r = Some (Inr n) \<Longrightarrow> lost' = {#} \<and>
       (\<forall>f \<in> set (keys (wal_dir ?start)). f \<in> quarantined (control ?start) \<or> shown_since st ev s s' f)" by blast
  have in_log: "f \<in> set (keys (wal_dir ?start)) \<Longrightarrow> f \<in> set (keys (sys_log s))" for f by (rule segment_in_log [OF inv])
  have sealed: "f \<in> set (keys (sys_log s')) \<and> active_segment ?w \<noteq> Some f \<and> log_bytes (sys_log s') f = log_bytes (sys_log s) f"
    if "f \<in> set (keys (sys_log s))" "active_segment ?start \<noteq> Some f" for f
    using g that unfolding grown_def Let_def by blast
  note keep = drained_grown [OF acc(1) acc' g mono]
  have "f \<in> set (keys (sys_log s')) \<and> active_segment ?w \<noteq> Some f \<and> (\<not> failed \<longrightarrow> drained st ev s' f)"
    if f: "f \<in> fully_processed_files (control ?w)" for f
  proof (cases "f \<in> fully_processed_files (control ?start)")
    case True
    with marked sealed keep failed show ?thesis by blast
  next
    case False
    with f fully have new: "f \<in> set (keys (wal_dir ?start))" "active_segment ?start \<noteq> Some f" "f \<notin> quarantined (control ?start)"
      by blast+
    have "drained st ev s' f" if "\<not> failed"
      using failed [OF that] returned new by (auto simp: shown_since_def drained_def Let_def simp del: set_map)
    with sealed [OF in_log] new show ?thesis by blast
  qed
  moreover have "drained st ev s' f" if "\<not> failed" "f \<in> set (keys (sys_log s')) - set (keys (wal_dir ?w))" for f
  proof -
    have f: "f \<in> set (keys (sys_log s)) - set (keys (wal_dir ?start))" using g that(2) unfolding grown_def Let_def by blast
    then have "active_segment ?start \<noteq> Some f" using active_in_dir by blast
    with keep gone [OF _ f] failed [OF that(1)] f show ?thesis by blast
  qed
  moreover have "\<not> failed \<Longrightarrow> lost + lost' = {#}" using failed acc(2) returned by auto
  moreover have "distinct (keys (wal_dir ?w)) \<and> lifecycle_lock ?w = lock_init \<and> (\<forall>f \<in> set (keys (wal_dir ?w)). ends_with ''.wal'' f)"
    using g lock by (simp add: grown_def Let_def del: set_map)
  moreover have "drained st ev (s'\<lparr>sys_failed := failed\<rparr>) f = drained st ev s' f" for f by (simp add: drained_def)
  ultimately show ?thesis using acc' unfolding sys_inv_def Let_def by (auto simp del: set_map)
qed

lemma sys_step_inv:
  assumes "sys_step st ev s s'" "sys_inv st ev s" and names: "unique_names ev" and size: "0 < materialize_batch_size st"
  shows "sys_inv st ev s'"
  using assms(1)
proof cases
  case step_wal
  then show ?thesis using assms(2) by (rule wal_step_inv)
next
  case step_backend
  then show ?thesis using assms(2) names size by (rule backend_step_inv)
next
  case (step_live n)
  have same: "sys_failed s' = sys_failed s"
  proof -
    from assms(2) obtain lost where acc: "accounted st ev (sys_log s) lost (sys_world s)"
      and dir: "distinct (keys (wal_dir (sys_world s)))" "\<forall>f \<in> set (keys (wal_dir (sys_world s))). ends_with ''.wal'' f"
      by (auto simp: sys_inv_def Let_def simp del: set_map)
    from live_end_result [OF step_live acc names size dir] show ?thesis by (auto simp: grown_def Let_def simp del: set_map)
  qed
  have "sys_inv st ev (s'\<lparr>sys_failed := sys_failed s'\<rparr>)"
    by (rule live_end_inv [OF step_live assms(2) names size]) (use same in auto)
  then show ?thesis by simp
next
  case (step_live_fails r s1)
  from live_end_inv [OF step_live_fails(2) assms(2) names size, of True] step_live_fails(1) show ?thesis by simp
qed

lemma sys_reachable_inv:
  "sys_reachable st ev s \<Longrightarrow> unique_names ev \<Longrightarrow> 0 < materialize_batch_size st \<Longrightarrow> sys_inv st ev s"
  by (induction rule: sys_reachable.induct) (auto intro: sys_inv_start sys_step_inv)

section \<open>Properties\<close>

text \<open>The rows of every readable record that was ever written.\<close>

definition all_rows :: "settings \<Rightarrow> env \<Rightarrow> wal_log \<Rightarrow> span_row multiset" where
  "all_rows st ev log = (\<Sum>f \<in> set (keys log). mset (rows_after st ev f (log_bytes log f) 0))"

lemma sum_mset_mono:
  "finite A \<Longrightarrow> (\<And>x. x \<in> A \<Longrightarrow> (f x :: 'a multiset) \<subseteq># g x) \<Longrightarrow> (\<Sum>x \<in> A. f x) \<subseteq># (\<Sum>x \<in> A. g x)"
  by (induction rule: finite_induct) (auto intro: subset_mset.add_mono)

lemma member_le_sum_mset: "finite A \<Longrightarrow> x \<in> A \<Longrightarrow> (f x :: 'a multiset) \<subseteq># (\<Sum>y \<in> A. f y)"
  by (subst sum.remove) auto

lemma rows_at_all:
  assumes "accounted st ev log lost w"
  shows "rows_at st ev log (offset_of (control w)) \<subseteq># all_rows st ev log"
  unfolding rows_at_def all_rows_def
proof (rule sum_mset_mono)
  fix f
  have "boundary st ev f (log_bytes log f) (offset_of (control w) f)" using assms by (simp add: accounted_def)
  then show "mset (rows_upto st ev f (log_bytes log f) (offset_of (control w) f)) \<subseteq># mset (rows_after st ev f (log_bytes log f) 0)"
    by (metis rows_split mset_append mset_subset_eq_add_left)
qed simp

lemma drained_rows:
  assumes "accounted st ev log lost w" "rows_after st ev f (log_bytes log f) (offset_of (control w) f) = []"
  shows "rows_upto st ev f (log_bytes log f) (offset_of (control w) f) = rows_after st ev f (log_bytes log f) 0"
  using assms rows_split [of st ev f "log_bytes log f" "offset_of (control w) f"] by (simp add: accounted_def)

lemma system_bound:
  assumes "sys_reachable st ev s" and "unique_names ev" and "0 < materialize_batch_size st"
  shows "visible (sys_world s) \<subseteq># all_rows st ev (sys_log s)"
proof -
  from sys_reachable_inv [OF assms] obtain lost where acc: "accounted st ev (sys_log s) lost (sys_world s)"
    by (auto simp: sys_inv_def Let_def)
  then have "visible (sys_world s) \<subseteq># rows_at st ev (sys_log s) (offset_of (control (sys_world s)))"
    unfolding accounted_def by (metis mset_subset_eq_add_left)
  with rows_at_all [OF acc] show ?thesis by (rule subset_mset.order_trans [rotated])
qed

text \<open>
  C2: The engine never shows a row twice and never loses one silently.  In every reachable state,
  whatever the order of appends, materialisations, kills, compactions and cleanups, each visible
  row is a row of a record in the log, at most as often as it was written.  As long as no run
  raised or was killed, the visible rows are exactly those up to the offsets, and a segment that
  was deleted had been read to its end or its first unreadable record, so that all its rows are visible.
\<close>

theorem system_safe:
  assumes reach: "sys_reachable st ev s" and names: "unique_names ev" and size: "0 < materialize_batch_size st"
  shows "visible (sys_world s) \<subseteq># all_rows st ev (sys_log s) \<and>
    (\<not> sys_failed s \<longrightarrow>
      visible (sys_world s) = rows_at st ev (sys_log s) (offset_of (control (sys_world s))) \<and>
      (\<forall>f \<in> set (keys (sys_log s)) - set (keys (wal_dir (sys_world s))).
         mset (rows_after st ev f (log_bytes (sys_log s) f) 0) \<subseteq># visible (sys_world s)))"
proof -
  let ?w = "sys_world s" and ?log = "sys_log s"
  from sys_reachable_inv [OF assms] obtain lost where acc: "accounted st ev ?log lost ?w"
    and none: "\<not> sys_failed s \<Longrightarrow> lost = {#}"
    and gone: "\<not> sys_failed s \<Longrightarrow> \<forall>f \<in> set (keys ?log) - set (keys (wal_dir ?w)). drained st ev s f"
    by (auto simp: sys_inv_def Let_def)
  have vis: "visible ?w + lost = rows_at st ev ?log (offset_of (control ?w))" using acc by (simp add: accounted_def)
  have "visible ?w \<subseteq># all_rows st ev ?log" by (rule system_bound [OF assms])
  moreover have "mset (rows_after st ev f (log_bytes ?log f) 0) \<subseteq># visible ?w"
    if f: "\<not> sys_failed s" "f \<in> set (keys ?log) - set (keys (wal_dir ?w))" for f
  proof -
    have "rows_upto st ev f (log_bytes ?log f) (offset_of (control ?w) f) = rows_after st ev f (log_bytes ?log f) 0"
      using drained_rows [OF acc] gone f unfolding drained_def by blast
    moreover have "mset (rows_upto st ev f (log_bytes ?log f) (offset_of (control ?w) f)) \<subseteq>#
        rows_at st ev ?log (offset_of (control ?w))"
      unfolding rows_at_def using f(2) by (intro member_le_sum_mset) auto
    ultimately show ?thesis using vis none [OF f(1)] by simp
  qed
  ultimately show ?thesis using vis none by auto
qed

lemma complete_run:
  assumes reach: "sys_reachable st ev s" and names: "unique_names ev" and size: "0 < materialize_batch_size st"
    and good: "\<not> sys_failed s" "\<not> auto_cleanup_wal st" "\<And>e. \<not> fatal st ev (sys_log s) e"
  shows "\<exists>n w'. materialize st ev a (sys_world s) = (Inr n, w') \<and>
    (\<forall>f \<in> set (keys (sys_log s)). f \<notin> quarantined (control (sys_world s)) \<longrightarrow>
       rows_upto st ev f (log_bytes (sys_log s) f) (offset_of (control w') f) = rows_after st ev f (log_bytes (sys_log s) f) 0) \<and>
    visible w' = rows_at st ev (sys_log s) (offset_of (control w')) \<and>
    (quarantined (control (sys_world s)) = {} \<longrightarrow> visible w' = all_rows st ev (sys_log s))"
proof -
  let ?w = "sys_world s" and ?log = "sys_log s"
  from sys_reachable_inv [OF reach names size] good(1) have acc: "accounted st ev ?log {#} ?w"
    and gone: "\<forall>f \<in> set (keys ?log) - set (keys (wal_dir ?w)). drained st ev s f"
    and quiet: "quiet_run st ev a ?w" and wal: "\<forall>f \<in> set (keys (wal_dir ?w)). ends_with ''.wal'' f"
    using names size good(2) by (auto simp: sys_inv_def Let_def quiet_run_def)
  obtain n w' where run: "materialize st ev a ?w = (Inr n, w')" using quiet_returns [OF acc quiet good(3)] by blast
  from quiet_materialize [OF acc quiet run] have acc': "accounted st ev ?log {#} w'"
    and mono: "\<And>f. offset_of (control ?w) f \<le> offset_of (control w') f"
    and set: "\<And>f. f \<in> set (sorted_wal_files (keys (wal_dir ?w))) \<Longrightarrow> f \<in> quarantined (control ?w) \<or> settled st ev ?log ?w w' f"
    by auto
  have all: "rows_upto st ev f (log_bytes ?log f) (offset_of (control w') f) = rows_after st ev f (log_bytes ?log f) 0"
    if f: "f \<in> set (keys ?log)" "f \<notin> quarantined (control ?w)" for f
  proof (rule drained_rows [OF acc'])
    show "rows_after st ev f (log_bytes ?log f) (offset_of (control w') f) = []"
    proof (cases "f \<in> set (keys (wal_dir ?w))")
      case True
      with set [of f] f(2) wal show ?thesis by (auto simp: settled_def)
    next
      case False
      then have "drained st ev s f" using gone f(1) by blast
      with drained_mono [OF acc acc' mono] show ?thesis by (simp add: drained_def)
    qed
  qed
  have vis: "visible w' = rows_at st ev ?log (offset_of (control w'))" using acc' by (simp add: accounted_def)
  moreover have "visible w' = all_rows st ev ?log" if "quarantined (control ?w) = {}"
    unfolding vis rows_at_def all_rows_def by (rule sum.cong) (use all that in simp_all)
  ultimately show ?thesis using run all by blast
qed

lemma live_sandwich:
  assumes reach: "sys_reachable st ev s" and names: "unique_names ev" and size: "0 < materialize_batch_size st"
    and good: "\<not> sys_failed s" "quarantined (control (sys_world s)) = {}"
    and ended: "live_end st ev s (Some (Inr n)) s'"
  shows "all_rows st ev (sys_log s) \<subseteq># visible (sys_world s') \<and> visible (sys_world s') \<subseteq># all_rows st ev (sys_log s') \<and>
    size (visible (sys_world s')) = size (visible (sys_world s)) + n"
proof -
  let ?log = "sys_log s" and ?log' = "sys_log s'" and ?off = "offset_of (control (sys_world s'))"
  from sys_reachable_inv [OF reach names size] good(1) have acc: "accounted st ev ?log {#} (sys_world s)"
    and dir: "distinct (keys (wal_dir (sys_world s)))" "\<forall>f \<in> set (keys (wal_dir (sys_world s))). ends_with ''.wal'' f"
    and gone: "\<forall>f \<in> set (keys ?log) - set (keys (wal_dir (sys_world s))). drained st ev s f"
    by (auto simp: sys_inv_def Let_def simp del: set_map)
  from live_end_result [OF ended acc names size dir] good(2) have acc': "accounted st ev ?log' {#} (sys_world s')"
    and g: "grown s s'" and mono: "\<And>f. offset_of (control (sys_world s)) f \<le> ?off f"
    and count: "size (visible (sys_world s')) = size (visible (sys_world s)) + n"
    and shown: "\<And>f. f \<in> set (keys (wal_dir (sys_world s))) \<Longrightarrow> shown_since st ev s s' f"
    by (auto simp del: set_map)
  have sub: "mset (rows_after st ev f (log_bytes ?log f) 0) \<subseteq># mset (rows_upto st ev f (log_bytes ?log' f) (?off f))"
    if f: "f \<in> set (keys ?log)" for f
  proof (cases "f \<in> set (keys (wal_dir (sys_world s)))")
    case True
    from shown [OF this] show ?thesis by (simp add: shown_since_def Let_def)
  next
    case False
    then have act: "active_segment (sys_world s) \<noteq> Some f" using active_in_dir by blast
    have "drained st ev s f" using gone f False by blast
    from drained_grown [OF acc acc' g mono f act this] drained_rows [OF acc']
    have "rows_upto st ev f (log_bytes ?log' f) (?off f) = rows_after st ev f (log_bytes ?log' f) 0" by (simp add: drained_def)
    moreover have "log_bytes ?log' f = log_bytes ?log f" using g f act unfolding grown_def Let_def by blast
    ultimately show ?thesis by simp
  qed
  have keys: "set (keys ?log) \<subseteq> set (keys ?log')" using g unfolding grown_def Let_def by blast
  have "all_rows st ev ?log \<subseteq># (\<Sum>f \<in> set (keys ?log). mset (rows_upto st ev f (log_bytes ?log' f) (?off f)))"
    unfolding all_rows_def by (rule sum_mset_mono) (use sub in auto)
  also have "\<dots> \<subseteq># rows_at st ev ?log' ?off"
    unfolding rows_at_def by (subst sum.subset_diff [OF keys]) (simp_all del: set_map)
  also have "rows_at st ev ?log' ?off = visible (sys_world s')" using acc' by (simp add: accounted_def)
  finally show ?thesis using count rows_at_all [OF acc'] acc' by (simp add: accounted_def)
qed

text \<open>
  C7: A run that the gateway writes into.  While a materialisation runs, the gateway may append
  whatever it likes, also half records, and open new segments.  If neither an earlier run failed
  nor a segment was quarantined before it began, then a run that returns shows every row that was
  written before it began, exactly once, and none that was not written by its end, and it reports
  how many these are more than before.  And it returns: from every point of the run, whatever was
  written so far, unless something in the log makes a run raise.
\<close>

theorem live_run_complete:
  assumes reach: "sys_reachable st ev s" and names: "unique_names ev" and size: "0 < materialize_batch_size st"
    and good: "\<not> sys_failed s" "quarantined (control (sys_world s)) = {}" "\<not> auto_cleanup_wal st"
  shows "(\<forall>n s'. live_end st ev s (Some (Inr n)) s' \<longrightarrow>
      all_rows st ev (sys_log s) \<subseteq># visible (sys_world s') \<and> visible (sys_world s') \<subseteq># all_rows st ev (sys_log s') \<and>
      size (visible (sys_world s')) = size (visible (sys_world s)) + n) \<and>
    (\<forall>s1 b fs. live_reach st ev s s1 b fs \<and> (\<forall>e. \<not> fatal st ev (sys_log s1) e) \<longrightarrow>
      (\<exists>n s'. live_end st ev s (Some (Inr n)) s' \<and> sys_log s' = sys_log s1))"
proof -
  from sys_reachable_inv [OF reach names size] obtain lost where acc: "accounted st ev (sys_log s) lost (sys_world s)"
    and dir: "distinct (keys (wal_dir (sys_world s)))" "\<forall>f \<in> set (keys (wal_dir (sys_world s))). ends_with ''.wal'' f"
    by (auto simp: sys_inv_def Let_def simp del: set_map)
  show ?thesis
    using live_sandwich [OF reach names size good(1,2)] live_completes [OF _ acc names size good(3) dir] by blast
qed

text \<open>
  C6: Every row becomes visible, once.  In any state that is reachable without a run that raised
  or was killed, a materialisation whose rows fit and whose parser raises only \<open>ValueError\<close>s
  returns, and then every row of every readable record ever written to a segment that is not
  quarantined is visible exactly as often as it was written; if nothing is quarantined, nothing else is.
\<close>

theorem system_complete:
  assumes reach: "sys_reachable st ev s" and names: "unique_names ev" and size: "0 < materialize_batch_size st"
    and good: "\<not> sys_failed s" "\<not> auto_cleanup_wal st" "\<And>e. \<not> fatal st ev (sys_log s) e"
  shows "\<exists>n w'. materialize st ev a (sys_world s) = (Inr n, w') \<and>
    (\<forall>f \<in> set (keys (sys_log s)). f \<notin> quarantined (control (sys_world s)) \<longrightarrow>
       rows_upto st ev f (log_bytes (sys_log s) f) (offset_of (control w') f) = rows_after st ev f (log_bytes (sys_log s) f) 0) \<and>
    visible w' = rows_at st ev (sys_log s) (offset_of (control w')) \<and>
    (quarantined (control (sys_world s)) = {} \<longrightarrow> visible w' = all_rows st ev (sys_log s))"
  using assms by (rule complete_run)

section \<open>A run of the engine\<close>

text \<open>The gateway opens a segment and appends a record.\<close>

definition sample_state :: system where
  "sample_state = put_segment ''wal-1-0.wal'' (encode_record [1]) (put_segment ''wal-1-0.wal'' [] system_start)"

lemma sample_reachable: "sys_reachable st ev sample_state"
proof -
  let ?s = "put_segment ''wal-1-0.wal'' [] system_start"
  have "sys_step st ev system_start ?s"
    by (intro step_wal wal_open) (simp_all add: system_start_def fresh_world_def ends_with_def)
  then have "sys_reachable st ev ?s" by (rule sys_more [OF sys_start])
  moreover have "active_segment (sys_world ?s) = Some ''wal-1-0.wal''"
    unfolding active_segment_def
    by (rule active_newest) (simp_all add: put_segment_def system_start_def fresh_world_def ends_with_def tbl_put_def)
  note step_wal [OF wal_append [OF this, of "[1]"], of st ev]
  moreover have "segment_bytes (sys_world ?s) ''wal-1-0.wal'' = []"
    by (simp add: put_segment_def system_start_def fresh_world_def segment_bytes_def map_of_put)
  ultimately show ?thesis by (auto simp: sample_state_def intro: sys_more)
qed

lemma sample_log: "sys_log sample_state = [(''wal-1-0.wal'', encode_record [1])]"
  by (simp add: sample_state_def put_segment_def system_start_def tbl_put_def)

text \<open>After a materialisation, which shows the one row of the record.\<close>

lemma sample_run:
  "fst (materialize sample_settings one_span (0, 0) (sys_world sample_state)) = Inr 1"
  "size (visible (snd (materialize sample_settings one_span (0, 0) (sys_world sample_state)))) = 1"
  by code_simp+

theorem system_safe_witness:
  "\<exists>s. sys_reachable sample_settings one_span s \<and> sys_log s = sys_log sample_state \<and> size (visible (sys_world s)) = 1 \<and>
     visible (sys_world s) = rows_at sample_settings one_span (sys_log s) (offset_of (control (sys_world s)))"
proof -
  let ?run = "materialize sample_settings one_span (0, 0) (sys_world sample_state)"
  let ?s = "sample_state\<lparr>sys_world := snd ?run\<rparr>"
  have "?run = (Inr 1, snd ?run)" by (rule prod_eqI) (simp_all only: sample_run fst_conv snd_conv)
  from sys_more [OF sample_reachable step_backend [OF step_materialize [OF this]]]
  have reach: "sys_reachable sample_settings one_span ?s" .
  have "\<not> sys_failed ?s" by (simp add: sample_state_def put_segment_def system_start_def)
  moreover have "0 < materialize_batch_size sample_settings" by (simp add: sample_settings_def)
  ultimately show ?thesis
    using system_safe [OF reach one_span_unique] reach sample_run(2) by (intro exI [of _ ?s]) simp
qed

theorem system_complete_witness:
  "\<exists>n w'. materialize sample_settings one_span (0, 0) (sys_world sample_state) = (Inr n, w') \<and>
     visible w' = all_rows sample_settings one_span (sys_log sample_state)"
proof -
  have s: "\<not> sys_failed sample_state" "0 < materialize_batch_size sample_settings" "\<not> auto_cleanup_wal sample_settings"
    by (simp_all add: sample_state_def put_segment_def system_start_def sample_settings_def)
  have "length (log_bytes (sys_log sample_state) f) < 2 ^ 63" for f
    by (simp add: sample_log log_bytes_def record_header_size_def)
  then have "\<not> fatal sample_settings one_span (sys_log sample_state) e" for e by (rule one_span_not_fatal)
  moreover have "quarantined (control (sys_world sample_state)) = {}"
    by (simp add: sample_state_def put_segment_def system_start_def fresh_world_def empty_store_def quarantined_def)
  ultimately show ?thesis using system_complete [OF sample_reachable one_span_unique s(2,1,3)] by blast
qed

text \<open>The gateway appends a second record before the run reads the segment.\<close>

theorem live_run_complete_witness:
  "\<exists>n s'. live_end sample_settings one_span sample_state (Some (Inr n)) s' \<and>
     log_bytes (sys_log s') ''wal-1-0.wal'' = encode_records [[1], [2]] \<and>
     all_rows sample_settings one_span (sys_log sample_state) \<subseteq># visible (sys_world s')"
proof -
  let ?s1 = "put_segment ''wal-1-0.wal'' (encode_record [1] @ encode_record [2]) sample_state"
  have s: "\<not> sys_failed sample_state" "quarantined (control (sys_world sample_state)) = {}"
    "0 < materialize_batch_size sample_settings" "\<not> auto_cleanup_wal sample_settings"
    by (simp_all add: sample_state_def put_segment_def system_start_def fresh_world_def empty_store_def quarantined_def
        sample_settings_def)
  note claim = live_run_complete [OF sample_reachable one_span_unique s(3,1,2,4)]
  have dir: "wal_dir (sys_world sample_state) = [(''wal-1-0.wal'', encode_record [1])]"
    by (simp add: sample_state_def put_segment_def system_start_def fresh_world_def tbl_put_def)
  have "active_segment (sys_world sample_state) = Some ''wal-1-0.wal''"
    by (simp add: active_segment_def dir sorted_wal_files_def active_wal_filename_def ends_with_def)
  from wal_append [OF this, of "[2]"] have step: "wal_step sample_state ?s1"
    by (simp add: segment_bytes_def dir)
  have log: "sys_log ?s1 = [(''wal-1-0.wal'', encode_record [1] @ encode_record [2])]"
    by (simp add: put_segment_def sample_log tbl_put_def)
  have "length (log_bytes (sys_log ?s1) f) < 2 ^ 63" for f
    by (simp add: log log_bytes_def record_header_size_def)
  then have "\<not> fatal sample_settings one_span (sys_log ?s1) e" for e by (rule one_span_not_fatal)
  with claim live_write [OF live_begin step] obtain n s' where
    "live_end sample_settings one_span sample_state (Some (Inr n)) s'" "sys_log s' = sys_log ?s1" by blast
  with claim show ?thesis by (intro exI [of _ n] exI [of _ s']) (simp add: log log_bytes_def)
qed

end
