(* ===== verification/Gateway.thy ===== *)
theory Gateway
  imports Wal_Names Otlp_Rows
begin

text \<open>
  The gateway (cpp/gateway/src): \<open>WalWriter\<close> with its open segment and its rotation, and
  \<open>HttpServer\<close>'s treatment of one request with the statistics it keeps.  A directory of segments
  is a table from names to contents, in the order in which the files were created.

  The operating system and the protobuf library are parameters: \<open>os_call\<close> is what the clock,
  \<open>open\<close>, \<open>write\<close> and \<open>fsync\<close> deliver during a call, \<open>gateway_env\<close> what the body of a request
  parses to and how the response is serialised.
\<close>

section \<open>The WAL writer\<close>

text \<open>\<open>os_write_error\<close>: after how many bytes \<open>write\<close> fails, if it does, and the text of \<open>errno\<close>.\<close>

record os_call =
  os_now :: nat
  os_open_error :: "string option"
  os_write_error :: "(nat \<times> string) option"
  os_fsync_error :: "string option"

type_synonym wal_directory = "(string, byte list) table"

text \<open>
  \<open>WalWriter\<close>: the handle is the file it has open, and \<open>sequence\<close> the counter that all writers
  of the process share.
\<close>

record wal_writer =
  max_file_bytes :: nat
  current_path :: string
  current_file_size :: nat
  wal_handle :: "string option"
  sequence :: "64 word"

type_synonym writer_state = "wal_writer \<times> wal_directory"

definition open_new_segment :: "os_call \<Rightarrow> (writer_state, string, unit) eff" where
  "open_new_segment os = (\<lambda>(wr, dir).
    (let path = segment_name (os_now os) (unat (sequence wr));
         wr = wr\<lparr>wal_handle := None, current_path := path, sequence := sequence wr + 1\<rparr>
     in case os_open_error os of
          Some e \<Rightarrow> (Inl (''open WAL segment '' @ path @ '': '' @ e), (wr, dir))
        | None \<Rightarrow> (Inr (), (wr\<lparr>wal_handle := Some path, current_file_size := 0\<rparr>, tbl_ignore path [] dir))))"

text \<open>The constructor, once the directory is there.\<close>

definition start_writer :: "nat \<Rightarrow> os_call \<Rightarrow> wal_directory \<Rightarrow> (string + unit) \<times> writer_state" where
  "start_writer max_bytes os dir = open_new_segment os
     (\<lparr> max_file_bytes = max_bytes, current_path = [], current_file_size = 0, wal_handle = None, sequence = 0 \<rparr>, dir)"

text \<open>
  \<open>write_all\<close> on an open file: the bytes before an error stay in it.  A file that was unlinked
  while it is open takes bytes that nobody sees.
\<close>

definition write_all :: "os_call \<Rightarrow> string \<Rightarrow> byte list \<Rightarrow> (wal_directory, string, unit) eff" where
  "write_all os f bytes dir =
    (case os_write_error os of
       Some (k, e) \<Rightarrow> (if k < length bytes then Inl e else Inr (), tbl_update f (\<lambda>content. content @ take k bytes) dir)
     | None \<Rightarrow> (Inr (), tbl_update f (\<lambda>content. content @ bytes) dir))"

definition needs_segment :: "wal_writer \<Rightarrow> nat \<Rightarrow> bool" where
  "needs_segment wr record_size \<longleftrightarrow> wal_handle wr = None \<or>
     0 < current_file_size wr \<and> max_file_bytes wr < current_file_size wr + record_size"

text \<open>\<open>append\<close>; the header and the payload are two calls of \<open>write_all\<close>, one after the other.\<close>

definition wal_append :: "os_call \<Rightarrow> byte list \<Rightarrow> (writer_state, string, unit) eff" where
  "wal_append os payload s =
    (if 2 ^ 32 \<le> length payload then (Inl ''payload exceeds WAL record limit'', s)
     else let record_size = 8 + length payload in
       bindE (\<lambda>s. if needs_segment (fst s) record_size then open_new_segment os s else (Inr (), s))
         (\<lambda>_ (wr, dir).
            case write_all os (the (wal_handle wr)) (encode_record payload) dir of
              (Inl e, dir) \<Rightarrow> (Inl e, (wr, dir))
            | (Inr _, dir) \<Rightarrow>
                (case os_fsync_error os of
                   Some e \<Rightarrow> (Inl e, (wr, dir))
                 | None \<Rightarrow> (Inr (), (wr\<lparr>current_file_size := current_file_size wr + record_size\<rparr>, dir)))) s)"

section \<open>Requests\<close>

record gateway_config =
  max_body_bytes :: nat
  auth_token :: string

record gateway_env =
  parse_otlp :: "byte list \<Rightarrow> export_request option"
  export_response :: "byte list option"

datatype verb = Verb_Get | Verb_Post | Verb_Other

text \<open>A header that is absent reads as the empty text.\<close>

record http_request =
  rq_method :: verb
  rq_target :: string
  rq_authorization :: string
  rq_x_api_key :: string
  rq_content_type :: string
  rq_body :: "byte list"

record gateway_stats =
  accepted_requests :: "64 word"
  accepted_resource_spans :: "64 word"
  accepted_spans :: "64 word"
  rejected_requests :: "64 word"

record gateway =
  gw_writer :: wal_writer
  gw_stats :: gateway_stats

type_synonym gateway_state = "gateway \<times> wal_directory"

text \<open>Status and body; a text, or the serialised response.\<close>

type_synonym http_response = "nat \<times> (string + byte list)"

definition is_protobuf_content_type :: "string \<Rightarrow> bool" where
  "is_protobuf_content_type v \<longleftrightarrow> takeWhile (\<lambda>c. c \<noteq> CHR '';'') v = ''application/x-protobuf''"

definition ingestion_authenticated :: "gateway_config \<Rightarrow> http_request \<Rightarrow> bool" where
  "ingestion_authenticated cfg rq \<longleftrightarrow> auth_token cfg = [] \<or>
     rq_authorization rq \<noteq> [] \<and>
       (rq_authorization rq = ''Bearer '' @ auth_token cfg \<or> rq_authorization rq = auth_token cfg) \<or>
     rq_x_api_key rq \<noteq> [] \<and> rq_x_api_key rq = auth_token cfg"

text \<open>\<open>++rejected_requests_\<close> and \<open>error_response\<close>, whose message ends the line.\<close>

definition refuse :: "nat \<Rightarrow> string \<Rightarrow> gateway_state \<Rightarrow> http_response \<times> gateway_state" where
  "refuse code message = (\<lambda>(gw, dir). ((code, Inl (message @ [CHR 0x0A])),
     (gw\<lparr>gw_stats := (gw_stats gw)\<lparr>rejected_requests := rejected_requests (gw_stats gw) + 1\<rparr>\<rparr>, dir)))"

definition count_accepted :: "export_request \<Rightarrow> gateway_stats \<Rightarrow> gateway_stats" where
  "count_accepted req s = s\<lparr>accepted_requests := accepted_requests s + 1,
     accepted_resource_spans := accepted_resource_spans s + word_of_nat (length req),
     accepted_spans := accepted_spans s + word_of_nat (span_count req)\<rparr>"

text \<open>\<open>on_read\<close> for a body over the limit, else \<open>handle_request\<close>.\<close>

definition handle_request :: "gateway_config \<Rightarrow> gateway_env \<Rightarrow> os_call \<Rightarrow> http_request \<Rightarrow> gateway_state \<Rightarrow>
    http_response \<times> gateway_state" where
  "handle_request cfg genv os rq = (\<lambda>(gw, dir).
    (if max_body_bytes cfg < length (rq_body rq)
     then refuse 413 ''request body exceeds configured limit'' (gw, dir)
     else if rq_method rq = Verb_Get \<and> rq_target rq = ''/healthz''
     then ((200, Inl (''ok'' @ [CHR 0x0A])), (gw, dir))
     else if rq_method rq \<noteq> Verb_Post \<or> rq_target rq \<noteq> ''/v1/traces''
     then refuse 404 ''only POST /v1/traces is supported'' (gw, dir)
     else if \<not> ingestion_authenticated cfg rq
     then refuse 401 ''unauthorized: invalid ingestion token'' (gw, dir)
     else if \<not> is_protobuf_content_type (rq_content_type rq)
     then refuse 415 ''expected Content-Type: application/x-protobuf'' (gw, dir)
     else case parse_otlp genv (rq_body rq) of
       None \<Rightarrow> refuse 400 ''malformed OTLP protobuf'' (gw, dir)
     | Some req \<Rightarrow>
        (case wal_append os (rq_body rq) (gw_writer gw, dir) of
           (Inl e, (wr, dir)) \<Rightarrow> refuse 503 ''telemetry storage is unavailable'' (gw\<lparr>gw_writer := wr\<rparr>, dir)
         | (Inr _, (wr, dir)) \<Rightarrow>
             (let gw = gw\<lparr>gw_writer := wr, gw_stats := count_accepted req (gw_stats gw)\<rparr>
              in case export_response genv of
                   None \<Rightarrow> refuse 500 ''could not serialize OTLP response'' (gw, dir)
                 | Some body \<Rightarrow> ((200, Inr body), (gw, dir))))))"

definition start_gateway :: "nat \<Rightarrow> os_call \<Rightarrow> wal_directory \<Rightarrow> (string + gateway) \<times> wal_directory" where
  "start_gateway max_bytes os dir =
    (case start_writer max_bytes os dir of
       (Inl e, (wr, dir)) \<Rightarrow> (Inl e, dir)
     | (Inr _, (wr, dir)) \<Rightarrow> (Inr \<lparr> gw_writer = wr, gw_stats = \<lparr> accepted_requests = 0,
         accepted_resource_spans = 0, accepted_spans = 0, rejected_requests = 0 \<rparr> \<rparr>, dir))"

text \<open>Requests one after the other (the mutex of the writer makes appends so), each with its answer.\<close>

fun serve_all :: "gateway_config \<Rightarrow> gateway_env \<Rightarrow> (os_call \<times> http_request) list \<Rightarrow> gateway_state \<Rightarrow>
    (http_request \<times> http_response) list \<times> gateway_state" where
  "serve_all cfg genv [] s = ([], s)"
| "serve_all cfg genv ((os, rq) # ops) s =
     (let (response, s1) = handle_request cfg genv os rq s; (answered, s2) = serve_all cfg genv ops s1
      in ((rq, response) # answered, s2))"

section \<open>Appending\<close>

text \<open>
  The invariant of a writer whose writes do not fail half way: the segments hold the appended
  records in order, none is larger than the limit unless it holds a single record, and the open
  segment is the one created last.
\<close>

definition log_inv :: "wal_writer \<Rightarrow> wal_directory \<Rightarrow> byte list list \<Rightarrow> bool" where
  "log_inv wr dir ps \<longleftrightarrow> distinct (keys dir) \<and>
     (\<forall>f \<in> set (keys dir). \<exists>t q. f = segment_name t q \<and> q < unat (sequence wr)) \<and>
     concat (map snd dir) = encode_records ps \<and>
     (\<forall>f c. (f, c) \<in> set dir \<longrightarrow> length c \<le> max_file_bytes wr \<or> (\<exists>p \<in> set ps. c = encode_record p)) \<and>
     (\<forall>f. wal_handle wr = Some f \<longrightarrow> (\<exists>pre c. dir = pre @ [(f, c)] \<and> length c = current_file_size wr))"

definition whole_writes :: "os_call \<Rightarrow> bool" where
  "whole_writes os \<longleftrightarrow> os_write_error os = None \<and> os_fsync_error os = None"

lemma update_last: "f \<notin> set (keys pre) \<Longrightarrow> tbl_update f g (pre @ [(f, c)]) = pre @ [(f, g c)]"
  by (induction pre) (auto simp: tbl_update_def)

lemma open_log_inv:
  assumes inv: "log_inv wr dir ps" and seq: "unat (sequence wr) + 1 < 2 ^ 64"
    and run: "open_new_segment os (wr, dir) = (r, (wr', dir'))"
  shows "log_inv wr' dir' ps \<and> max_file_bytes wr' = max_file_bytes wr \<and>
    unat (sequence wr') = unat (sequence wr) + 1 \<and>
    (case r of Inl _ \<Rightarrow> wal_handle wr' = None
     | Inr _ \<Rightarrow> current_file_size wr' = 0 \<and> (\<exists>f. wal_handle wr' = Some f \<and> dir' = dir @ [(f, [])]))"
proof -
  let ?f = "segment_name (os_now os) (unat (sequence wr))"
  have s: "unat (sequence wr + 1) = unat (sequence wr) + 1"
    using seq by (simp add: unat_word_ariths)
  have new: "?f \<notin> set (keys dir)"
    using inv by (auto simp: log_inv_def segment_name_inj dest!: bspec simp del: set_map)
  then have dir: "tbl_ignore ?f [] dir = dir @ [(?f, [])]" by (simp add: tbl_ignore_def tbl_has_iff del: set_map)
  have older: "\<exists>t q. f = segment_name t q \<and> q < Suc (unat (sequence wr))" if "f \<in> set (keys dir)" for f
    using inv that unfolding log_inv_def by (metis less_SucI)
  show ?thesis
  proof (cases "os_open_error os")
    case None
    with None run new inv older show ?thesis
      by (auto simp: open_new_segment_def Let_def log_inv_def s dir segment_name_inj simp del: set_map) blast+
  next
    case (Some e)
    with run inv older show ?thesis
      by (auto simp: open_new_segment_def Let_def log_inv_def s simp del: set_map) blast+
  qed
qed

lemma log_inv_open:
  assumes "log_inv wr dir ps" "wal_handle wr = Some f"
  obtains pre c where "dir = pre @ [(f, c)]" "f \<notin> set (keys pre)" "length c = current_file_size wr"
  using assms by (auto simp: log_inv_def)

lemma write_log_inv:
  assumes inv: "log_inv wr dir ps" and f: "wal_handle wr = Some f" and whole: "whole_writes os"
    and room: "\<not> needs_segment wr (8 + length p)"
  shows "\<exists>dir'. write_all os f (encode_record p) dir = (Inr (), dir') \<and>
    log_inv (wr\<lparr>current_file_size := current_file_size wr + (8 + length p)\<rparr>) dir' (ps @ [p])"
proof -
  from inv f obtain pre c where dir: "dir = pre @ [(f, c)]" "f \<notin> set (keys pre)" "length c = current_file_size wr"
    by (rule log_inv_open)
  let ?c = "c @ encode_record p"
  have w: "write_all os f (encode_record p) dir = (Inr (), pre @ [(f, ?c)])"
    using whole by (simp add: write_all_def whole_writes_def dir(1) update_last [OF dir(2)])
  have "length ?c \<le> max_file_bytes wr \<or> ?c = encode_record p"
    using room f dir(3) by (auto simp: needs_segment_def record_header_size_def)
  moreover have "f' = f \<Longrightarrow> \<exists>t q. f' = segment_name t q \<and> q < unat (sequence wr)" for f'
    using inv by (auto simp: log_inv_def dir(1))
  ultimately have "log_inv (wr\<lparr>current_file_size := current_file_size wr + (8 + length p)\<rparr>) (pre @ [(f, ?c)]) (ps @ [p])"
    using inv dir f by (auto simp: log_inv_def record_header_size_def)
  with w show ?thesis by blast
qed

lemma append_log_inv:
  assumes inv: "log_inv wr dir ps" and seq: "unat (sequence wr) + 1 < 2 ^ 64" and whole: "whole_writes os"
    and run: "wal_append os p (wr, dir) = (r, (wr', dir'))"
  shows "log_inv wr' dir' (ps @ (case r of Inr _ \<Rightarrow> [p] | Inl _ \<Rightarrow> [])) \<and> max_file_bytes wr' = max_file_bytes wr \<and>
    unat (sequence wr') \<le> unat (sequence wr) + 1"
proof (cases "2 ^ 32 \<le> length p")
  case True
  with run inv show ?thesis by (auto simp: wal_append_def)
next
  case False
  obtain q wr1 dir1 where q: "(if needs_segment wr (8 + length p) then open_new_segment os (wr, dir) else (Inr (), (wr, dir))) =
      (q, (wr1, dir1))" by (metis prod.collapse)
  have one: "log_inv wr1 dir1 ps \<and> max_file_bytes wr1 = max_file_bytes wr \<and> unat (sequence wr1) \<le> unat (sequence wr) + 1 \<and>
      (\<forall>u. q = Inr u \<longrightarrow> \<not> needs_segment wr1 (8 + length p))"
    using q open_log_inv [OF inv seq, of os q wr1 dir1] inv by (auto simp: needs_segment_def split: if_splits)
  have body: "wal_append os p (wr, dir) = (case q of Inl e \<Rightarrow> (Inl e, (wr1, dir1)) | Inr _ \<Rightarrow>
      (case write_all os (the (wal_handle wr1)) (encode_record p) dir1 of
         (Inl e, dir) \<Rightarrow> (Inl e, (wr1, dir))
       | (Inr _, dir) \<Rightarrow> (case os_fsync_error os of Some e \<Rightarrow> (Inl e, (wr1, dir))
          | None \<Rightarrow> (Inr (), (wr1\<lparr>current_file_size := current_file_size wr1 + (8 + length p)\<rparr>, dir)))))"
    using False q by (simp add: wal_append_def bindE_def Let_def split: sum.split)
  show ?thesis
  proof (cases q)
    case (Inl e)
    with body run one show ?thesis by simp
  next
    case (Inr u)
    with one have room: "\<not> needs_segment wr1 (8 + length p)" by simp
    then obtain f where f: "wal_handle wr1 = Some f" by (auto simp: needs_segment_def)
    from write_log_inv [OF _ f whole room] one obtain d where
      "write_all os f (encode_record p) dir1 = (Inr (), d)"
      "log_inv (wr1\<lparr>current_file_size := current_file_size wr1 + (8 + length p)\<rparr>) d (ps @ [p])" by blast
    with body run one Inr f whole show ?thesis by (auto simp: whole_writes_def)
  qed
qed

section \<open>Requests and the log\<close>

text \<open>The requests of an export that were acknowledged, and those that count for the statistics.\<close>

definition acknowledged :: "(http_request \<times> http_response) list \<Rightarrow> http_request list" where
  "acknowledged answered = map fst (filter (\<lambda>(rq, code, body). \<not> isl body) answered)"

definition health_checks :: "(http_request \<times> http_response) list \<Rightarrow> nat" where
  "health_checks answered = length (filter (\<lambda>(rq, code, body). code = 200 \<and> isl body) answered)"

definition spans_of :: "gateway_env \<Rightarrow> byte list \<Rightarrow> nat" where
  "spans_of genv body = (case parse_otlp genv body of Some req \<Rightarrow> span_count req | None \<Rightarrow> 0)"

text \<open>One request: what is acknowledged is appended, what is refused is not.\<close>

lemma request_log:
  assumes inv: "log_inv (gw_writer gw) dir ps" and seq: "unat (sequence (gw_writer gw)) + 1 < 2 ^ 64"
    and whole: "whole_writes os" and answers: "export_response genv \<noteq> None"
    and run: "handle_request cfg genv os rq (gw, dir) = ((code, body), (gw', dir'))"
  shows "log_inv (gw_writer gw') dir' (ps @ (if isl body then [] else [rq_body rq])) \<and>
    max_file_bytes (gw_writer gw') = max_file_bytes (gw_writer gw) \<and>
    unat (sequence (gw_writer gw')) \<le> unat (sequence (gw_writer gw)) + 1 \<and>
    accepted_requests (gw_stats gw') = accepted_requests (gw_stats gw) + (if isl body then 0 else 1) \<and>
    accepted_spans (gw_stats gw') = accepted_spans (gw_stats gw) +
      (if isl body then 0 else word_of_nat (spans_of genv (rq_body rq))) \<and>
    rejected_requests (gw_stats gw') = rejected_requests (gw_stats gw) + (if isl body \<and> code \<noteq> 200 then 1 else 0) \<and>
    (\<not> isl body \<longrightarrow> code = 200 \<and> ingestion_authenticated cfg rq \<and> length (rq_body rq) \<le> max_body_bytes cfg \<and>
       parse_otlp genv (rq_body rq) \<noteq> None)"
proof -
  obtain r wr d where app: "wal_append os (rq_body rq) (gw_writer gw, dir) = (r, (wr, d))" by (metis prod.collapse)
  note one = append_log_inv [OF inv seq whole app]
  obtain b where b: "export_response genv = Some b" using answers by blast
  show ?thesis
    using run inv one
    by (auto simp: handle_request_def refuse_def count_accepted_def spans_of_def app b Let_def
        split: if_splits option.splits sum.splits)
qed

lemma acknowledged_simps [simp]:
  "acknowledged [] = []"
  "acknowledged ((rq, code, body) # answered) = (if isl body then [] else [rq]) @ acknowledged answered"
  by (simp_all add: acknowledged_def)

lemma serve_all_log:
  assumes "log_inv (gw_writer gw) dir ps" "unat (sequence (gw_writer gw)) + length ops < 2 ^ 64"
    and "\<forall>(os, rq) \<in> set ops. whole_writes os" "export_response genv \<noteq> None"
    and "serve_all cfg genv ops (gw, dir) = (answered, (gw', dir'))"
  shows "log_inv (gw_writer gw') dir' (ps @ map rq_body (acknowledged answered)) \<and>
    max_file_bytes (gw_writer gw') = max_file_bytes (gw_writer gw) \<and>
    accepted_requests (gw_stats gw') = accepted_requests (gw_stats gw) + word_of_nat (length (acknowledged answered)) \<and>
    accepted_spans (gw_stats gw') = accepted_spans (gw_stats gw) +
      word_of_nat (\<Sum>rq \<leftarrow> acknowledged answered. spans_of genv (rq_body rq)) \<and>
    (\<forall>rq \<in> set (acknowledged answered). ingestion_authenticated cfg rq \<and>
       length (rq_body rq) \<le> max_body_bytes cfg \<and> parse_otlp genv (rq_body rq) \<noteq> None)"
  using assms
proof (induction ops arbitrary: gw dir ps answered)
  case (Cons op ops)
  obtain os rq where op: "op = (os, rq)" by fastforce
  obtain code body gw1 dir1 where one: "handle_request cfg genv os rq (gw, dir) = ((code, body), (gw1, dir1))"
    by (metis prod.collapse)
  obtain rest where rest: "serve_all cfg genv ops (gw1, dir1) = (rest, (gw', dir'))" "answered = (rq, code, body) # rest"
    using Cons.prems(5) by (auto simp: op one split: prod.splits)
  have seq: "unat (sequence (gw_writer gw)) + 1 < 2 ^ 64" using Cons.prems(2) by simp
  have whole: "whole_writes os" using Cons.prems(3) by (simp add: op)
  note step = request_log [OF Cons.prems(1) seq whole Cons.prems(4) one]
  then have "unat (sequence (gw_writer gw1)) + length ops < 2 ^ 64" using Cons.prems(2) by simp
  from Cons.IH [OF conjunct1 [OF step] this _ Cons.prems(4) rest(1)] Cons.prems(3) step show ?case
    by (auto simp: rest(2))
qed simp

text \<open>
  C10: The log is what was acknowledged.  A gateway that starts on an empty directory and whose
  writes do not fail half way has, after any requests and however often a segment could not be
  opened, exactly the bodies of the acknowledged exports in its segments, in order, whichever
  segments the rotation put them in; no segment is larger than the limit unless it holds a
  single record; each of these exports was authenticated and parses, and the statistics count
  them and their spans.
\<close>

theorem log_is_acknowledged:
  assumes start: "start_gateway max_bytes os0 [] = (Inr gw, dir)"
    and whole: "\<forall>(os, rq) \<in> set ops. whole_writes os" and answers: "export_response genv \<noteq> None"
    and few: "length ops + 1 < 2 ^ 64"
    and run: "serve_all cfg genv ops (gw, dir) = (answered, (gw', dir'))"
  shows "concat (map snd dir') = encode_records (map rq_body (acknowledged answered)) \<and> distinct (keys dir') \<and>
    (\<forall>(f, content) \<in> set dir'. length content \<le> max_bytes \<or>
       (\<exists>rq \<in> set (acknowledged answered). content = encode_record (rq_body rq))) \<and>
    (\<forall>rq \<in> set (acknowledged answered). ingestion_authenticated cfg rq \<and> parse_otlp genv (rq_body rq) \<noteq> None) \<and>
    accepted_requests (gw_stats gw') = word_of_nat (length (acknowledged answered)) \<and>
    accepted_spans (gw_stats gw') = word_of_nat (\<Sum>rq \<leftarrow> acknowledged answered. spans_of genv (rq_body rq))"
proof -
  let ?wr = "\<lparr> max_file_bytes = max_bytes, current_path = [], current_file_size = 0, wal_handle = None, sequence = 0 \<rparr>"
  have zero: "log_inv ?wr [] []" by (simp add: log_inv_def)
  obtain r wr d where opened: "open_new_segment os0 (?wr, []) = (r, (wr, d))" by (metis prod.collapse)
  note one = open_log_inv [OF zero _ opened]
  from start opened have gw: "gw_writer gw = wr" "dir = d" "accepted_requests (gw_stats gw) = 0" "accepted_spans (gw_stats gw) = 0"
    by (auto simp: start_gateway_def start_writer_def split: sum.splits)
  have inv: "log_inv (gw_writer gw) dir []" and max: "max_file_bytes (gw_writer gw) = max_bytes"
    and seq: "unat (sequence (gw_writer gw)) + length ops < 2 ^ 64"
    using one few by (simp_all add: gw)
  from serve_all_log [OF inv seq whole answers run] max gw show ?thesis
    by (auto simp: log_inv_def) blast
qed

section \<open>Sample values\<close>

definition calm :: "nat \<Rightarrow> os_call" where
  "calm now = \<lparr> os_now = now, os_open_error = None, os_write_error = None, os_fsync_error = None \<rparr>"

definition sample_gateway_config :: gateway_config where
  "sample_gateway_config = \<lparr> max_body_bytes = 100, auth_token = ''secret'' \<rparr>"

text \<open>Every body is a request with one span.\<close>

definition sample_gateway_env :: gateway_env where
  "sample_gateway_env = \<lparr> parse_otlp = (\<lambda>_. Some (sample_request [sample_span])), export_response = Some [] \<rparr>"

definition sample_export :: "byte list \<Rightarrow> http_request" where
  "sample_export body = \<lparr> rq_method = Verb_Post, rq_target = ''/v1/traces'', rq_authorization = [],
     rq_x_api_key = ''secret'', rq_content_type = ''application/x-protobuf; v=1'', rq_body = body \<rparr>"

definition sample_gateway :: gateway where
  "sample_gateway = \<lparr> gw_writer = \<lparr> max_file_bytes = 20, current_path = segment_name 1 0,
     current_file_size = 0, wal_handle = Some (segment_name 1 0), sequence = 1 \<rparr>,
     gw_stats = \<lparr> accepted_requests = 0, accepted_resource_spans = 0, accepted_spans = 0, rejected_requests = 0 \<rparr> \<rparr>"

definition sample_requests :: "(os_call \<times> http_request) list" where
  "sample_requests = [(calm 2, sample_export [1]), (calm 3, (sample_export [2])\<lparr>rq_x_api_key := ''x''\<rparr>),
     (calm 4, sample_export [2, 3]), (calm 5, sample_export [4])]"

lemma sample_start: "start_gateway 20 (calm 1) [] = (Inr sample_gateway, [(segment_name 1 0, [])])"
  by (simp add: start_gateway_def start_writer_def open_new_segment_def calm_def Let_def sample_gateway_def
      tbl_ignore_def tbl_has_def)

theorem log_is_acknowledged_witness:
  "\<exists>answered gw' dir'. serve_all sample_gateway_config sample_gateway_env sample_requests
       (sample_gateway, [(segment_name 1 0, [])]) = (answered, (gw', dir')) \<and>
     concat (map snd dir') = encode_records [[1], [2, 3], [4]] \<and> accepted_requests (gw_stats gw') = 3"
proof -
  obtain answered gw' dir' where run: "serve_all sample_gateway_config sample_gateway_env sample_requests
      (sample_gateway, [(segment_name 1 0, [])]) = (answered, (gw', dir'))" by (metis prod.collapse)
  have "map rq_body (acknowledged (fst (serve_all sample_gateway_config sample_gateway_env sample_requests
      (sample_gateway, [(segment_name 1 0, [])])))) = [[1], [2, 3], [4]]"
    by (simp add: sample_requests_def sample_gateway_def sample_gateway_config_def sample_gateway_env_def sample_export_def
        calm_def handle_request_def refuse_def ingestion_authenticated_def is_protobuf_content_type_def wal_append_def
        needs_segment_def open_new_segment_def write_all_def bindE_def Let_def)
  then have bodies: "map rq_body (acknowledged answered) = [[1], [2, 3], [4]]" by (simp only: run fst_conv)
  then have "length (acknowledged answered) = 3" using length_map [of rq_body "acknowledged answered"] by simp
  with log_is_acknowledged [OF sample_start _ _ _ run] bodies show ?thesis
    using run by (simp add: sample_requests_def whole_writes_def calm_def sample_gateway_env_def)
qed

end
