(* ===== verification/Gateway_Main.thy ===== *)
theory Gateway_Main
  imports Gateway Settings
begin

text \<open>
  The command line of the gateway (cpp/gateway/src/main.cpp) with the defaults of \<open>ServerConfig\<close>
  (http_server.h), up to the start of the server.  \<open>std::stoul\<close> and \<open>std::stoull\<close> are those of a
  platform with 64 bits and the C locale.
\<close>

section \<open>Numbers\<close>

definition c_space :: "char \<Rightarrow> bool" where
  "c_space c \<longleftrightarrow> c = CHR '' '' \<or> 9 \<le> (of_char c :: nat) \<and> (of_char c :: nat) \<le> 13"

text \<open>
  White space, a sign, digits, and whatever follows them; \<open>None\<close> is \<open>std::invalid_argument\<close> or
  \<open>std::out_of_range\<close>.  The C function behind it negates what follows a minus sign modulo 2 to the 64.
\<close>

definition stoull :: "string \<Rightarrow> 64 word option" where
  "stoull text =
    (let t = dropWhile c_space text;
         digits = takeWhile is_digit (if t \<noteq> [] \<and> (hd t = CHR ''-'' \<or> hd t = CHR ''+'') then tl t else t);
         n = read_nat digits
     in if digits = [] \<or> 2 ^ 64 \<le> n then None
        else Some (if hd t = CHR ''-'' then - word_of_nat n else word_of_nat n))"

section \<open>Options\<close>

record server_config =
  sc_address :: string
  sc_port :: "16 word"
  sc_max_body_bytes :: "64 word"
  sc_wal_directory :: string
  sc_max_wal_file_bytes :: "64 word"
  sc_auth_token :: string

definition default_config :: server_config where
  "default_config = \<lparr> sc_address = ''127.0.0.1'', sc_port = 4318, sc_max_body_bytes = 4 * 1024 * 1024,
     sc_wal_directory = ''data/wal'', sc_max_wal_file_bytes = 64 * 1024 * 1024, sc_auth_token = [] \<rparr>"

text \<open>What \<open>main\<close> returns before there is a server: after \<open>usage()\<close>, or after a message.\<close>

datatype early_exit = Usage_Success | Usage_Failure | Message_Failure string

definition set_option :: "string \<Rightarrow> string \<Rightarrow> server_config \<Rightarrow> server_config option" where
  "set_option option v cfg =
    (if option = ''--address'' then Some (cfg\<lparr>sc_address := v\<rparr>)
     else if option = ''--port'' then
       (case stoull v of
          Some port \<Rightarrow> if unat port > 65535 then None else Some (cfg\<lparr>sc_port := ucast port\<rparr>)
        | None \<Rightarrow> None)
     else if option = ''--max-body-bytes'' then map_option (\<lambda>n. cfg\<lparr>sc_max_body_bytes := n\<rparr>) (stoull v)
     else if option = ''--max-wal-file-bytes'' then map_option (\<lambda>n. cfg\<lparr>sc_max_wal_file_bytes := n\<rparr>) (stoull v)
     else if option = ''--wal-dir'' then Some (cfg\<lparr>sc_wal_directory := v\<rparr>)
     else if option = ''--auth-token'' then Some (cfg\<lparr>sc_auth_token := v\<rparr>)
     else None)"

fun parse_options :: "string list \<Rightarrow> server_config \<Rightarrow> early_exit + server_config" where
  "parse_options [] cfg = Inr cfg"
| "parse_options [option] cfg = Inl (if option = ''--help'' then Usage_Success else Usage_Failure)"
| "parse_options (option # v # rest) cfg =
     (if option = ''--help'' then Inl Usage_Success
      else case set_option option v cfg of
             None \<Rightarrow> Inl Usage_Failure
           | Some cfg \<Rightarrow> parse_options rest cfg)"

definition configure :: "string list \<Rightarrow> early_exit + server_config" where
  "configure args =
    (case parse_options args default_config of
       Inl e \<Rightarrow> Inl e
     | Inr cfg \<Rightarrow>
        (if sc_max_body_bytes cfg = 0 then Inl (Message_Failure ''max-body-bytes must be positive'')
         else if sc_max_wal_file_bytes cfg = 0 then Inl (Message_Failure ''max-wal-file-bytes must be positive'')
         else Inr cfg))"

text \<open>What the requests and the writer see of it.\<close>

definition request_config :: "server_config \<Rightarrow> gateway_config" where
  "request_config cfg = \<lparr> max_body_bytes = unat (sc_max_body_bytes cfg), auth_token = sc_auth_token cfg \<rparr>"

definition launch :: "string list \<Rightarrow> os_call \<Rightarrow> wal_directory \<Rightarrow>
    (early_exit + gateway_config \<times> gateway) \<times> wal_directory" where
  "launch args os dir =
    (case configure args of
       Inl e \<Rightarrow> (Inl e, dir)
     | Inr cfg \<Rightarrow>
        (case start_gateway (unat (sc_max_wal_file_bytes cfg)) os dir of
           (Inl e, dir) \<Rightarrow> (Inl (Message_Failure (''fatal: '' @ e)), dir)
         | (Inr gw, dir) \<Rightarrow> (Inr (request_config cfg, gw), dir)))"

section \<open>Lemmas\<close>

lemma digit_not_c_space: "is_digit c \<Longrightarrow> \<not> c_space c"
  by (auto simp: is_digit_def c_space_def Let_def)

lemma takeWhile_digits: "list_all is_digit ds \<Longrightarrow> (rest \<noteq> [] \<Longrightarrow> \<not> is_digit (hd rest)) \<Longrightarrow> takeWhile is_digit (ds @ rest) = ds"
  by (induction ds) (auto simp: takeWhile_eq_Nil_iff)

lemma stoull_digits:
  assumes ds: "list_all is_digit ds" "ds \<noteq> []" and rest: "rest \<noteq> [] \<Longrightarrow> \<not> is_digit (hd rest)"
  shows "stoull (ds @ rest) = (if read_nat ds < 2 ^ 64 then Some (word_of_nat (read_nat ds)) else None)"
    and "stoull (CHR ''-'' # ds @ rest) = (if read_nat ds < 2 ^ 64 then Some (- word_of_nat (read_nat ds)) else None)"
proof -
  obtain c cs where c: "ds = c # cs" "is_digit c" using ds by (cases ds) auto
  then have hd: "c \<noteq> CHR ''-''" "c \<noteq> CHR ''+''" "\<not> c_space c"
    using digit_not_c_space [OF c(2)] by (auto simp: is_digit_def)
  have take: "takeWhile is_digit (ds @ rest) = ds" by (rule takeWhile_digits [OF ds(1) rest])
  then show "stoull (ds @ rest) = (if read_nat ds < 2 ^ 64 then Some (word_of_nat (read_nat ds)) else None)"
    using hd by (simp add: stoull_def Let_def c(1))
  have "\<not> c_space (CHR ''-'')" by (simp add: c_space_def)
  then show "stoull (CHR ''-'' # ds @ rest) = (if read_nat ds < 2 ^ 64 then Some (- word_of_nat (read_nat ds)) else None)"
    using take ds(2) by (simp add: stoull_def Let_def)
qed

lemma stoull_show:
  "n < 2 ^ 64 \<Longrightarrow> stoull (show_nat n) = Some (word_of_nat n) \<and> stoull (CHR ''-'' # show_nat n) = Some (- word_of_nat n)"
  using stoull_digits [OF show_nat_digits show_nat_nonempty, of "[]" n] by simp

text \<open>The last value of each option counts.\<close>

definition text_of :: "(string \<times> string) list \<Rightarrow> string \<Rightarrow> string \<Rightarrow> string" where
  "text_of opts option fallback = (case map_of (rev opts) option of Some v \<Rightarrow> v | None \<Rightarrow> fallback)"

definition number_of :: "(string \<times> string) list \<Rightarrow> string \<Rightarrow> 64 word \<Rightarrow> 64 word option" where
  "number_of opts option fallback = (case map_of (rev opts) option of Some v \<Rightarrow> stoull v | None \<Rightarrow> Some fallback)"

definition option_names :: "string set" where
  "option_names = {''--address'', ''--port'', ''--max-body-bytes'', ''--max-wal-file-bytes'', ''--wal-dir'', ''--auth-token''}"

definition follows :: "(string \<times> string) list \<Rightarrow> server_config \<Rightarrow> server_config \<Rightarrow> bool" where
  "follows opts cfg0 cfg \<longleftrightarrow> fst ` set opts \<subseteq> option_names \<and>
     sc_address cfg = text_of opts ''--address'' (sc_address cfg0) \<and>
     sc_wal_directory cfg = text_of opts ''--wal-dir'' (sc_wal_directory cfg0) \<and>
     sc_auth_token cfg = text_of opts ''--auth-token'' (sc_auth_token cfg0) \<and>
     number_of opts ''--port'' (ucast (sc_port cfg0)) = Some (ucast (sc_port cfg)) \<and>
     number_of opts ''--max-body-bytes'' (sc_max_body_bytes cfg0) = Some (sc_max_body_bytes cfg) \<and>
     number_of opts ''--max-wal-file-bytes'' (sc_max_wal_file_bytes cfg0) = Some (sc_max_wal_file_bytes cfg)"

lemma port_fits: "unat (p :: 64 word) \<le> 65535 \<Longrightarrow> ucast (ucast p :: 16 word) = p"
  by (simp add: word_unat_eq_iff unsigned_ucast_eq unsigned_take_bit_eq take_bit_nat_eq_self_iff)

lemma follows_Nil: "follows [] cfg cfg"
  by (simp add: follows_def text_of_def number_of_def)

lemma set_option_follows: "set_option option v cfg0 = Some cfg1 \<Longrightarrow> follows [(option, v)] cfg0 cfg1"
  by (auto simp: set_option_def follows_def text_of_def number_of_def option_names_def port_fits
      split: if_splits option.splits)

lemma text_of_Cons: "text_of ((k, v) # opts) x u = text_of opts x (text_of [(k, v)] x u)"
  by (simp add: text_of_def map_add_def split: option.split)

lemma number_of_Cons: "number_of [(k, v)] x n = Some m \<Longrightarrow> number_of ((k, v) # opts) x n = number_of opts x m"
  by (auto simp: number_of_def map_add_def split: option.splits if_splits)

lemma follows_Cons:
  assumes one: "follows [(option, v)] cfg0 cfg1" and rest: "follows opts cfg1 cfg"
  shows "follows ((option, v) # opts) cfg0 cfg"
proof -
  note numbers = number_of_Cons [where k = option and v = v and opts = opts]
  from one have "number_of ((option, v) # opts) ''--port'' (ucast (sc_port cfg0)) = number_of opts ''--port'' (ucast (sc_port cfg1))"
    "number_of ((option, v) # opts) ''--max-body-bytes'' (sc_max_body_bytes cfg0) =
      number_of opts ''--max-body-bytes'' (sc_max_body_bytes cfg1)"
    "number_of ((option, v) # opts) ''--max-wal-file-bytes'' (sc_max_wal_file_bytes cfg0) =
      number_of opts ''--max-wal-file-bytes'' (sc_max_wal_file_bytes cfg1)"
    unfolding follows_def by (blast intro: numbers)+
  with one rest show ?thesis unfolding follows_def text_of_Cons [of option v opts] by simp
qed

lemma parse_options_follows:
  "parse_options args cfg0 = Inr cfg \<Longrightarrow>
     \<exists>opts. args = concat (map (\<lambda>(option, v). [option, v]) opts) \<and> follows opts cfg0 cfg"
proof (induction args cfg0 rule: parse_options.induct)
  case (1 cfg0)
  then show ?case by (intro exI [of _ "[]"]) (simp add: follows_Nil)
next
  case (3 option v rest cfg0)
  from 3(2) obtain cfg1 where one: "option \<noteq> ''--help''" "set_option option v cfg0 = Some cfg1"
    and rest: "parse_options rest cfg1 = Inr cfg" by (auto split: if_splits option.splits)
  from 3(1) [OF one rest] obtain opts where
    "rest = concat (map (\<lambda>(option, v). [option, v]) opts)" "follows opts cfg1 cfg" by blast
  with follows_Cons [OF set_option_follows [OF one(2)]] show ?case
    by (intro exI [of _ "(option, v) # opts"]) simp
qed simp

section \<open>Properties\<close>

text \<open>
  C40: The options of the gateway.  A gateway that gets past its command line was given pairs of a
  known option and a value, the last value of each option counts and the others are the defaults,
  and its limits are positive.  A negative size is no error: \<open>std::stoull\<close> wraps it, so that the
  limit is about 2 to the 64 and no body is refused.
\<close>

theorem gateway_options:
  assumes ok: "configure args = Inr cfg"
  shows "\<exists>opts. args = concat (map (\<lambda>(option, v). [option, v]) opts) \<and> follows opts default_config cfg \<and>
    0 < max_body_bytes (request_config cfg) \<and> 0 < sc_max_wal_file_bytes cfg \<and>
    (\<forall>n. map_of (rev opts) ''--max-body-bytes'' = Some (CHR ''-'' # show_nat n) \<longrightarrow>
       0 < n \<and> n < 2 ^ 64 \<and> max_body_bytes (request_config cfg) = 2 ^ 64 - n)"
proof -
  from ok have parsed: "parse_options args default_config = Inr cfg"
    and pos: "sc_max_body_bytes cfg \<noteq> 0" "sc_max_wal_file_bytes cfg \<noteq> 0"
    by (auto simp: configure_def split: sum.splits if_splits)
  from parse_options_follows [OF parsed] obtain opts where
    opts: "args = concat (map (\<lambda>(option, v). [option, v]) opts)" "follows opts default_config cfg" by blast
  moreover have "0 < n \<and> n < 2 ^ 64 \<and> max_body_bytes (request_config cfg) = 2 ^ 64 - n"
    if "map_of (rev opts) ''--max-body-bytes'' = Some (CHR ''-'' # show_nat n)" for n
  proof -
    have "stoull (CHR ''-'' # show_nat n) = Some (sc_max_body_bytes cfg)"
      using opts(2) that by (simp add: follows_def number_of_def)
    then have n: "n < 2 ^ 64" "sc_max_body_bytes cfg = - word_of_nat n"
      using stoull_digits(2) [OF show_nat_digits show_nat_nonempty, of "[]" n] by (auto split: if_splits)
    with pos(1) have "0 < n" by (cases n) auto
    moreover have wrap: "- word_of_nat n = (word_of_nat (2 ^ 64 - n) :: 64 word)"
      using n(1) by (simp add: of_nat_diff)
    have "unat (- word_of_nat n :: 64 word) = 2 ^ 64 - n"
      unfolding wrap unat_of_nat using n(1) \<open>0 < n\<close> by simp
    ultimately show ?thesis using n by (simp add: request_config_def)
  qed
  ultimately show ?thesis using pos
    by (intro exI [of _ opts]) (auto simp: request_config_def unat_gt_0 word_neq_0_conv)
qed

lemma pairs_Nil: "concat (map (\<lambda>(option, v). [option, v]) opts) = [] \<longleftrightarrow> opts = []"
  by (cases opts) auto

lemma pairs_Cons: "concat (map (\<lambda>(option, v). [option, v]) opts) = a # b # rest \<longleftrightarrow>
    (\<exists>opts'. opts = (a, b) # opts' \<and> concat (map (\<lambda>(option, v). [option, v]) opts') = rest)"
  by (cases opts) auto

theorem gateway_options_witness:
  "\<exists>cfg. configure [''--max-body-bytes'', ''9'', ''--auth-token'', ''t'', ''--max-body-bytes'', ''-1''] = Inr cfg \<and>
     sc_auth_token cfg = ''t'' \<and> max_body_bytes (request_config cfg) = 2 ^ 64 - 1"
proof -
  let ?args = "[''--max-body-bytes'', ''9'', ''--auth-token'', ''t'', ''--max-body-bytes'', ''-1'']"
  have one: "show_nat 1 = ''1''" and nine: "show_nat 9 = ''9''" by code_simp+
  have "stoull ''9'' = Some 9" "stoull ''-1'' = Some (- 1)"
    using stoull_show [of 9, unfolded nine] stoull_show [of 1, unfolded one] by simp_all
  then obtain cfg where cfg: "configure ?args = Inr cfg"
    by (simp add: configure_def set_option_def default_config_def)
  from gateway_options [OF cfg] obtain opts where args: "?args = concat (map (\<lambda>(option, v). [option, v]) opts)"
    and f: "follows opts default_config cfg"
    and neg: "\<forall>n. map_of (rev opts) ''--max-body-bytes'' = Some (CHR ''-'' # show_nat n) \<longrightarrow>
       max_body_bytes (request_config cfg) = 2 ^ 64 - n" by blast
  from args [symmetric] have opts: "opts = [(''--max-body-bytes'', ''9''), (''--auth-token'', ''t''), (''--max-body-bytes'', ''-1'')]"
    unfolding pairs_Cons pairs_Nil by (elim exE conjE) (simp only:)
  from neg [rule_format, of 1, unfolded one] have "max_body_bytes (request_config cfg) = 2 ^ 64 - 1" by (simp add: opts)
  moreover from f have "sc_auth_token cfg = ''t''" by (simp add: follows_def text_of_def opts)
  ultimately show ?thesis using cfg by blast
qed

text \<open>The arguments of the sample gateway.\<close>

definition sample_arguments :: "string list" where
  "sample_arguments = [''--max-body-bytes'', ''100'', ''--max-wal-file-bytes'', ''20'', ''--auth-token'', ''secret'']"

lemma sample_launch: "launch sample_arguments (calm 1) [] = (Inr (sample_gateway_config, sample_gateway), [(segment_name 1 0, [])])"
proof -
  have shown: "show_nat 100 = ''100''" "show_nat 20 = ''20''" by code_simp+
  have "stoull ''100'' = Some 100" "stoull ''20'' = Some 20"
    using stoull_show [of 100, unfolded shown] stoull_show [of 20, unfolded shown] by simp_all
  then have "configure sample_arguments = Inr (default_config\<lparr>sc_max_body_bytes := 100, sc_max_wal_file_bytes := 20,
      sc_auth_token := ''secret''\<rparr>)"
    by (simp add: configure_def set_option_def default_config_def sample_arguments_def)
  then show ?thesis using sample_start by (simp add: launch_def request_config_def sample_gateway_config_def)
qed

text \<open>With nothing configured on either side, the backend reads all that the gateway lets in.\<close>

lemma default_limits_agree:
  assumes "configure [] = Inr cfg" "from_environment (\<lambda>_. None) parse_float resolve = Inr st"
  shows "int (max_body_bytes (request_config cfg)) \<le> max_wal_record_bytes st"
proof -
  have "py_int ''67108864'' = Inr 67108864"
    by (simp add: py_int_def strip_digits int_digits_plain is_digit_def read_nat_def digit_val_def)
  with assms(2) have "max_wal_record_bytes st = 67108864"
    by (auto simp: from_environment_def Let_def env_or_def split: sum.splits if_splits)
  moreover have "max_body_bytes (request_config cfg) = 4194304"
    using assms(1) by (auto simp: configure_def default_config_def request_config_def)
  ultimately show ?thesis by simp
qed

end
