(* ===== verification/End_To_End.thy ===== *)
theory End_To_End
  imports Gateway_Main System Clean_Log Access
begin

text \<open>
  Gateway and backend on the same directory of segments: requests to the gateway refine the
  steps of the storage engine (System), so that what the gateway acknowledges is what the
  backend's API shows.
\<close>

section \<open>The deployment\<close>

text \<open>\<open>dp_earlier\<close> counts the spans that earlier processes of the gateway accepted.\<close>

record deployment =
  dp_gateway :: gateway
  dp_earlier :: "64 word"
  dp_system :: system

text \<open>The directory after a request of the gateway; the log takes the contents of all its files.\<close>

definition adopt :: "wal_directory \<Rightarrow> system \<Rightarrow> system" where
  "adopt dir s = s\<lparr>sys_log := fold (\<lambda>(f, c). tbl_put f c) dir (sys_log s),
     sys_world := (sys_world s)\<lparr>wal_dir := dir\<rparr>\<rparr>"

text \<open>The clock has advanced since each segment was created, whichever process did.\<close>

definition clock_advanced :: "os_call \<Rightarrow> system \<Rightarrow> bool" where
  "clock_advanced os s \<longleftrightarrow> (\<forall>f \<in> set (keys (sys_log s)). fst (parse_wal_key f) < os_now os)"

text \<open>
  A request to the gateway, whose body is not empty (the reader takes a record without payload for
  corrupt) and whose writes do not fail half way; the end of the gateway between two requests and
  the launch of another on the segments there are; or an operation of the backend.  A request does
  not overlap with a materialisation here: a run that reads half a record takes it for corrupt.
\<close>

inductive dp_step :: "string list \<Rightarrow> gateway_config \<Rightarrow> gateway_env \<Rightarrow> settings \<Rightarrow> env \<Rightarrow> deployment \<Rightarrow> deployment \<Rightarrow> bool"
  for args cfg genv st ev where
  dp_request: "handle_request cfg genv os rq (dp_gateway d, wal_dir (sys_world (dp_system d))) = (response, (gw, dir)) \<Longrightarrow>
    whole_writes os \<Longrightarrow> clock_advanced os (dp_system d) \<Longrightarrow> rq_body rq \<noteq> [] \<Longrightarrow>
    dp_step args cfg genv st ev d (d\<lparr>dp_gateway := gw, dp_system := adopt dir (dp_system d)\<rparr>)"
| dp_restart: "launch args os (wal_dir (sys_world (dp_system d))) = (Inr (cfg, gw), dir) \<Longrightarrow>
    clock_advanced os (dp_system d) \<Longrightarrow>
    dp_step args cfg genv st ev d \<lparr> dp_gateway = gw,
      dp_earlier = dp_earlier d + accepted_spans (gw_stats (dp_gateway d)), dp_system = adopt dir (dp_system d) \<rparr>"
| dp_backend: "backend_step st ev (dp_system d) s \<Longrightarrow>
    dp_step args cfg genv st ev d (d\<lparr>dp_system := s\<rparr>)"

text \<open>First the gateway is launched on an empty directory, with a command line that gives the configuration.\<close>

inductive dp_reachable :: "string list \<Rightarrow> gateway_config \<Rightarrow> gateway_env \<Rightarrow> settings \<Rightarrow> env \<Rightarrow> deployment \<Rightarrow> bool"
  for args cfg genv st ev where
  dp_start: "launch args os [] = (Inr (cfg, gw), dir) \<Longrightarrow>
    dp_reachable args cfg genv st ev \<lparr> dp_gateway = gw, dp_earlier = 0, dp_system = adopt dir system_start \<rparr>"
| dp_more: "dp_reachable args cfg genv st ev d \<Longrightarrow> dp_step args cfg genv st ev d d' \<Longrightarrow>
    dp_reachable args cfg genv st ev d'"

inductive_cases dp_step_E: "dp_step args cfg genv st ev d d'"

section \<open>The log after a request\<close>

lemma put_triv: "map_of t k = Some v \<Longrightarrow> tbl_put k v t = t"
  unfolding tbl_put_def by (rule update_triv)

lemma put_put [simp]: "tbl_put k v (tbl_put k u t) = tbl_put k v t"
  by (induction t) (auto simp: tbl_put_def)

lemma put_new: "k \<notin> set (keys t) \<Longrightarrow> tbl_put k v t = t @ [(k, v)]"
  by (induction t) (auto simp: tbl_put_def)

lemma update_put: "distinct (keys t) \<Longrightarrow> map_of t k = Some v \<Longrightarrow> tbl_update k g t = tbl_put k (g v) t"
proof (induction t)
  case (Cons kv t)
  have "k \<notin> set (keys t) \<Longrightarrow> tbl_update k g t = t" by (induction t) (auto simp: tbl_update_def)
  with Cons show ?case by (cases kv) (auto simp: tbl_update_def tbl_put_def)
qed simp

lemma ignore_put: "k \<notin> set (keys t) \<Longrightarrow> tbl_ignore k v t = tbl_put k v t"
  by (simp add: tbl_ignore_def tbl_has_iff put_new del: set_map)

lemma fold_put_same: "(\<And>f c. (f, c) \<in> set d \<Longrightarrow> map_of l f = Some c) \<Longrightarrow> fold (\<lambda>(f, c). tbl_put f c) d l = l"
  by (induction d) (auto simp: put_triv simp del: map_of_eq_Some_iff)

lemma fold_put:
  assumes "distinct (keys d)" "map_of d f = Some c" "\<And>g x. (g, x) \<in> set d \<Longrightarrow> g \<noteq> f \<Longrightarrow> map_of l g = Some x"
  shows "fold (\<lambda>(f, c). tbl_put f c) d l = tbl_put f c l"
  using assms
proof (induction d)
  case (Cons gx d)
  obtain g x where gx: "gx = (g, x)" by fastforce
  show ?case
  proof (cases "g = f")
    case True
    then have "x = c" "f \<notin> set (keys d)" using Cons.prems(1,2) by (auto simp: gx)
    then have "map_of (tbl_put f c l) h = Some y" if "(h, y) \<in> set d" for h y
      using that Cons.prems(3) [of h y] by (force simp: map_of_put gx)
    then show ?thesis using fold_put_same [of d "tbl_put f c l"] by (simp add: gx True \<open>x = c\<close>)
  next
    case False
    then have "tbl_put g x l = l" using Cons.prems(3) by (intro put_triv) (simp add: gx)
    with Cons False show ?thesis by (simp add: gx)
  qed
qed simp

lemma adopt_same:
  assumes "log_covers (sys_log s) (sys_world s)" "distinct (keys (wal_dir (sys_world s)))"
  shows "adopt (wal_dir (sys_world s)) s = s"
proof -
  have "fold (\<lambda>(f, c). tbl_put f c) (wal_dir (sys_world s)) (sys_log s) = sys_log s"
    using assms by (intro fold_put_same) (simp add: log_covers_def)
  then show ?thesis by (simp add: adopt_def)
qed

lemma adopt_put:
  assumes "log_covers (sys_log s) (sys_world s)" "distinct (keys (wal_dir (sys_world s)))"
  shows "adopt (tbl_put f c (wal_dir (sys_world s))) s = put_segment f c s"
proof -
  let ?d = "tbl_put f c (wal_dir (sys_world s))"
  have "distinct (keys ?d)" using assms(2) by simp
  moreover have "map_of (sys_log s) g = Some x" if "(g, x) \<in> set ?d" "g \<noteq> f" for g x
  proof -
    have "map_of ?d g = Some x" using that(1) \<open>distinct (keys ?d)\<close> by simp
    with that(2) assms(1) show ?thesis by (simp add: map_of_put log_covers_def)
  qed
  ultimately have "fold (\<lambda>(f, c). tbl_put f c) ?d (sys_log s) = tbl_put f c (sys_log s)"
    by (intro fold_put) (simp_all add: map_of_put)
  then show ?thesis by (simp add: adopt_def put_segment_def)
qed

text \<open>
  What an append that writes in whole does to the directory: nothing, or it puts the record
  behind the contents of the open segment, or into a new one.
\<close>

definition new_segment :: "os_call \<Rightarrow> wal_writer \<Rightarrow> string" where
  "new_segment os wr = segment_name (os_now os) (unat (sequence wr))"

lemma append_cases:
  assumes whole: "whole_writes os" and dist: "distinct (keys dir)" and new: "new_segment os wr \<notin> set (keys dir)"
    and opened: "\<And>f. wal_handle wr = Some f \<Longrightarrow> f \<in> set (keys dir)"
    and run: "wal_append os p (wr, dir) = (r, (wr', dir'))"
  obtains (refused) e where "r = Inl e" "dir' = dir" "wal_handle wr' \<in> {None, wal_handle wr}"
  | (appended) f c where "r = Inr ()" "length p < 2 ^ 32" "wal_handle wr = Some f" "wal_handle wr' = Some f"
      "map_of dir f = Some c" "dir' = tbl_put f (c @ encode_record p) dir"
  | (rotated) "r = Inr ()" "length p < 2 ^ 32" "wal_handle wr' = Some (new_segment os wr)"
      "dir' = tbl_put (new_segment os wr) (encode_record p) dir"
proof (cases "2 ^ 32 \<le> length p")
  case True
  with run show ?thesis by (intro refused) (auto simp: wal_append_def)
next
  case small: False
  let ?f = "new_segment os wr"
  show ?thesis
  proof (cases "needs_segment wr (8 + length p)")
    case True
    show ?thesis
    proof (cases "os_open_error os")
      case None
      have "tbl_update ?f (\<lambda>c. c @ encode_record p) (tbl_put ?f [] dir) = tbl_put ?f (encode_record p) dir"
        using update_put [of "tbl_put ?f [] dir" ?f "[]" "\<lambda>c. c @ encode_record p"] dist by (simp add: map_of_put)
      with None True small run whole new show ?thesis
        by (intro rotated) (auto simp: wal_append_def bindE_def open_new_segment_def write_all_def whole_writes_def
            new_segment_def Let_def ignore_put simp del: set_map)
    next
      case (Some e)
      with True small run show ?thesis
        by (intro refused) (auto simp: wal_append_def bindE_def open_new_segment_def Let_def)
    qed
  next
    case False
    then obtain f where f: "wal_handle wr = Some f" by (auto simp: needs_segment_def)
    then obtain c where c: "map_of dir f = Some c" using opened by (metis map_of_eq_None_iff not_None_eq set_map)
    from update_put [OF dist c, of "\<lambda>c. c @ encode_record p"] False small run whole f c show ?thesis
      by (intro appended [of f c]) (auto simp: wal_append_def bindE_def write_all_def whole_writes_def Let_def)
  qed
qed

section \<open>The invariant\<close>

text \<open>
  The log consists of records whose payloads the backend can deliver; the number is that of
  their spans.
\<close>

definition deliverable :: "gateway_config \<Rightarrow> gateway_env \<Rightarrow> byte list \<Rightarrow> bool" where
  "deliverable cfg genv p \<longleftrightarrow> p \<noteq> [] \<and> length p < 2 ^ 32 \<and> length p \<le> max_body_bytes cfg \<and> parse_otlp genv p \<noteq> None"

definition log_of :: "gateway_config \<Rightarrow> gateway_env \<Rightarrow> wal_log \<Rightarrow> (string \<Rightarrow> byte list list) \<Rightarrow> bool" where
  "log_of cfg genv written ps \<longleftrightarrow>
     (\<forall>f. log_bytes written f = encode_records (ps f) \<and> list_all (deliverable cfg genv) (ps f))"

definition log_spans :: "gateway_env \<Rightarrow> wal_log \<Rightarrow> (string \<Rightarrow> byte list list) \<Rightarrow> nat" where
  "log_spans genv written ps = (\<Sum>f \<in> set (keys written). \<Sum>p \<leftarrow> ps f. spans_of genv p)"

lemma log_of_absent: "log_of cfg genv written ps \<Longrightarrow> f \<notin> set (keys written) \<Longrightarrow> ps f = []"
proof -
  assume written: "log_of cfg genv written ps" and f: "f \<notin> set (keys written)"
  have "log_bytes written f = []" using f by (simp add: log_bytes_def map_of_eq_None_iff [THEN iffD2])
  then have "encode_records (ps f) = []" using written by (simp add: log_of_def)
  then show "ps f = []" by (cases "ps f") (simp_all add: encode_record_def le32_def)
qed

lemma log_of_append:
  assumes written: "log_of cfg genv written ps" and p: "deliverable cfg genv p"
  shows "log_of cfg genv (tbl_put f (log_bytes written f @ encode_record p) written) (ps(f := ps f @ [p])) \<and>
    log_spans genv (tbl_put f (log_bytes written f @ encode_record p) written) (ps(f := ps f @ [p])) =
      log_spans genv written ps + spans_of genv p"
proof
  show "log_of cfg genv (tbl_put f (log_bytes written f @ encode_record p) written) (ps(f := ps f @ [p]))"
    using written p by (simp add: log_of_def log_bytes_put)
  let ?K = "set (keys written)" and ?n = "\<lambda>ps f. \<Sum>p \<leftarrow> ps f. spans_of genv p"
  have "log_spans genv written ps = ?n ps f + (\<Sum>g \<in> ?K - {f}. ?n ps g)"
  proof (cases "f \<in> ?K")
    case True
    then show ?thesis unfolding log_spans_def by (intro sum.remove) auto
  next
    case False
    then show ?thesis using log_of_absent [OF written False] by (simp add: log_spans_def del: set_map)
  qed
  moreover have "(\<Sum>g \<in> ?K - {f}. ?n (ps(f := ps f @ [p])) g) = (\<Sum>g \<in> ?K - {f}. ?n ps g)"
    by (rule sum.cong) auto
  ultimately show "log_spans genv (tbl_put f (log_bytes written f @ encode_record p) written) (ps(f := ps f @ [p])) =
      log_spans genv written ps + spans_of genv p"
    by (simp add: log_spans_def sum.insert_remove del: set_map)
qed

definition dp_inv :: "gateway_config \<Rightarrow> gateway_env \<Rightarrow> settings \<Rightarrow> env \<Rightarrow> deployment \<Rightarrow> bool" where
  "dp_inv cfg genv st ev d \<longleftrightarrow> sys_reachable st ev (dp_system d) \<and>
     (\<forall>f. wal_handle (gw_writer (dp_gateway d)) = Some f \<longrightarrow> active_segment (sys_world (dp_system d)) = Some f) \<and>
     (\<exists>ps. log_of cfg genv (sys_log (dp_system d)) ps \<and>
        dp_earlier d + accepted_spans (gw_stats (dp_gateway d)) = word_of_nat (log_spans genv (sys_log (dp_system d)) ps))"

text \<open>What a request does: nothing that matters here, or an append.\<close>

lemma request_effect:
  assumes "handle_request cfg genv os rq (gw, dir) = (response, (gw', dir'))"
  shows "(gw_writer gw' = gw_writer gw \<and> dir' = dir \<and> accepted_spans (gw_stats gw') = accepted_spans (gw_stats gw)) \<or>
    (\<exists>r. wal_append os (rq_body rq) (gw_writer gw, dir) = (r, (gw_writer gw', dir')) \<and>
       parse_otlp genv (rq_body rq) \<noteq> None \<and> length (rq_body rq) \<le> max_body_bytes cfg \<and>
       accepted_spans (gw_stats gw') = accepted_spans (gw_stats gw) +
         (case r of Inr _ \<Rightarrow> word_of_nat (spans_of genv (rq_body rq)) | Inl _ \<Rightarrow> 0))"
proof -
  obtain r wr d where app: "wal_append os (rq_body rq) (gw_writer gw, dir) = (r, (wr, d))" by (metis prod.collapse)
  show ?thesis
    using assms by (auto simp: handle_request_def refuse_def count_accepted_def spans_of_def app Let_def
        split: if_splits option.splits sum.splits)
qed

text \<open>An append to the open segment is a step of the engine, one into a new segment two.\<close>

lemma reach_append:
  assumes "sys_reachable st ev s" "active_segment (sys_world s) = Some f" "segment_bytes (sys_world s) f = c"
  shows "sys_reachable st ev (put_segment f (c @ encode_record p) s)"
  using sys_more [OF assms(1) step_wal [OF wal_append [OF assms(2)]]] assms(3) by blast

lemma reach_open:
  assumes reach: "sys_reachable st ev s" and new: "f \<notin> set (keys (sys_log s))" "ends_with ''.wal'' f"
    "\<forall>g \<in> set (keys (wal_dir (sys_world s))). parse_wal_key g < parse_wal_key f"
  shows "sys_reachable st ev (put_segment f [] s)" "active_segment (sys_world (put_segment f [] s)) = Some f"
proof -
  show "sys_reachable st ev (put_segment f [] s)" by (rule sys_more [OF reach step_wal [OF wal_open]]) (use new in auto)
  show "active_segment (sys_world (put_segment f [] s)) = Some f"
    unfolding active_segment_def
    by (rule active_newest) (use new(2,3) in \<open>auto simp: put_segment_def simp del: set_map\<close>)
qed

lemma reach_rotate:
  assumes reach: "sys_reachable st ev s" and new: "f \<notin> set (keys (sys_log s))" "ends_with ''.wal'' f"
    "\<forall>g \<in> set (keys (wal_dir (sys_world s))). parse_wal_key g < parse_wal_key f"
  shows "sys_reachable st ev (put_segment f (encode_record p) s) \<and>
    active_segment (sys_world (put_segment f (encode_record p) s)) = Some f"
proof -
  let ?s = "put_segment f [] s"
  note one = reach_open [OF assms]
  have "put_segment f ([] @ encode_record p) ?s = put_segment f (encode_record p) s"
    by (simp add: put_segment_def)
  moreover have "segment_bytes (sys_world ?s) f = []" by (simp add: segment_bytes_def put_segment_def map_of_put)
  ultimately show ?thesis using reach_append [OF one, of "[]" p] active_put [OF one(2), of "encode_record p"]
    by (simp add: put_segment_def)
qed

text \<open>A name of the present is later than all that were ever used.\<close>

lemma newest_name:
  assumes "clock_advanced os s" "sys_inv st ev s"
  shows "segment_name (os_now os) n \<notin> set (keys (sys_log s))" "ends_with ''.wal'' (segment_name (os_now os) n)"
    "\<forall>g \<in> set (keys (wal_dir (sys_world s))). parse_wal_key g < parse_wal_key (segment_name (os_now os) n)"
proof -
  have older: "parse_wal_key g < parse_wal_key (segment_name (os_now os) n)" if "g \<in> set (keys (sys_log s))" for g
  proof -
    have "fst (parse_wal_key g) < fst (parse_wal_key (segment_name (os_now os) n))"
      using assms(1) that by (auto simp: clock_advanced_def wal_key_roundtrip)
    then show ?thesis by (simp add: less_prod_def')
  qed
  then show "segment_name (os_now os) n \<notin> set (keys (sys_log s))" by blast
  show "\<forall>g \<in> set (keys (wal_dir (sys_world s))). parse_wal_key g < parse_wal_key (segment_name (os_now os) n)"
    using older segment_in_log [OF assms(2)] by blast
qed (rule segment_name_wal)

text \<open>A launch.\<close>

lemma launch_put:
  assumes "launch args os dir = (Inr (cfg, gw), dir')" "segment_name (os_now os) 0 \<notin> set (keys dir)"
  shows "wal_handle (gw_writer gw) = Some (segment_name (os_now os) 0)" "accepted_spans (gw_stats gw) = 0"
    "dir' = tbl_put (segment_name (os_now os) 0) [] dir"
  using assms by (auto simp: launch_def start_gateway_def start_writer_def open_new_segment_def ignore_put Let_def
      split: option.splits sum.splits prod.splits)

lemma log_of_open:
  assumes log: "log_of cfg genv written ps" and f: "f \<notin> set (keys written)"
  shows "log_of cfg genv (tbl_put f [] written) ps \<and> log_spans genv (tbl_put f [] written) ps = log_spans genv written ps"
proof -
  have "ps f = []" by (rule log_of_absent [OF log f])
  moreover have "set (keys (tbl_put f [] written)) = insert f (set (keys written))" by (rule set_keys_put)
  ultimately show ?thesis
    using log f by (simp add: log_of_def log_bytes_put log_spans_def del: set_map)
qed

lemma dp_inv_launch:
  assumes run: "launch args os (wal_dir (sys_world s)) = (Inr (cfg, gw), dir)" and clock: "clock_advanced os s"
    and reach: "sys_reachable st ev s" and inv: "sys_inv st ev s"
    and ps: "log_of cfg genv (sys_log s) ps" and spans: "earlier = word_of_nat (log_spans genv (sys_log s) ps)"
  shows "dp_inv cfg genv st ev \<lparr> dp_gateway = gw, dp_earlier = earlier, dp_system = adopt dir s \<rparr>"
proof -
  note new = newest_name [OF clock inv, of 0]
  have cov: "log_covers (sys_log s) (sys_world s)" "distinct (keys (wal_dir (sys_world s)))"
    using inv by (auto simp: sys_inv_def Let_def accounted_def)
  have "segment_name (os_now os) 0 \<notin> set (keys (wal_dir (sys_world s)))" using new(1) segment_in_log [OF inv] by blast
  note gw = launch_put [OF run this]
  show ?thesis
    using reach_open [OF reach new] log_of_open [OF ps new(1)] gw(1,2) spans
    by (auto simp: dp_inv_def gw(3) adopt_put [OF cov] put_segment_def intro!: exI [of _ ps])
qed

lemma dp_inv_request:
  assumes inv: "dp_inv cfg genv st ev d" and names: "unique_names ev" and size: "0 < materialize_batch_size st"
    and run: "handle_request cfg genv os rq (dp_gateway d, wal_dir (sys_world (dp_system d))) = (response, (gw, dir))"
    and whole: "whole_writes os" and clock: "clock_advanced os (dp_system d)" and body: "rq_body rq \<noteq> []"
  shows "dp_inv cfg genv st ev (d\<lparr>dp_gateway := gw, dp_system := adopt dir (dp_system d)\<rparr>)"
proof -
  let ?s = "dp_system d" and ?wr = "gw_writer (dp_gateway d)" and ?p = "rq_body rq"
  let ?w = "sys_world ?s" and ?f = "new_segment os ?wr"
  from inv obtain ps where reach: "sys_reachable st ev ?s" and ps: "log_of cfg genv (sys_log ?s) ps"
    and spans: "dp_earlier d + accepted_spans (gw_stats (dp_gateway d)) = word_of_nat (log_spans genv (sys_log ?s) ps)"
    and active: "\<And>f. wal_handle ?wr = Some f \<Longrightarrow> active_segment ?w = Some f"
    by (auto simp: dp_inv_def)
  have sinv: "sys_inv st ev ?s" by (rule sys_reachable_inv [OF reach names size])
  then have cov: "log_covers (sys_log ?s) ?w" and dist: "distinct (keys (wal_dir ?w))"
    by (auto simp: sys_inv_def Let_def accounted_def)
  note newest = newest_name [OF clock sinv, of "unat (sequence ?wr)", folded new_segment_def]
  have in_log: "g \<in> set (keys (wal_dir ?w)) \<Longrightarrow> g \<in> set (keys (sys_log ?s))" for g
    by (rule segment_in_log [OF sinv])
  have same: "dp_inv cfg genv st ev (d\<lparr>dp_gateway := gw, dp_system := ?s\<rparr>)"
    if "wal_handle (gw_writer gw) \<in> {None, wal_handle ?wr}"
      "accepted_spans (gw_stats gw) = accepted_spans (gw_stats (dp_gateway d))"
  proof -
    have "active_segment ?w = Some f" if "wal_handle (gw_writer gw) = Some f" for f
      using that \<open>wal_handle (gw_writer gw) \<in> {None, wal_handle ?wr}\<close> by (intro active) auto
    with that(2) reach ps spans show ?thesis by (auto simp: dp_inv_def)
  qed
  have put: "dp_inv cfg genv st ev (d\<lparr>dp_gateway := gw, dp_system := put_segment f (c @ encode_record ?p) ?s\<rparr>)"
    if "sys_reachable st ev (put_segment f (c @ encode_record ?p) ?s)"
      "active_segment (sys_world (put_segment f (c @ encode_record ?p) ?s)) = Some f"
      "wal_handle (gw_writer gw) = Some f" "c = log_bytes (sys_log ?s) f" "deliverable cfg genv ?p"
      "accepted_spans (gw_stats gw) = accepted_spans (gw_stats (dp_gateway d)) + word_of_nat (spans_of genv ?p)" for f c
    using that log_of_append [OF ps that(5), of f] spans
    by (auto simp: dp_inv_def put_segment_def add.assoc [symmetric] intro!: exI [of _ "ps(f := ps f @ [?p])"])
  from request_effect [OF run] show ?thesis
  proof (elim disjE exE conjE)
    assume "gw_writer gw = ?wr" "dir = wal_dir ?w" "accepted_spans (gw_stats gw) = accepted_spans (gw_stats (dp_gateway d))"
    with same adopt_same [OF cov dist] show ?thesis by simp
  next
    fix r assume app: "wal_append os ?p (?wr, wal_dir ?w) = (r, (gw_writer gw, dir))"
      and parse: "parse_otlp genv ?p \<noteq> None" and limit: "length ?p \<le> max_body_bytes cfg"
      and count: "accepted_spans (gw_stats gw) = accepted_spans (gw_stats (dp_gateway d)) +
        (case r of Inr _ \<Rightarrow> word_of_nat (spans_of genv ?p) | Inl _ \<Rightarrow> 0)"
    have new: "?f \<notin> set (keys (wal_dir ?w))" using newest(1) in_log by blast
    have opened: "wal_handle ?wr = Some f \<Longrightarrow> f \<in> set (keys (wal_dir ?w))" for f
      by (rule active_in_dir [OF active])
    show ?thesis
    proof (rule append_cases [OF whole dist new opened app])
      fix e assume "r = Inl e" "dir = wal_dir ?w" "wal_handle (gw_writer gw) \<in> {None, wal_handle ?wr}"
      with same count adopt_same [OF cov dist] show ?thesis by simp
    next
      fix f c assume a: "r = Inr ()" "length ?p < 2 ^ 32" "wal_handle ?wr = Some f" "wal_handle (gw_writer gw) = Some f"
        "map_of (wal_dir ?w) f = Some c" "dir = tbl_put f (c @ encode_record ?p) (wal_dir ?w)"
      then have c: "segment_bytes ?w f = c" "c = log_bytes (sys_log ?s) f"
        using cov by (simp_all add: segment_bytes_def log_covers_def log_bytes_def del: map_of_eq_Some_iff)
      have "deliverable cfg genv ?p" using a(2) body limit parse by (simp add: deliverable_def)
      with put [of f c] reach_append [OF reach active [OF a(3)] c(1)] active_put [OF active [OF a(3)]] a c count
        adopt_put [OF cov dist] show ?thesis by simp
    next
      assume a: "r = Inr ()" "length ?p < 2 ^ 32" "wal_handle (gw_writer gw) = Some ?f"
        "dir = tbl_put ?f (encode_record ?p) (wal_dir ?w)"
      have "deliverable cfg genv ?p" using a(2) body limit parse by (simp add: deliverable_def)
      moreover have "log_bytes (sys_log ?s) ?f = []" using newest(1) by (simp add: log_bytes_def map_of_eq_None_iff [THEN iffD2])
      ultimately show ?thesis
        using put [of ?f "[]"] reach_rotate [OF reach newest] a count adopt_put [OF cov dist] by simp
    qed
  qed
qed

lemma materialize_keeps_dir:
  assumes inv: "sys_inv st ev s" and names: "unique_names ev" and size: "0 < materialize_batch_size st"
    and run: "materialize st ev a (sys_world s) = (res, w')"
  shows "wal_dir w' = wal_dir (sys_world s)"
proof -
  from inv obtain lost where acc: "accounted st ev (sys_log s) lost (sys_world s)"
    and "distinct (keys (wal_dir (sys_world s)))" "lock_idle a (lifecycle_lock (sys_world s))"
    by (auto simp: sys_inv_def Let_def)
  from materialize_idle [OF acc names size this(2,3) run] show ?thesis by blast
qed

lemma killed_keeps_dir:
  assumes inv: "sys_inv st ev s" and names: "unique_names ev" and size: "0 < materialize_batch_size st"
    and point: "run_point st ev (sys_world s) (w, b)"
  shows "wal_dir w = wal_dir (sys_world s)" "wal_dir (cut_flush ev k partial (w, b)) = wal_dir (sys_world s)"
proof -
  from inv obtain lost where acc: "accounted st ev (sys_log s) lost (sys_world s)"
    and dist: "distinct (keys (wal_dir (sys_world s)))" by (auto simp: sys_inv_def Let_def)
  note one = run_point_inv [OF acc names size dist point]
  then show "wal_dir w = wal_dir (sys_world s)" by (simp add: keeps_rest_def)
  with one cut_flush_accounted [OF _ names refl, of st "sys_log s" lost "size (visible (sys_world s))" w b k partial]
  show "wal_dir (cut_flush ev k partial (w, b)) = wal_dir (sys_world s)" by (simp add: keeps_rest_def)
qed

text \<open>A step of the backend keeps the newest segment.\<close>

lemma backend_active:
  assumes step: "backend_step st ev s s'" and inv: "sys_inv st ev s"
    and names: "unique_names ev" and size: "0 < materialize_batch_size st"
  shows "active_segment (sys_world s') = active_segment (sys_world s)"
  using step
proof cases
  case (step_materialize a n w')
  with materialize_keeps_dir [OF inv names size] show ?thesis by (simp add: active_segment_def)
next
  case (step_raise a e w')
  with materialize_keeps_dir [OF inv names size] show ?thesis by (simp add: active_segment_def)
next
  case (step_io_error io a e w')
  from sys_inv_io_error [OF inv names size this(2)] show ?thesis by (simp add: step_io_error(1) active_segment_def)
next
  case (step_killed w' b)
  from killed_keeps_dir(1) [OF inv names size this(2)] show ?thesis by (simp add: step_killed(1) active_segment_def)
next
  case (step_killed_flush w b k partial)
  from killed_keeps_dir(2) [OF inv names size this(2)] show ?thesis by (simp add: step_killed_flush(1) active_segment_def)
next
  case (step_killed_compact w m rows w' k partial)
  have "store_inv ev (sys_world s)" using inv by (auto simp: sys_inv_def Let_def accounted_def)
  from compaction_prefix [OF this names step_killed_compact(3,4) [unfolded step_killed_compact(2)]] show ?thesis
    by (simp add: step_killed_compact(1) active_segment_def)
next
  case (step_killed_cleanup w k ds w')
  note res = delete_segments_result [OF step_killed_cleanup(3)]
  then have sub: "set ds \<subseteq> set (deletable ev (sys_world s))"
    by (auto simp: deletable_def step_killed_cleanup(2) dest: in_set_takeD)
  have "distinct (keys (wal_dir (sys_world s)))" using inv by (simp add: sys_inv_def Let_def)
  moreover have "wal_dir w' = filter (\<lambda>kv. fst kv \<notin> set ds) (wal_dir (sys_world s))"
    using res step_killed_cleanup(2) by blast
  ultimately have "active_segment w' = active_segment (sys_world s)"
    unfolding active_segment_def by (rule active_drop [OF sub])
  then show ?thesis by (simp add: step_killed_cleanup(1))
next
  case (step_compact faults a m r w')
  have "store_inv ev (sys_world s)" "lock_idle a (lifecycle_lock (sys_world s))"
    using inv by (auto simp: sys_inv_def Let_def accounted_def)
  from compact_io_idle [OF this(1) names this(2) step_compact(2,3)] show ?thesis
    by (simp add: step_compact(1) active_segment_def)
next
  case (step_orphans err n w')
  from cleanup_orphaned_same [OF step_orphans(2)] show ?thesis by (simp add: step_orphans(1) active_segment_def)
next
  case (step_killed_orphans w k)
  then show ?thesis by (simp add: active_segment_def unlinks_same)
next
  case (step_projects w ps)
  then show ?thesis by (simp add: active_segment_def)
next
  case (step_cleanup a r' w')
  from inv obtain lost where acc: "accounted st ev (sys_log s) lost (sys_world s)"
    and "distinct (keys (wal_dir (sys_world s)))" "lock_idle a (lifecycle_lock (sys_world s))"
    by (auto simp: sys_inv_def Let_def)
  from wal_cleanup_idle [OF this(3) acc this(2) step_cleanup(2)] show ?thesis
    by (simp add: step_cleanup(1) active_segment_def)
qed

lemma backend_log: "backend_step st ev s s' \<Longrightarrow> sys_log s' = sys_log s"
  by (cases rule: backend_step.cases) auto

lemma dp_inv_step:
  assumes "dp_step args cfg genv st ev d d'" and inv: "dp_inv cfg genv st ev d"
    and names: "unique_names ev" and size: "0 < materialize_batch_size st"
  shows "dp_inv cfg genv st ev d'"
  using assms(1)
proof cases
  case (dp_request os rq response gw dir)
  with dp_inv_request [OF inv names size] show ?thesis by simp
next
  case (dp_restart os gw dir)
  from inv obtain ps where "sys_reachable st ev (dp_system d)" "log_of cfg genv (sys_log (dp_system d)) ps"
    "dp_earlier d + accepted_spans (gw_stats (dp_gateway d)) = word_of_nat (log_spans genv (sys_log (dp_system d)) ps)"
    by (auto simp: dp_inv_def)
  from dp_inv_launch [OF dp_restart(2,3) this(1) sys_reachable_inv [OF this(1) names size] this(2,3)] dp_restart(1)
  show ?thesis by simp
next
  case (dp_backend s)
  have reach: "sys_reachable st ev (dp_system d)" using inv by (simp add: dp_inv_def)
  have "active_segment (sys_world s) = active_segment (sys_world (dp_system d))"
    by (rule backend_active [OF dp_backend(2) sys_reachable_inv [OF reach names size] names size])
  moreover have "sys_reachable st ev s" by (rule sys_more [OF reach step_backend [OF dp_backend(2)]])
  ultimately show ?thesis using inv dp_backend(1) backend_log [OF dp_backend(2)] by (simp add: dp_inv_def)
qed

lemma dp_inv_start:
  assumes "launch args os [] = (Inr (cfg, gw), dir)"
  shows "dp_inv cfg genv st ev \<lparr> dp_gateway = gw, dp_earlier = 0, dp_system = adopt dir system_start \<rparr>"
proof (rule dp_inv_launch [OF _ _ sys_start sys_inv_start])
  show "launch args os (wal_dir (sys_world system_start)) = (Inr (cfg, gw), dir)"
    using assms by (simp add: system_start_def fresh_world_def)
  show "clock_advanced os system_start" by (simp add: clock_advanced_def system_start_def)
  show "log_of cfg genv (sys_log system_start) (\<lambda>_. [])"
    by (simp add: log_of_def system_start_def log_bytes_def)
qed (simp add: log_spans_def)

lemma dp_reachable_inv:
  "dp_reachable args cfg genv st ev d \<Longrightarrow> unique_names ev \<Longrightarrow> 0 < materialize_batch_size st \<Longrightarrow>
     dp_inv cfg genv st ev d"
  by (induction rule: dp_reachable.induct) (auto intro: dp_inv_start dp_inv_step)

section \<open>What the backend shows of it\<close>

text \<open>Both protobuf libraries read a message alike, and Python's returns the bytes it consumed.\<close>

definition same_protobuf :: "gateway_env \<Rightarrow> env \<Rightarrow> bool" where
  "same_protobuf genv ev \<longleftrightarrow>
     (\<forall>p req. p \<noteq> [] \<longrightarrow> parse_otlp genv p = Some req \<longrightarrow> (\<exists>n > 0. parse_request ev p = Parsed n req))"

lemma deliverable_rows:
  assumes "deliverable cfg genv p" "same_protobuf genv ev"
  shows "\<exists>rows. rows_of ev p f k = Inr rows \<and> length rows = spans_of genv p"
proof -
  obtain req where req: "parse_otlp genv p = Some req" "p \<noteq> []" using assms(1) by (auto simp: deliverable_def)
  then obtain n where "0 < n" "parse_request ev p = Parsed n req" using assms(2) by (auto simp: same_protobuf_def)
  with req show ?thesis by (simp add: rows_of_def spans_of_def length_request_rows)
qed

lemma layout_rows:
  assumes ps: "list_all (deliverable cfg genv) ps" and same: "same_protobuf genv ev" and r: "r \<in> set (layout 0 ps)"
  shows "parses ev f r \<and> length (record_rows ev f r) = spans_of genv (rec_payload r)"
proof -
  have "rec_payload r \<in> set ps" using r map_payload_layout [of 0 ps] by (metis imageI list.set_map)
  with ps have "deliverable cfg genv (rec_payload r)" by (simp add: list_all_iff)
  from deliverable_rows [OF this same, of f "rec_start r"] show ?thesis by (auto simp: parses_def record_rows_def)
qed

text \<open>So the reader takes all of an undamaged segment, and every record of it parses.\<close>

lemma deliverable_clean:
  assumes ps: "list_all (deliverable cfg genv) ps" and same: "same_protobuf genv ev"
    and limit: "int (max_body_bytes cfg) \<le> max_wal_record_bytes st"
  shows "wal_records_from f (encode_records ps) 0 (max_wal_record_bytes st) = (layout 0 ps, None)"
    and "list_all (parses ev f) (layout 0 ps)"
proof -
  have "list_all (good_payload (max_wal_record_bytes st)) ps"
    using ps limit by (auto simp: list_all_iff deliverable_def good_payload_def)
  from wal_loop_encoded [OF this, of "[]" f 0]
  show "wal_records_from f (encode_records ps) 0 (max_wal_record_bytes st) = (layout 0 ps, None)"
    by (simp add: wal_records_from_def stop_at_def)
  show "list_all (parses ev f) (layout 0 ps)"
    using layout_rows [OF ps same] by (simp add: list_all_iff)
qed

lemma length_log_rows:
  assumes ps: "list_all (deliverable cfg genv) ps" and same: "same_protobuf genv ev"
    and limit: "int (max_body_bytes cfg) \<le> max_wal_record_bytes st"
  shows "length (rows_after st ev f (encode_records ps) 0) = (\<Sum>p \<leftarrow> ps. spans_of genv p)"
proof -
  have "good_records st ev f (encode_records ps) 0 = layout 0 ps"
    using deliverable_clean [OF assms] by (simp add: good_records_def takeWhile_eq_all_conv list_all_iff)
  then have "length (rows_after st ev f (encode_records ps) 0) = (\<Sum>r \<leftarrow> layout 0 ps. length (record_rows ev f r))"
    by (simp add: rows_after_def length_concat comp_def)
  also have "\<dots> = (\<Sum>r \<leftarrow> layout 0 ps. spans_of genv (rec_payload r))"
    using layout_rows [OF ps same] by (intro arg_cong [of _ _ sum_list] map_cong) simp_all
  also have "\<dots> = (\<Sum>p \<leftarrow> map rec_payload (layout 0 ps). spans_of genv p)"
    by (simp only: map_map comp_def)
  finally show ?thesis by simp
qed

text \<open>As long as no run failed, nothing was reported as corrupt.\<close>

lemma log_clean:
  assumes "log_of cfg genv (sys_log s) ps" "same_protobuf genv ev" "int (max_body_bytes cfg) \<le> max_wal_record_bytes st"
  shows "clean_from st ev f (log_bytes (sys_log s) f) 0"
  using deliverable_clean [OF _ assms(2,3), of "ps f" f] assms(1) by (simp add: clean_from_def log_of_def)

lemma backend_events:
  assumes step: "backend_step st ev s s'" and inv: "sys_inv st ev s" and names: "unique_names ev"
    and clean: "\<And>f. clean_from st ev f (log_bytes (sys_log s) f) 0" and ok: "\<not> sys_failed s'"
  shows "wal_corruption_events (control (sys_world s')) = wal_corruption_events (control (sys_world s)) \<and> \<not> sys_failed s"
proof -
  let ?w = "sys_world s"
  from inv obtain lost where acc: "accounted st ev (sys_log s) lost ?w" and store: "store_inv ev ?w"
    and idle: "lock_idle a (lifecycle_lock ?w)" for a by (auto simp: sys_inv_def Let_def accounted_def)
  have offsets: "clean_from st ev f (segment_bytes ?w f) (offset_of (control ?w) f)"
    if "f \<in> set (sorted_wal_files (keys (wal_dir ?w)))" for f
  proof -
    have "segment_bytes ?w f = log_bytes (sys_log s) f"
      using that acc covers_bytes [of "sys_log s" ?w f] by (simp add: accounted_def del: set_map)
    with clean_from_boundary [OF clean] acc show ?thesis by (simp add: accounted_def)
  qed
  show ?thesis
    using step
  proof cases
    case (step_materialize a n w')
    from materialize_events [OF idle _ this(2)] offsets ok step_materialize(1) show ?thesis by simp
  next
    case (step_compact faults a m r w')
    from compact_io_idle [OF store names idle this(2,3)] ok step_compact(1) show ?thesis by simp
  next
    case (step_killed_compact w m rows w' k partial)
    from compaction_prefix [OF store names step_killed_compact(3,4) [unfolded step_killed_compact(2)]] ok
    show ?thesis by (simp add: step_killed_compact(1))
  next
    case (step_orphans err n w')
    from cleanup_orphaned_same [OF this(2)] ok show ?thesis by (simp add: step_orphans(1))
  next
    case (step_cleanup a r' w')
    from cleanup_events [OF this(2)] ok show ?thesis by (simp add: step_cleanup(1))
  next
    case (step_killed_cleanup w k ds w')
    from delete_segments_result [OF this(3)] ok show ?thesis by (auto simp: step_killed_cleanup(1,2))
  qed (use ok in \<open>simp_all add: unlinks_same\<close>)
qed

lemma no_false_alarms:
  assumes "dp_reachable args cfg genv st ev d" and names: "unique_names ev" and size: "0 < materialize_batch_size st"
    and same: "same_protobuf genv ev" and limit: "int (max_body_bytes cfg) \<le> max_wal_record_bytes st"
    and ok: "\<not> sys_failed (dp_system d)"
  shows "wal_corruption_events (control (sys_world (dp_system d))) = []"
  using assms(1) ok
proof (induction rule: dp_reachable.induct)
  case (dp_start os gw dir)
  show ?case by (simp add: adopt_def system_start_def fresh_world_def empty_store_def)
next
  case (dp_more d d')
  have inv: "dp_inv cfg genv st ev d" by (rule dp_reachable_inv [OF dp_more.hyps(1) names size])
  then obtain ps where ps: "log_of cfg genv (sys_log (dp_system d)) ps"
    and sys: "sys_inv st ev (dp_system d)" using sys_reachable_inv [OF _ names size] by (auto simp: dp_inv_def)
  from dp_more.hyps(2) show ?case
  proof cases
    case (dp_request os rq response gw dir)
    then show ?thesis using dp_more.IH dp_more.prems by (simp add: adopt_def)
  next
    case (dp_restart os gw dir)
    then show ?thesis using dp_more.IH dp_more.prems by (simp add: adopt_def)
  next
    case (dp_backend s)
    from backend_events [OF this(2) sys names log_clean [OF ps same limit]] dp_more.prems dp_more.IH
    show ?thesis by (simp add: dp_backend(1))
  qed
qed

lemma size_sum_multisets: "finite A \<Longrightarrow> size (\<Sum>x \<in> A. f x) = (\<Sum>x \<in> A. size (f x :: 'a multiset))"
  by (induction rule: finite_induct) auto

lemma size_all_rows:
  assumes "log_of cfg genv written ps" "same_protobuf genv ev" "int (max_body_bytes cfg) \<le> max_wal_record_bytes st"
  shows "size (all_rows st ev written) = log_spans genv written ps"
proof -
  have "size (all_rows st ev written) = (\<Sum>f \<in> set (keys written). length (rows_after st ev f (log_bytes written f) 0))"
    by (simp add: all_rows_def size_sum_multisets)
  also have "\<dots> = log_spans genv written ps"
    unfolding log_spans_def using assms length_log_rows [OF _ assms(2,3)]
    by (intro sum.cong) (simp_all add: log_of_def)
  finally show ?thesis .
qed

text \<open>
  C3: What the gateway accepted is what the API shows.  In any state of gateway and backend that
  requests, restarts of the gateway and steps of the backend lead to in any order, if no run failed and the rows fit,
  nothing was ever reported as corrupt and a materialisation returns; and the administrator's
  overview then counts as many spans as the statistics of the gateway's processes have accepted
  (both counted modulo 2 to the 64).
\<close>

theorem accepted_spans_are_shown:
  assumes reach: "dp_reachable args cfg genv st ev d"
    and config: "int (max_body_bytes cfg) \<le> max_wal_record_bytes st" "0 < materialize_batch_size st" "\<not> auto_cleanup_wal st"
    and libraries: "same_protobuf genv ev" "unique_names ev" "sql_engine (duck api)" "sqlite_error api = None"
      "query_error (duck api) = None"
    and good: "\<not> sys_failed (dp_system d)" "\<And>e. \<not> fatal st ev (sys_log (dp_system d)) e"
  shows "wal_corruption_events (control (sys_world (dp_system d))) = [] \<and>
   (\<exists>n w' ov. run_materializer st ev a (sys_world (dp_system d)) = (Inr n, w') \<and>
    analytics_overview api None admin w' = Inr ov \<and>
    word_of_nat (ov_total_spans ov) = dp_earlier d + accepted_spans (gw_stats (dp_gateway d)))"
proof -
  let ?s = "dp_system d"
  have inv: "dp_inv cfg genv st ev d" by (rule dp_reachable_inv [OF reach libraries(2) config(2)])
  then obtain ps where log: "log_of cfg genv (sys_log ?s) ps"
    and spans: "dp_earlier d + accepted_spans (gw_stats (dp_gateway d)) = word_of_nat (log_spans genv (sys_log ?s) ps)"
    and sys: "sys_reachable st ev ?s" by (auto simp: dp_inv_def)
  have calm: "wal_corruption_events (control (sys_world ?s)) = []"
    by (rule no_false_alarms [OF reach libraries(2) config(2) libraries(1) config(1) good(1)])
  then have "quarantined (control (sys_world ?s)) = {}" by (simp add: quarantined_def)
  with complete_run [OF sys libraries(2) config(2) good(1) config(3) good(2)]
  obtain n w' where run: "materialize st ev a (sys_world ?s) = (Inr n, w')" and vis: "visible w' = all_rows st ev (sys_log ?s)"
    by blast
  have "size (visible w') = log_spans genv (sys_log ?s) ps"
    using size_all_rows [OF log libraries(1) config(1)] by (simp add: vis)
  then have "length (visible_rows w') = log_spans genv (sys_log ?s) ps" by (simp add: visible_def)
  moreover have f: "tenant_filter admin None = Inr None" by (simp add: tenant_filter_def admin_def)
  moreover have "run_materializer st ev a (sys_world ?s) = (Inr n, w')" by (simp add: run_materializer_def or_500_def run)
  ultimately show ?thesis
    using spans calm by (simp add: query_endpoints(3) [OF libraries(3-5) f] overview_query_def Let_def)
qed

text \<open>A gateway that accepted an export, and its backend.\<close>

definition sample_deployment :: deployment where
  "sample_deployment =
    (let (r, gw, dir) = handle_request sample_gateway_config sample_gateway_env (calm 2) (sample_export [1])
           (sample_gateway, [(segment_name 1 0, [])])
     in \<lparr> dp_gateway = gw, dp_earlier = 0, dp_system = adopt dir (adopt [(segment_name 1 0, [])] system_start) \<rparr>)"

lemma sample_deployment_reachable:
  "dp_reachable sample_arguments sample_gateway_config sample_gateway_env st ev sample_deployment"
proof -
  let ?s = "adopt [(segment_name 1 0, [])] system_start"
  let ?d = "\<lparr> dp_gateway = sample_gateway, dp_earlier = 0, dp_system = ?s \<rparr>"
  obtain r gw dir where run: "handle_request sample_gateway_config sample_gateway_env (calm 2) (sample_export [1])
      (sample_gateway, [(segment_name 1 0, [])]) = (r, (gw, dir))" by (metis prod.collapse)
  have start: "dp_reachable sample_arguments sample_gateway_config sample_gateway_env st ev ?d"
    by (rule dp_start [OF sample_launch])
  have "dp_step sample_arguments sample_gateway_config sample_gateway_env st ev ?d \<lparr> dp_gateway = gw, dp_earlier = 0, dp_system = adopt dir ?s \<rparr>"
    using dp_request [of sample_gateway_config sample_gateway_env "calm 2" "sample_export [1]" ?d r gw dir sample_arguments st ev] run
    by (simp add: adopt_def calm_def whole_writes_def clock_advanced_def sample_export_def system_start_def
        fresh_world_def tbl_put_def wal_key_roundtrip)
  from dp_more [OF start this] show ?thesis by (simp only: sample_deployment_def run Let_def prod.case)
qed

theorem accepted_spans_are_shown_witness:
  "wal_corruption_events (control (sys_world (dp_system sample_deployment))) = [] \<and>
   (\<exists>n w' ov. run_materializer sample_settings one_span (0, 0) (sys_world (dp_system sample_deployment)) = (Inr n, w') \<and>
     analytics_overview sample_api None admin w' = Inr ov \<and>
     word_of_nat (ov_total_spans ov) =
       dp_earlier sample_deployment + accepted_spans (gw_stats (dp_gateway sample_deployment)))"
proof (rule accepted_spans_are_shown [OF sample_deployment_reachable _ _ _ _ one_span_unique sample_api_ok(1) _ sample_api_ok(2)])
  show "same_protobuf sample_gateway_env one_span"
    by (auto simp: same_protobuf_def sample_gateway_env_def one_span_def sample_env_def)
  show "int (max_body_bytes sample_gateway_config) \<le> max_wal_record_bytes sample_settings"
    "0 < materialize_batch_size sample_settings" "\<not> auto_cleanup_wal sample_settings" "sqlite_error sample_api = None"
    by (simp_all add: sample_gateway_config_def sample_settings_def sample_api_def)
  have one: "sys_log (dp_system sample_deployment) = [(segment_name 1 0, encode_record [1])]"
    by (simp add: sample_deployment_def adopt_def system_start_def tbl_put_def tbl_update_def sample_gateway_def
        sample_gateway_config_def sample_gateway_env_def sample_export_def calm_def handle_request_def
        ingestion_authenticated_def is_protobuf_content_type_def wal_append_def needs_segment_def write_all_def
        bindE_def Let_def)
  show "\<not> sys_failed (dp_system sample_deployment)"
    by (simp add: sample_deployment_def adopt_def system_start_def Let_def split: prod.split)
  have "length (log_bytes (sys_log (dp_system sample_deployment)) f) < 2 ^ 63" for f
    by (simp add: one log_bytes_def record_header_size_def)
  then show "\<not> fatal sample_settings one_span (sys_log (dp_system sample_deployment)) e" for e
    by (rule one_span_not_fatal)
qed

end
