(* ===== verification/Lifespan.thy ===== *)
theory Lifespan
  imports System Access
begin

text \<open>
  The application over time: \<open>lifespan\<close> of backend/app/main.py from its start over the background
  worker and the requests to the shutdown, as a state machine, and its refinement of the storage
  engine (System).  A run of the worker is a thread of its own (\<open>asyncio.to_thread\<close>), so requests
  are served while it lasts; what it writes it writes under the lifecycle lock, as one step here.
\<close>

section \<open>The state machine\<close>

datatype app_phase = Serving | Stopping | Stopped

text \<open>
  \<open>_materialize_loop\<close> at its test of the stop event, in \<open>to_thread(materialize)\<close>, in
  \<open>wait_for(stop_event.wait())\<close>, and after its end; \<open>No_Worker\<close> when the interval is not positive.
\<close>

datatype worker = No_Worker | Testing | Running | Waiting | Finished

record app =
  ap_phase :: app_phase
  stop_event :: bool
  app_worker :: worker
  iteration :: nat
  app_world :: world

definition app_start :: "settings \<Rightarrow> env \<Rightarrow> exn option \<Rightarrow> exn option \<Rightarrow> schema \<times> world \<Rightarrow> exn + app" where
  "app_start st ev mkdir_error connect_error s =
    (case lifespan_start ev mkdir_error connect_error s of
       (Inl e, _) \<Rightarrow> Inl e
     | (Inr _, (db, w)) \<Rightarrow> Inr
        \<lparr> ap_phase = Serving, stop_event = False,
          app_worker = (if float_positive (materialize_interval_seconds st) then Testing else No_Worker),
          iteration = 0, app_world = w \<rparr>)"

datatype app_event =
    Loop_Test
  | Run_Ends agent
  | Wait_Ends
  | Wait_Times_Out
  | Request agent "string option" "string option" request
  | Shutdown
  | Worker_Awaited

text \<open>
  What an event does, or \<open>None\<close> where it cannot happen.  An exception of a run is logged and the
  worker waits as after any other; \<open>finally\<close> sets the stop event and awaits the task.
\<close>

fun app_next :: "settings \<Rightarrow> env \<Rightarrow> api_env \<Rightarrow> app_event \<Rightarrow> app \<Rightarrow> app option" where
  "app_next st ev api Loop_Test p =
     (if app_worker p = Testing
      then Some (if stop_event p then p\<lparr>app_worker := Finished\<rparr>
                 else p\<lparr>app_worker := Running, iteration := iteration p + 1\<rparr>)
      else None)"
| "app_next st ev api (Run_Ends a) p =
     (if app_worker p = Running
      then Some (p\<lparr>app_worker := Waiting, app_world := snd (materialize st ev a (app_world p))\<rparr>)
      else None)"
| "app_next st ev api Wait_Ends p =
     (if app_worker p = Waiting \<and> stop_event p then Some (p\<lparr>app_worker := Testing\<rparr>) else None)"
| "app_next st ev api Wait_Times_Out p =
     (if app_worker p = Waiting then Some (p\<lparr>app_worker := Testing\<rparr>) else None)"
| "app_next st ev api (Request a x_api_key authorization request) p =
     (if ap_phase p = Serving
      then Some (p\<lparr>app_world := snd (serve st ev api a x_api_key authorization request (app_world p))\<rparr>)
      else None)"
| "app_next st ev api Shutdown p =
     (if ap_phase p = Serving then Some (p\<lparr>ap_phase := Stopping, stop_event := True\<rparr>) else None)"
| "app_next st ev api Worker_Awaited p =
     (if ap_phase p = Stopping \<and> (app_worker p = No_Worker \<or> app_worker p = Finished)
      then Some (p\<lparr>ap_phase := Stopped\<rparr>) else None)"

fun app_run :: "settings \<Rightarrow> env \<Rightarrow> api_env \<Rightarrow> app_event list \<Rightarrow> app \<Rightarrow> app option" where
  "app_run st ev api [] p = Some p"
| "app_run st ev api (e # es) p =
     (case app_next st ev api e p of None \<Rightarrow> None | Some p' \<Rightarrow> app_run st ev api es p')"

section \<open>The shutdown\<close>

text \<open>How the phase, the stop event and the worker belong together.\<close>

definition app_ok :: "app \<Rightarrow> bool" where
  "app_ok p \<longleftrightarrow> (stop_event p \<longleftrightarrow> ap_phase p \<noteq> Serving) \<and>
     (ap_phase p = Stopped \<longrightarrow> app_worker p = No_Worker \<or> app_worker p = Finished)"

lemma app_start_ok: "app_start st ev me ce s = Inr p \<Longrightarrow> app_ok p"
  by (auto simp: app_start_def app_ok_def split: prod.splits sum.splits)

lemma app_next_ok: "app_next st ev api e p = Some p' \<Longrightarrow> app_ok p \<Longrightarrow> app_ok p'"
  by (cases e) (auto simp: app_ok_def split: if_splits)

lemma app_run_ok: "app_run st ev api es p = Some p' \<Longrightarrow> app_ok p \<Longrightarrow> app_ok p'"
  by (induction es arbitrary: p) (auto split: option.splits dest: app_next_ok)

text \<open>The steps that a shutdown can still take.\<close>

fun steps_left :: "worker \<Rightarrow> nat" where
  "steps_left No_Worker = 1"
| "steps_left Finished = 1"
| "steps_left Testing = 2"
| "steps_left Waiting = 3"
| "steps_left Running = 4"

definition shutdown_steps :: "app \<Rightarrow> nat" where
  "shutdown_steps p = (if ap_phase p = Stopped then 0 else steps_left (app_worker p))"

text \<open>The world that the shutdown leaves: a run in progress goes on to its end, nothing else happens.\<close>

definition final_world :: "settings \<Rightarrow> env \<Rightarrow> app \<Rightarrow> world \<Rightarrow> bool" where
  "final_world st ev p w \<longleftrightarrow>
     (if app_worker p = Running then \<exists>a. w = snd (materialize st ev a (app_world p)) else w = app_world p)"

lemma stopping_step:
  assumes "app_next st ev api e p = Some p'" "app_ok p" "ap_phase p \<noteq> Serving"
  shows "shutdown_steps p = Suc (shutdown_steps p') \<and> ap_phase p' \<noteq> Serving \<and> iteration p' = iteration p \<and>
    (final_world st ev p' w \<longrightarrow> final_world st ev p w)"
  using assms by (cases e) (auto simp: app_ok_def shutdown_steps_def final_world_def simp del: split_paired_Ex split: if_splits)

lemma stopping_run:
  "app_run st ev api es p = Some p' \<Longrightarrow> app_ok p \<Longrightarrow> ap_phase p \<noteq> Serving \<Longrightarrow>
   shutdown_steps p = length es + shutdown_steps p' \<and> ap_phase p' \<noteq> Serving \<and> iteration p' = iteration p \<and>
   (final_world st ev p' w \<longrightarrow> final_world st ev p w)"
proof (induction es arbitrary: p)
  case (Cons e es)
  then obtain p1 where p1: "app_next st ev api e p = Some p1" "app_run st ev api es p1 = Some p'"
    by (auto split: option.splits)
  from stopping_step [OF p1(1) Cons.prems(2,3)] Cons.IH [OF p1(2) app_next_ok [OF p1(1) Cons.prems(2)]]
  show ?case by auto
qed simp

lemma shutdown_progress:
  assumes "app_ok p" "ap_phase p \<noteq> Serving"
  shows "ap_phase p = Stopped \<longleftrightarrow> (\<forall>e. app_next st ev api e p = None)"
proof (cases "ap_phase p")
  case Stopped
  then have "app_next st ev api e p = None" for e using assms by (cases e) (auto simp: app_ok_def)
  with Stopped show ?thesis by simp
next
  case Stopping
  have "\<exists>e. app_next st ev api e p \<noteq> None"
  proof (cases "app_worker p")
    case Testing
    then show ?thesis by (intro exI [of _ Loop_Test]) simp
  next
    case Running
    then show ?thesis by (intro exI [of _ "Run_Ends (0, 0)"]) simp
  next
    case Waiting
    then show ?thesis by (intro exI [of _ Wait_Times_Out]) simp
  qed (use Stopping in \<open>intro exI [of _ Worker_Awaited]; simp\<close>)+
  then show ?thesis using Stopping by auto
qed (use assms in simp)

text \<open>
  C16: A graceful shutdown.  Whatever the application did since its start, from the shutdown on at
  most four more steps follow, and they go on until it has stopped, when nothing more can happen.
  No materialisation begins after the stop event, and one that is in progress is not cut off: the
  storage is then as that run leaves it, and otherwise as it was.
\<close>

theorem graceful_shutdown:
  assumes start: "app_start st ev me ce s = Inr p0" and before: "app_run st ev api es p0 = Some p"
    and shut: "ap_phase p = Stopping" and after: "app_run st ev api es' p = Some p'"
  shows "length es' \<le> 4 \<and> iteration p' = iteration p \<and>
    (ap_phase p' = Stopped \<longleftrightarrow> (\<forall>e. app_next st ev api e p' = None)) \<and>
    (ap_phase p' = Stopped \<longrightarrow>
       (if app_worker p = Running then \<exists>a. app_world p' = snd (materialize st ev a (app_world p))
        else app_world p' = app_world p))"
proof -
  have ok: "app_ok p" by (rule app_run_ok [OF before app_start_ok [OF start]])
  have ok': "app_ok p'" by (rule app_run_ok [OF after ok])
  have run: "shutdown_steps p = length es' + shutdown_steps p' \<and> ap_phase p' \<noteq> Serving \<and> iteration p' = iteration p \<and>
      (final_world st ev p' w \<longrightarrow> final_world st ev p w)" for w
    using stopping_run [OF after ok] shut by simp
  have "shutdown_steps p \<le> 4" by (cases "app_worker p") (simp_all add: shutdown_steps_def)
  moreover have "final_world st ev p (app_world p')" if "ap_phase p' = Stopped"
    using run [of "app_world p'"] ok' that by (auto simp: final_world_def app_ok_def)
  moreover from run have "length es' \<le> shutdown_steps p" "iteration p' = iteration p" "ap_phase p' \<noteq> Serving"
    by simp_all
  ultimately show ?thesis
    using shutdown_progress [OF ok', of st ev api] unfolding final_world_def by (simp del: split_paired_Ex)
qed

text \<open>The application is stopped while its first run is in progress.\<close>

definition idle_app :: app where
  "idle_app = \<lparr> ap_phase = Serving, stop_event = False, app_worker = Testing, iteration = 0,
     app_world = snd (cleanup_orphaned_parquet_files one_span (manifest_error one_span) (fresh_world sample_segments)) \<rparr>"

lemma sample_interval: "float_positive (materialize_interval_seconds (sample_settings\<lparr>materialize_interval_seconds := 1\<rparr>))"
  by simp (code_simp)

lemma sample_app_start:
  "app_start (sample_settings\<lparr>materialize_interval_seconds := 1\<rparr>) one_span None None (db, fresh_world sample_segments) =
     Inr idle_app"
  using sample_interval
  by (simp add: app_start_def lifespan_start_def idle_app_def initialize_control_store_def updE_def
      split: prod.split sum.split)

theorem graceful_shutdown_witness:
  "\<exists>p p'. app_run (sample_settings\<lparr>materialize_interval_seconds := 1\<rparr>) one_span sample_api [Loop_Test, Shutdown] idle_app = Some p \<and>
     app_run (sample_settings\<lparr>materialize_interval_seconds := 1\<rparr>) one_span sample_api
       [Run_Ends (0, 0), Wait_Ends, Loop_Test, Worker_Awaited] p = Some p' \<and>
     (\<exists>a. app_world p' = snd (materialize (sample_settings\<lparr>materialize_interval_seconds := 1\<rparr>) one_span a (app_world p)))"
proof -
  let ?st = "sample_settings\<lparr>materialize_interval_seconds := 1\<rparr>"
  obtain p where p: "app_run ?st one_span sample_api [Loop_Test, Shutdown] idle_app = Some p"
    "ap_phase p = Stopping" "stop_event p" "app_worker p = Running" by (simp add: idle_app_def)
  then obtain p' where p': "app_run ?st one_span sample_api [Run_Ends (0, 0), Wait_Ends, Loop_Test, Worker_Awaited] p = Some p'"
    "ap_phase p' = Stopped" by simp
  from graceful_shutdown [OF sample_app_start p(1,2) p'(1)] p(4) p'(2)
  have "\<exists>a. app_world p' = snd (materialize ?st one_span a (app_world p))" by (simp del: split_paired_Ex)
  with p(1) p'(1) show ?thesis by blast
qed

text \<open>Left alone the worker does what the loop of \<open>Api\<close> says, one run for each turn.\<close>

lemma worker_turns:
  assumes "app_worker p = Testing" "\<not> stop_event p"
  shows "\<exists>p'. app_run st ev api (concat (replicate n [Loop_Test, Run_Ends a, Wait_Times_Out])) p = Some p' \<and>
    app_world p' = materialize_loop st ev a n (app_world p) \<and> iteration p' = iteration p + n"
  using assms
proof (induction n arbitrary: p)
  case (Suc n)
  let ?p1 = "p\<lparr>iteration := iteration p + 1, app_world := snd (materialize st ev a (app_world p)), app_worker := Testing\<rparr>"
  have "app_run st ev api (concat (replicate (Suc n) [Loop_Test, Run_Ends a, Wait_Times_Out])) p =
      app_run st ev api (concat (replicate n [Loop_Test, Run_Ends a, Wait_Times_Out])) ?p1"
    using Suc.prems by simp
  moreover have "app_worker ?p1 = Testing" "\<not> stop_event ?p1" using Suc.prems by simp_all
  note Suc.IH [OF this]
  ultimately show ?case by simp
qed simp

section \<open>The application over the storage engine\<close>

text \<open>What a request does to the storage.\<close>

lemma serve_effect:
  assumes "serve st ev api a x h request w = (answer, w')"
  obtains (none) "w' = w" | (materialize) r where "materialize st ev a w = (r, w')"
    | (compact) r where "compact_parquet_files ev a 20 w = (r, w')"
    | (cleanup) r where "cleanup_materialized_wal_files ev a w = (r, w')"
    | (projects) ps where "w' = w\<lparr>control := (control w)\<lparr>projects := ps\<rparr>\<rparr>"
proof (cases "request = Get_Health \<or> (\<exists>e. get_auth_identity st api x h w = Inl e) \<or> \<not> valid_request request")
  case True
  then have "w' = w" using assms by (auto simp: serve_def split: sum.splits if_splits)
  then show thesis by (rule none)
next
  case False
  then obtain auth where run: "handle st ev api a request auth w = (answer, w')"
    using assms by (auto simp: serve_def split: sum.splits if_splits)
  show thesis
  proof (cases request)
    case Post_Materialize
    then have "materialize st ev a w = (fst (materialize st ev a w), w')"
      using run by (auto simp: run_materializer_def or_500_def apfst_def map_prod_def split: prod.splits)
    then show thesis by (rule materialize)
  next
    case Post_Compact
    then have "w' = w \<or> compact_parquet_files ev a 20 w = (fst (compact_parquet_files ev a 20 w), w')"
      using run by (auto simp: run_compaction_def or_500_def apfst_def map_prod_def split: prod.splits sum.splits)
    then show thesis using none compact by blast
  next
    case Post_Wal_Cleanup
    then have "w' = w \<or> cleanup_materialized_wal_files ev a w = (fst (cleanup_materialized_wal_files ev a w), w')"
      using run by (auto simp: run_wal_cleanup_def or_500_def apfst_def map_prod_def split: prod.splits sum.splits)
    then show thesis using none cleanup by blast
  next
    case (Post_Projects project token)
    then have "w' = w \<or> (\<exists>ps. w' = w\<lparr>control := (control w)\<lparr>projects := ps\<rparr>\<rparr>)"
      using run by (auto simp: create_project_def control_db_def apfst_def map_prod_def Let_def
          split: prod.splits sum.splits option.splits exn.splits)
    then show thesis using none projects by blast
  qed (use run none in simp_all)
qed

text \<open>
  A run fails only for what is fatal.  While nothing is, and no segment was quarantined before all
  that is readable became visible, the first run shows everything, and later events keep it.
\<close>

definition ready :: "settings \<Rightarrow> env \<Rightarrow> system \<Rightarrow> bool" where
  "ready st ev s \<longleftrightarrow> \<not> sys_failed s \<and> \<not> auto_cleanup_wal st \<and> (\<forall>e. \<not> fatal st ev (sys_log s) e) \<and>
     (quarantined (control (sys_world s)) = {} \<or> visible (sys_world s) = all_rows st ev (sys_log s))"

lemma engine_run:
  assumes reach: "sys_reachable st ev s" and names: "unique_names ev" and size: "0 < materialize_batch_size st"
    and run: "materialize st ev a (sys_world s) = (r, w')"
  shows "\<exists>s'. backend_step st ev s s' \<and> sys_world s' = w' \<and> sys_log s' = sys_log s \<and>
    (ready st ev s \<longrightarrow> ready st ev s' \<and> visible w' = all_rows st ev (sys_log s))"
proof (cases r)
  case (Inr n)
  let ?s' = "s\<lparr>sys_world := w'\<rparr>"
  have step: "backend_step st ev s ?s'" using run Inr by (intro step_materialize) simp
  have reach': "sys_reachable st ev ?s'" by (rule sys_more [OF reach step_backend [OF step]])
  have all: "visible w' = all_rows st ev (sys_log s)" if ready: "ready st ev s"
  proof -
    have good: "\<not> sys_failed s" "\<not> auto_cleanup_wal st" "\<And>e. \<not> fatal st ev (sys_log s) e"
      using ready by (simp_all add: ready_def)
    from complete_run [OF reach names size good, of a] run
    have new: "visible w' = rows_at st ev (sys_log s) (offset_of (control w'))"
      "quarantined (control (sys_world s)) = {} \<longrightarrow> visible w' = all_rows st ev (sys_log s)" by auto
    from sys_reachable_inv [OF reach names size] good(1) have acc: "accounted st ev (sys_log s) {#} (sys_world s)"
      and quiet: "quiet_run st ev a (sys_world s)"
      using names size good(2) by (auto simp: sys_inv_def Let_def quiet_run_def)
    from quiet_materialize [OF acc quiet run] have
      "rows_at st ev (sys_log s) (offset_of (control (sys_world s))) \<subseteq># rows_at st ev (sys_log s) (offset_of (control w'))"
      by (intro rows_at_mono) blast
    then have "visible (sys_world s) \<subseteq># visible w'" using acc new(1) by (simp add: accounted_def)
    moreover have "visible w' \<subseteq># all_rows st ev (sys_log s)" using system_bound [OF reach' names size] by simp
    ultimately show ?thesis using ready new(2) by (auto simp: ready_def)
  qed
  then have "ready st ev s \<longrightarrow> ready st ev ?s'" by (simp add: ready_def)
  with step all show ?thesis by (intro exI [of _ ?s']) simp
next
  case (Inl e)
  with run have "backend_step st ev s (s\<lparr>sys_world := w', sys_failed := True\<rparr>)" by (intro step_raise) simp
  moreover have "\<not> ready st ev s"
    using complete_run [OF reach names size, of a] run Inl by (auto simp: ready_def)
  ultimately show ?thesis by (intro exI [of _ "s\<lparr>sys_world := w', sys_failed := True\<rparr>"]) simp
qed

lemma app_event_engine:
  assumes reach: "sys_reachable st ev s" and names: "unique_names ev" and size: "0 < materialize_batch_size st"
    and world: "sys_world s = app_world p" and run: "app_next st ev api e p = Some p'"
  shows "\<exists>s'. (s' = s \<or> backend_step st ev s s') \<and> sys_world s' = app_world p' \<and> sys_log s' = sys_log s \<and>
    (ready st ev s \<longrightarrow> ready st ev s' \<and>
      ((\<exists>a. e = Run_Ends a) \<or> visible (sys_world s) = all_rows st ev (sys_log s) \<longrightarrow>
         visible (app_world p') = all_rows st ev (sys_log s)))"
proof -
  have same: ?thesis if "app_world p' = app_world p" "\<And>a. e \<noteq> Run_Ends a"
    using that world by (intro exI [of _ s]) (simp del: split_paired_Ex)
  from sys_reachable_inv [OF reach names size] obtain lost where acc: "accounted st ev (sys_log s) lost (sys_world s)"
    and dist: "distinct (keys (wal_dir (sys_world s)))" and store: "store_inv ev (sys_world s)"
    and idle: "lock_idle a (lifecycle_lock (sys_world s))" for a
    by (auto simp: sys_inv_def Let_def accounted_def)
  have keep: ?thesis if "backend_step st ev s (s\<lparr>sys_world := app_world p'\<rparr>)" "visible (app_world p') = visible (sys_world s)"
    "wal_corruption_events (control (app_world p')) = wal_corruption_events (control (sys_world s))" "\<And>a. e \<noteq> Run_Ends a"
    using that by (intro exI [of _ "s\<lparr>sys_world := app_world p'\<rparr>"]) (simp add: ready_def quarantined_def del: split_paired_Ex)
  show ?thesis
  proof (cases e)
    case (Run_Ends a)
    then have "materialize st ev a (sys_world s) = (fst (materialize st ev a (app_world p)), app_world p')"
      using run world by (auto split: if_splits)
    from engine_run [OF reach names size this] show ?thesis by blast
  next
    case (Request a x h request)
    obtain answer w' where served: "serve st ev api a x h request (sys_world s) = (answer, w')" by fastforce
    then have w': "app_world p' = w'" using run Request world by (auto split: if_splits)
    from served show ?thesis
    proof (cases rule: serve_effect)
      case none
      then show ?thesis using w' world same Request by simp
    next
      case (materialize r)
      from engine_run [OF reach names size this] show ?thesis unfolding w' by blast
    next
      case (compact r)
      then show ?thesis unfolding w' [symmetric]
        by (intro keep step_compact_plain) (use compact_idle [OF store names idle compact] w' Request in simp_all)
    next
      case (cleanup r)
      then show ?thesis unfolding w' [symmetric]
        by (intro keep step_cleanup)
          (use wal_cleanup_idle [OF idle acc dist cleanup] cleanup_events [OF cleanup] w' Request in simp_all)
    next
      case (projects ps)
      have "store_inv ev w' \<and> visible w' = visible (sys_world s)"
        using store store_inv_distinct(1) [OF store] by (intro conserve_cong) (simp_all add: projects)
      moreover have "backend_step st ev s (s\<lparr>sys_world := w'\<rparr>)" unfolding projects by (rule step_projects [OF refl])
      ultimately show ?thesis by (intro keep) (simp_all add: w' Request, simp add: projects)
    qed
  qed (use run same in \<open>auto split: if_splits\<close>)
qed

lemma app_run_engine:
  assumes "sys_reachable st ev s" and "unique_names ev" and "0 < materialize_batch_size st"
    and "app_world p = sys_world s" and "app_run st ev api es p = Some p'"
  shows "\<exists>s'. sys_reachable st ev s' \<and> sys_world s' = app_world p' \<and> sys_log s' = sys_log s \<and>
    (ready st ev s \<longrightarrow> ready st ev s' \<and>
      ((\<exists>a. Run_Ends a \<in> set es) \<or> visible (sys_world s) = all_rows st ev (sys_log s) \<longrightarrow>
         visible (app_world p') = all_rows st ev (sys_log s)))"
  using assms
proof (induction es arbitrary: s p)
  case Nil
  then show ?case by (intro exI [of _ s]) simp
next
  case (Cons e es)
  note names = Cons.prems(2) and size = Cons.prems(3)
  from Cons.prems(5) obtain p1 where p1: "app_next st ev api e p = Some p1" "app_run st ev api es p1 = Some p'"
    by (auto split: option.splits)
  from app_event_engine [OF Cons.prems(1) names size Cons.prems(4) [symmetric] p1(1)] obtain s1 where
    s1: "s1 = s \<or> backend_step st ev s s1" "sys_world s1 = app_world p1" "sys_log s1 = sys_log s"
    and one: "ready st ev s \<longrightarrow> ready st ev s1 \<and> ((\<exists>a. e = Run_Ends a) \<or> visible (sys_world s) = all_rows st ev (sys_log s) \<longrightarrow>
       visible (app_world p1) = all_rows st ev (sys_log s))" by blast
  have "sys_reachable st ev s1" using s1(1) Cons.prems(1) sys_more [OF _ step_backend] by blast
  from Cons.IH [OF this names size s1(2) [symmetric] p1(2)] obtain s2 where
    s2: "sys_reachable st ev s2" "sys_world s2 = app_world p'" "sys_log s2 = sys_log s"
    and two: "ready st ev s1 \<longrightarrow> ready st ev s2 \<and> ((\<exists>a. Run_Ends a \<in> set es) \<or> visible (app_world p1) = all_rows st ev (sys_log s) \<longrightarrow>
       visible (app_world p') = all_rows st ev (sys_log s))" unfolding s1(2,3) by blast
  have "ready st ev s2 \<and> ((\<exists>a. Run_Ends a \<in> set (e # es)) \<or> visible (sys_world s) = all_rows st ev (sys_log s) \<longrightarrow>
      visible (app_world p') = all_rows st ev (sys_log s))" if "ready st ev s"
    using one two that by (simp del: split_paired_Ex) blast
  with s2 show ?case by blast
qed

text \<open>
  C4: The application refines the storage engine.  Any run of it, from a world of the engine on, with
  requests, runs of the worker and a shutdown in any order, ends in a world of the engine: it shows
  no row more often than it was written.  If nothing makes a run raise and no segment was
  quarantined before, then as soon as the worker has ended a run everything that was written and
  can be read is visible exactly once, and stays so.
\<close>

theorem application_refines_engine:
  assumes reach: "sys_reachable st ev s" and names: "unique_names ev" and size: "0 < materialize_batch_size st"
    and world: "app_world p = sys_world s" and run: "app_run st ev api es p = Some p'"
  shows "\<exists>s'. sys_reachable st ev s' \<and> sys_world s' = app_world p' \<and> sys_log s' = sys_log s \<and>
    visible (app_world p') \<subseteq># all_rows st ev (sys_log s) \<and>
    (\<not> sys_failed s \<and> \<not> auto_cleanup_wal st \<and> (\<forall>e. \<not> fatal st ev (sys_log s) e) \<and>
     quarantined (control (sys_world s)) = {} \<longrightarrow>
       \<not> sys_failed s' \<and>
       ((\<exists>a. Run_Ends a \<in> set es) \<longrightarrow> visible (app_world p') = all_rows st ev (sys_log s)))"
proof -
  from app_run_engine [OF assms] obtain s' where
    s': "sys_reachable st ev s'" "sys_world s' = app_world p'" "sys_log s' = sys_log s"
    and fine: "ready st ev s \<longrightarrow> ready st ev s' \<and> ((\<exists>a. Run_Ends a \<in> set es) \<or> visible (sys_world s) = all_rows st ev (sys_log s) \<longrightarrow>
       visible (app_world p') = all_rows st ev (sys_log s))" by blast
  have "visible (app_world p') \<subseteq># all_rows st ev (sys_log s)" using system_bound [OF s'(1) names size] s' by simp
  with s' fine show ?thesis
    by (intro exI [of _ s']) (auto simp: ready_def simp del: split_paired_Ex)
qed

text \<open>The worker's first run, a query in between and the beginning of the second.\<close>

definition sample_app :: app where
  "sample_app = \<lparr> ap_phase = Serving, stop_event = False, app_worker = Testing, iteration = 0,
     app_world = sys_world sample_state \<rparr>"

theorem application_refines_engine_witness:
  "\<exists>p'. app_run sample_settings one_span sample_api
       [Loop_Test, Run_Ends (0, 0), Request (1, 0) None None (Get_Overview None), Wait_Times_Out, Loop_Test] sample_app = Some p' \<and>
     visible (app_world p') = all_rows sample_settings one_span (sys_log sample_state)"
proof -
  let ?es = "[Loop_Test, Run_Ends (0, 0), Request (1, 0) None None (Get_Overview None), Wait_Times_Out, Loop_Test]"
  obtain p' where run: "app_run sample_settings one_span sample_api ?es sample_app = Some p'"
    by (simp add: sample_app_def)
  have s: "\<not> sys_failed sample_state" "0 < materialize_batch_size sample_settings" "\<not> auto_cleanup_wal sample_settings"
    "app_world sample_app = sys_world sample_state"
    by (simp_all add: sample_state_def put_segment_def system_start_def sample_settings_def sample_app_def)
  have "length (log_bytes (sys_log sample_state) f) < 2 ^ 63" for f
    by (simp add: sample_log log_bytes_def record_header_size_def)
  then have "\<forall>e. \<not> fatal sample_settings one_span (sys_log sample_state) e" using one_span_not_fatal by blast
  moreover have "quarantined (control (sys_world sample_state)) = {}"
    by (simp add: sample_state_def put_segment_def system_start_def fresh_world_def empty_store_def quarantined_def)
  moreover have "\<exists>a. Run_Ends a \<in> set ?es" by simp
  ultimately show ?thesis
    using application_refines_engine [OF sample_reachable one_span_unique s(2,4) run] s(1,3) run by blast
qed

end
