(* ===== verification/Status.thy ===== *)
theory Status
  imports Clean_Log Access
begin

text \<open>
  What GET /api/v1/system/status says: the health of the log after a materialisation, and the
  counts of segments and files.
\<close>

section \<open>Files and segments\<close>

lemma length_committed:
  assumes "store_inv ev w"
  shows "length (get_committed_parquet_files (Inr (control w)) (parquet_dir w)) = card (committed_in (control w))"
proof -
  let ?L = "get_committed_parquet_files (Inr (control w)) (parquet_dir w)"
  have dist: "distinct (keys (parquet_files (control w)))" using assms by (simp add: store_inv_def)
  have "\<forall>f \<in> committed_in (control w). tbl_has (parquet_dir w) f"
    using assms by (fastforce simp: store_inv_def committed_in_def tbl_has_map_of)
  then have "set ?L = committed_in (control w)" "distinct ?L"
    using dist by (auto simp: get_committed_parquet_files_def distinct_committed_filenames set_committed)
  then show ?thesis by (metis distinct_card)
qed

lemma length_wal_segments: "length (filter (\<lambda>(f, _). ends_with ''.wal'' f) t) = length (sorted_wal_files (keys t))"
  by (simp add: sorted_wal_files_def filter_map comp_def case_prod_unfold)

section \<open>The health of the log\<close>

text \<open>A run that returns leaves an event for every segment it found damaged.\<close>

lemma damage_is_recorded:
  assumes acc: "accounted st ev written lost w" and quiet: "quiet_run st ev a w" and run: "materialize st ev a w = (Inr n, w')"
  shows "wal_corruption_events (control w') = [] \<longleftrightarrow> wal_corruption_events (control w) = [] \<and>
    (\<forall>f \<in> set (sorted_wal_files (keys (wal_dir w))). clean_from st ev f (segment_bytes w f) (offset_of (control w) f))"
    (is "?none \<longleftrightarrow> ?old \<and> ?clean")
proof
  assume "?old \<and> ?clean"
  moreover have "lock_idle a (lifecycle_lock w)" using quiet by (simp add: quiet_run_def)
  ultimately show ?none using materialize_events [OF _ _ run] by simp
next
  assume none: ?none
  from quiet_materialize [OF acc quiet run] have more: "quarantined (control w) \<subseteq> quarantined (control w')"
    and set: "\<forall>f \<in> set (sorted_wal_files (keys (wal_dir w))). f \<in> quarantined (control w) \<or> settled st ev written w w' f"
    by (auto simp: untouched_def)
  have q: "quarantined (control w) = {}" using more none by (auto simp: quarantined_def)
  then have ?old by (simp add: quarantined_def)
  moreover have "clean_from st ev f (segment_bytes w f) (offset_of (control w) f)"
    if f: "f \<in> set (sorted_wal_files (keys (wal_dir w)))" for f
  proof -
    obtain rs stop where recs: "wal_records_from f (segment_bytes w f) (offset_of (control w) f) (max_wal_record_bytes st) = (rs, stop)"
      by fastforce
    have "reported st ev f (segment_bytes w f) (offset_of (control w) f) (control w')"
      using set f q by (auto simp: settled_def)
    then have "stop = None" "list_all (parses ev f) rs" using recs none by (auto simp: reported_def)
    with recs show ?thesis by (simp add: clean_from_def)
  qed
  ultimately show "?old \<and> ?clean" by blast
qed

text \<open>
  C22: The status endpoint tells the truth about the log.  After a materialisation that returns, it
  answers healthy exactly if nothing had been reported before and every segment, from its offset
  on, consists of whole records with matching checksums that parse; else degraded.  It counts the
  segments and the committed files, all of which exist, and shows of the events the last ten.
\<close>

theorem status_reports_damage:
  assumes acc: "accounted st ev written lost w" and quiet: "quiet_run st ev a w"
    and run: "run_materializer st ev a w = (Inr n, w')" and ok: "sqlite_error api = None"
  shows "\<exists>report. system_status api w' = Inr report \<and>
    (rp_status report = ''healthy'' \<longleftrightarrow> wal_corruption_events (control w) = [] \<and>
       (\<forall>f \<in> set (sorted_wal_files (keys (wal_dir w))). clean_from st ev f (segment_bytes w f) (offset_of (control w) f))) \<and>
    (rp_status report \<noteq> ''healthy'' \<longrightarrow> rp_status report = ''degraded'' \<and> rp_recent_corruptions report \<noteq> []) \<and>
    rp_segment_count report = length (sorted_wal_files (keys (wal_dir w))) \<and>
    rp_file_count report = card (committed_in (control w')) \<and>
    rp_total_corruption_events report = length (wal_corruption_events (control w')) \<and>
    length (rp_recent_corruptions report) = min 10 (rp_total_corruption_events report) \<and>
    set (rp_recent_corruptions report) \<subseteq> set (wal_corruption_events (control w'))"
proof -
  have run': "materialize st ev a w = (Inr n, w')"
    using run by (auto simp: run_materializer_def or_500_def split: sum.splits prod.splits)
  from quiet_materialize [OF acc quiet run'] have dir: "wal_dir w' = wal_dir w" and store: "store_inv ev w'"
    by (auto simp: accounted_def)
  obtain report where report: "system_status api w' = Inr report"
    using ok by (simp add: system_status_def control_db_def Let_def)
  let ?events = "wal_corruption_events (control w')"
  have fields: "rp_status report = (if ?events = [] then ''healthy'' else ''degraded'')"
    "rp_segment_count report = length (sorted_wal_files (keys (wal_dir w)))"
    "rp_file_count report = card (committed_in (control w'))"
    "rp_total_corruption_events report = length ?events" "rp_recent_corruptions report = take 10 (rev ?events)"
    using report ok length_committed [OF store] length_wal_segments [of "wal_dir w'"] dir
    by (auto simp: system_status_def control_db_def Let_def)
  have "(rp_status report = ''healthy'') = (?events = [])" using fields(1) by simp
  moreover have "set (take 10 (rev ?events)) \<subseteq> set ?events" using set_take_subset [of 10 "rev ?events"] by simp
  ultimately show ?thesis
    using report fields damage_is_recorded [OF acc quiet run'] by (intro exI [of _ report]) (simp add: min.commute)
qed

text \<open>A segment that ends in half a record.\<close>

theorem status_reports_damage_witness:
  "\<exists>n w' report. run_materializer sample_settings one_span (0, 0) (fresh_world torn_segments) = (Inr n, w') \<and>
     system_status sample_api w' = Inr report \<and> rp_status report = ''degraded''"
proof -
  let ?w = "fresh_world torn_segments"
  have acc: "accounted sample_settings one_span torn_segments {#} ?w"
    by (rule fresh_accounted) (simp add: torn_segments_def)
  have quiet: "quiet_run sample_settings one_span (0, 0) ?w"
    unfolding quiet_run_def using one_span_unique fresh_lock_idle
    by (simp add: sample_settings_def) (simp add: fresh_world_def torn_segments_def)
  have "length (log_bytes torn_segments f) < 2 ^ 63" for f
    by (simp add: log_bytes_def torn_segments_def record_header_size_def)
  then have "\<not> fatal sample_settings one_span torn_segments e" for e by (rule one_span_not_fatal)
  from quiet_returns [OF acc quiet this] obtain n w' where
    run: "run_materializer sample_settings one_span (0, 0) ?w = (Inr n, w')"
    by (auto simp: run_materializer_def or_500_def)
  have "''wal-1-0.wal'' \<in> set (sorted_wal_files (keys (wal_dir ?w)))"
    by (simp add: fresh_world_def torn_segments_def ends_with_def)
  moreover have "\<not> clean_from sample_settings one_span ''wal-1-0.wal'' (segment_bytes ?w ''wal-1-0.wal'') (offset_of (control ?w) ''wal-1-0.wal'')"
    using torn_read by (simp add: clean_from_def torn_world sample_settings_def)
  moreover have "sqlite_error sample_api = None" by (simp add: sample_api_def)
  ultimately show ?thesis using status_reports_damage [OF acc quiet run] run by blast
qed

end
