(* ===== verification/Spec2Isabelle.thy ===== *)
theory Spec2Isabelle
  imports Wal_Format Wal_Names Otlp_Rows Control Storage_Lock Parquet_Store Settings Materialize
    Materialize_Spec Exactly_Once Retention Run_Points Clean_Log Live_Run Py_Number Queries Api Access
    System Gateway Gateway_Main End_To_End Io_Errors Compaction_Errors Lifespan Status
begin

text \<open>
  LLM Reliability Control Plane: the storage engine and the HTTP API of its backend.

  \<^bold>\<open>The program.\<close> A C++ gateway (cpp/gateway/) receives OTLP trace exports over HTTP and appends
  each body as a record (length, CRC-32, payload) to the newest segment of a write-ahead log;
  \<open>WalWriter\<close> opens a new segment when one is full. The Python backend (backend/app/) reads the
  segments, turns the spans into rows and commits them in batches as Parquet files
  (materializer.py). A SQLite database (control.py) is the manifest of it all: how far each
  segment was read, which Parquet files are committed, what was corrupt, which projects exist. The
  HTTP API (main.py) authenticates callers, starts materialisation, compaction and cleanup, and
  answers queries with DuckDB over the committed files. settings.py reads the configuration.

  \<^bold>\<open>The theories\<close>, in the order in which they build on each other, each with the code it models:

  \<^item> \<open>Prelude\<close>: Python's texts (\<open>strip\<close>, digits, hexadecimal), the state-and-exception functions
    \<open>eff\<close> with their laws, and tables (a dict or a SQL table with a key as an association list),
    with the locale \<open>keyed_store\<close> of what a lookup returns after a write.
  \<^item> \<open>Crc32\<close>, \<open>Wal_Format\<close>: \<open>crc32\<close> and the framing of \<open>WalWriter::append\<close> (wal_writer.cpp), and
    the reader \<open>_wal_records_from\<close> with every rejection (materializer.py).
  \<^item> \<open>Wal_Names\<close>: \<open>open_new_segment\<close>'s names, \<open>_parse_wal_key\<close>, the order of the segments.
  \<^item> \<open>Otlp_Rows\<close>: \<open>_hex\<close>, \<open>_attribute_value\<close>, \<open>_attributes\<close>, \<open>_events\<close>, \<open>_links\<close>, \<open>_rows\<close>, the JSON
    texts and \<open>SPAN_ARROW_SCHEMA\<close>.
  \<^item> \<open>Control\<close>: the tables, \<open>initialize_control_store\<close>, the keys of projects,
    \<open>verify_project_credential\<close>, \<open>get_committed_parquet_files\<close> (control.py).
  \<^item> \<open>Storage_Lock\<close>: \<open>storage_lifecycle_lock\<close>, as a function of one thread and as a step relation
    of all threads of all processes, with crashes.
  \<^item> \<open>Parquet_Store\<close>: \<open>_flush_batch\<close>, \<open>compact_parquet_files\<close>, \<open>cleanup_orphaned_parquet_files\<close>;
    flush and compaction also as lists of atomic steps on the directory and the manifest.
  \<^item> \<open>Settings\<close>: \<open>Settings.from_environment\<close>.
  \<^item> \<open>Materialize\<close>: \<open>materialize\<close> and \<open>cleanup_materialized_wal_files\<close>, statement by statement.
  \<^item> \<open>Materialize_Spec\<close>: the abstract specification (\<open>accounted\<close>: the visible rows, with those
    lost, are the rows of the records up to the offsets) and the invariant of a run.
  \<^item> \<open>Exactly_Once\<close>, \<open>Retention\<close>: the properties of a materialisation and of the cleanup.
  \<^item> \<open>Run_Points\<close>, \<open>Clean_Log\<close>: what a run has done when it is killed, at every record and within
    every flush; and that a run over undamaged segments reports no corruption.
  \<^item> \<open>Io_Errors\<close>: the materialisation when a directory cannot be made, a segment not be read, a
    Parquet file not be written or renamed, or a transaction of SQLite fails: \<open>materialize_io\<close>.
  \<^item> \<open>Compaction_Errors\<close>: the compaction when one of its operations fails, the close of the
    writer included, whose exception it swallows: \<open>compact_parquet_files_io\<close>.
  \<^item> \<open>Live_Run\<close>: a materialisation step by step, with the gateway writing in between.
  \<^item> \<open>Py_Number\<close>, \<open>Queries\<close>: the SQL of the four queries of main.py as functions of rows, and the
    Python, with its doubles, that finishes their results.
  \<^item> \<open>Api\<close>, \<open>Access\<close>, \<open>Status\<close>: \<open>create_app\<close> (authentication, endpoints, the start of \<open>lifespan\<close>), and
    its properties; \<open>Status\<close> has those of the status endpoint.
  \<^item> \<open>Gateway\<close>, \<open>Gateway_Main\<close>: \<open>WalWriter\<close> with its handle and its rotation (wal_writer.cpp), the
    treatment of a request and the statistics (http_server.cpp), the command line (main.cpp).
  \<^item> \<open>System\<close>: the storage engine as a step relation of appends, of whole and killed operations and
    of runs that overlap with the gateway's writes.
  \<^item> \<open>End_To_End\<close>: the concrete gateway, its requests and restarts, as a refinement of \<open>System\<close>.
  \<^item> \<open>Lifespan\<close>: the application as a state machine of its start, requests, the background worker
    and the shutdown, as a refinement of \<open>System\<close>.

  The state is the record \<open>world\<close> (Parquet_Store): the two directories as tables from names to
  contents, the control store, the lifecycle lock and a clock that draws names. The record \<open>env\<close>
  holds what the code does not define. A function that can raise returns \<open>Inl\<close> of the exception
  with the state it leaves behind.

  \<^bold>\<open>What is shown.\<close> The log format: what is written is read, what is read was written, a torn or
  damaged record is found at its offset. The materialisation: a refinement of the specification,
  so that each row is visible exactly once after a run that returns, and never twice after one
  that does not; a kill inside a flush or a compaction changes nothing that queries see. The lock:
  mutual exclusion under all interleavings. The gateway: the segments hold what was acknowledged,
  in order, whatever the rotation did. The engine: over all orders of appends, torn appends, runs,
  kills at any point and cleanups nothing is duplicated, and nothing below the offsets is missing
  unless a run failed; a run that overlaps with writes shows all that was written before it began
  and nothing that was not written by its end; one that a failing file access or transaction stops
  releases the lock, reports no corruption that is not there and is made good by the next; a
  compaction that raises changes nothing that queries see. Both together: as long as
  no run failed nothing is reported as corrupt, and the API counts the spans that the gateway's
  processes accepted. The API: who is authenticated, the isolation of tenants, what needs the
  administrator, that each query is what its rows say, and that the status reports damage. The
  application: any sequence of requests, runs of the worker and a shutdown is a sequence of steps
  of the engine, and the shutdown ends after the run in progress, in at most four steps. Some
  theorems state behaviour the code hardly intends (a sealed segment marked before its rows are
  committed, rows lost when a compaction cannot close its file, an automatic cleanup that cannot
  run, a segment that is never released, a record that hides its successors, a blank or shared
  key, a negative size): they hold of the code as it is.

  \<^bold>\<open>Parameters and assumptions.\<close> Not defined here, but arguments of the model: SHA-256 and random
  texts, the protobuf parser (a parsed request or the exception it raises), \<open>repr(float)\<close> and
  \<open>float\<close>, the resolution of paths, uuid and clock texts (\<open>unique_names\<close>: no two draws agree), the
  results of \<open>unlink\<close>, the failures of a materialisation (\<open>io_faults\<close>) and of a compaction
  (\<open>compact_faults\<close>), the results of the gateway's \<open>open\<close>, \<open>write\<close> and \<open>fsync\<close> and its clock,
  what pyarrow writes before it fails, sizes of files, what sqlite3 raises where the code catches
  it, and of DuckDB the orders SQL leaves open (\<open>sql_engine\<close>), JSON
  extraction, casts and statistics. Texts are over code points below 256. FastAPI authenticates,
  then validates, then runs an endpoint.

  \<^bold>\<open>Bounds.\<close> No function needs fuel: the reader recurs on the bytes left, \<open>bit_count\<close> on its
  number, the background loop on how often it finds the stop event unset, all else structurally.
  CRC and lengths are 32-bit words, timestamps natural numbers compared with the bounds of int64.
  Doubles are the exact rationals of 53 bits, far from the limits of the exponent.

  \<^bold>\<open>Not modelled.\<close> The gateway's threads, sockets and signals and Boost's parsing of HTTP (the
  mutex of the writer makes appends atomic, so requests come one after the other); what a power
  failure takes from files that were not synchronised; the columns of timestamps that no decision
  reads; logging; the \<open>OperationalError\<close> of the query of quarantined segments, which \<open>materialize\<close>
  swallows (the table is there from the start), a commit that raises although it took effect, and
  the errors of \<open>stat\<close>, of \<open>glob\<close> and of the transaction with which the WAL cleanup records a deletion;
  in \<open>System\<close>, a compaction whose close fails; the timeouts of the lock; a cancellation of the
  worker's task, which nothing in the program asks for; requests to the backend that run at the
  same time, but for the lock that excludes them where they write; the frontend, the examples and
  the deployment files, which have no logic of their own.
\<close>

section \<open>Properties that span components\<close>

text \<open>From the first run on, the background worker keeps what is visible.\<close>

lemma loop_again:
  assumes "accounted st ev written lost w" "quiet_run st ev a w" "\<And>e. \<not> fatal st ev written e"
  shows "\<exists>n w'. materialize st ev a w = (Inr n, w') \<and> visible (materialize_loop st ev a (Suc k) w) = visible w'"
  using assms
proof (induction k arbitrary: w)
  case 0
  then obtain n w' where "materialize st ev a w = (Inr n, w')" using quiet_returns by blast
  then show ?case by simp
next
  case (Suc k)
  have idle: "lock_idle a (lifecycle_lock w)" using Suc.prems(2) by (simp add: quiet_run_def)
  from materialize_twice [OF Suc.prems(1,2) idle Suc.prems(3)] obtain n w' w'' where
    run: "materialize st ev a w = (Inr n, w')" "materialize st ev a w' = (Inr 0, w'')" "visible w'' = visible w'"
    and acc: "accounted st ev written lost w'" and same: "wal_dir w' = wal_dir w" "lifecycle_lock w' = lifecycle_lock w"
    by blast
  have "quiet_run st ev a w'" using Suc.prems(2) same by (simp add: quiet_run_def)
  from Suc.IH [OF acc this Suc.prems(3)] run show ?case by auto
qed

text \<open>
  The background worker converges.  Without appends in between, and if nothing makes a run
  raise, the worker shows after any number of iterations what the first one showed: every row
  exactly once, and never a duplicate.
\<close>

theorem background_worker_converges:
  assumes acc: "accounted st ev written {#} w" and quiet: "quiet_run st ev a w" and ok: "\<And>e. \<not> fatal st ev written e"
    and on: "float_positive (materialize_interval_seconds st)"
  shows "\<exists>n w'. materialize st ev a w = (Inr n, w') \<and>
    visible (background_worker st ev a (Suc k) w) = visible w' \<and>
    visible w' = rows_at st ev written (offset_of (control w'))"
proof -
  obtain n w' where run: "materialize st ev a w = (Inr n, w')" and vis: "visible (materialize_loop st ev a (Suc k) w) = visible w'"
    using loop_again [OF acc quiet ok] by blast
  moreover have "accounted st ev written {#} w'" using quiet_materialize [OF acc quiet run] by auto
  ultimately show ?thesis using on by (simp add: background_worker_def accounted_def)
qed

theorem background_worker_converges_witness:
  "\<exists>n w'. materialize (sample_settings\<lparr>materialize_interval_seconds := 1\<rparr>) one_span (0, 0) (fresh_world sample_segments) = (Inr n, w') \<and>
     visible (background_worker (sample_settings\<lparr>materialize_interval_seconds := 1\<rparr>) one_span (0, 0) 3 (fresh_world sample_segments)) = visible w'"
proof -
  let ?st = "sample_settings\<lparr>materialize_interval_seconds := 1\<rparr>"
  have "quiet_run ?st one_span (0, 0) (fresh_world sample_segments)"
    using sample_quiet [OF one_span_unique, of "(0, 0)"] by (simp add: quiet_run_def sample_settings_def)
  moreover have "float_positive (materialize_interval_seconds ?st)"
    by simp (code_simp)
  moreover have "\<not> fatal ?st one_span sample_segments e" for e
    by (rule one_span_not_fatal) (rule sample_segments_short)
  ultimately show ?thesis
    using background_worker_converges [OF sample_fresh_accounted, of ?st one_span "(0, 0)" 2]
    by (simp add: numeral_3_eq_3 numeral_2_eq_2) blast
qed

text \<open>
  What the materialisation reports is what the analytics show.  If the endpoint answers that
  it materialised some number of spans, the administrator's overview then counts just as many
  more spans than before.
\<close>

theorem materialized_spans_are_counted:
  assumes acc: "accounted st ev written lost w" and quiet: "quiet_run st ev a w"
    and sql: "sql_engine (duck api)" and ok: "sqlite_error api = None" "query_error (duck api) = None"
    and run: "run_materializer st ev a w = (Inr n, w')"
  shows "\<exists>before after. analytics_overview api None admin w = Inr before \<and> analytics_overview api None admin w' = Inr after \<and>
    ov_total_spans after = ov_total_spans before + n"
proof -
  have "materialize st ev a w = (Inr n, w')"
    using run by (auto simp: run_materializer_def or_500_def split: sum.splits prod.splits)
  from quiet_materialize [OF acc quiet this] have "size (visible w') = size (visible w) + n" by auto
  then have "length (visible_rows w') = length (visible_rows w) + n" by (simp add: visible_def)
  moreover have f: "tenant_filter admin None = Inr None" by (simp add: tenant_filter_def admin_def)
  ultimately show ?thesis
    by (simp add: query_endpoints(3) [OF sql ok f] overview_query_def Let_def)
qed

theorem materialized_spans_are_counted_witness:
  "\<exists>n w' before after. run_materializer sample_settings one_span (0, 0) (fresh_world sample_segments) = (Inr n, w') \<and>
     analytics_overview sample_api None admin (fresh_world sample_segments) = Inr before \<and>
     analytics_overview sample_api None admin w' = Inr after \<and> ov_total_spans after = ov_total_spans before + n"
proof -
  have quiet: "quiet_run sample_settings one_span (0, 0) (fresh_world sample_segments)"
    by (rule sample_quiet [OF one_span_unique])
  have "\<not> fatal sample_settings one_span sample_segments e" for e
    by (rule one_span_not_fatal) (rule sample_segments_short)
  then obtain n w' where "materialize sample_settings one_span (0, 0) (fresh_world sample_segments) = (Inr n, w')"
    using quiet_returns [OF sample_fresh_accounted quiet] by blast
  then have run: "run_materializer sample_settings one_span (0, 0) (fresh_world sample_segments) = (Inr n, w')"
    by (simp add: run_materializer_def or_500_def)
  have ok: "sqlite_error sample_api = None" by (simp add: sample_api_def)
  from materialized_spans_are_counted [OF sample_fresh_accounted quiet sample_api_ok(1) ok sample_api_ok(2) run] run
  show ?thesis by blast
qed

end
